(* ===== verification/Prelude.thy ===== *)
theory Prelude
  imports Main "HOL-Library.Monad_Syntax"
begin

text \<open>
  Shared ground of the development: the status codes and limits of
  \<^verbatim>\<open>src/common/utils.h\<close>, checked access to fixed-size C arrays, the loops that
  shift array elements, and the generic lemmas on lists the components use.

  A C function that returns normally is a value \<open>Some r\<close>; \<open>None\<close> stands for
  undefined behaviour (a null, dangling or out-of-bounds access) or for a loop that
  does not end.  A theorem that an operation equals \<open>Some r\<close> therefore also states
  memory safety and termination.
\<close>

section \<open>Status codes and limits\<close>

datatype status = SUCCESS | FAILURE

definition MAX_TOKEN_VALUE :: nat where "MAX_TOKEN_VALUE = 256"
definition MAX_IDENTIFIER_LEN :: nat where "MAX_IDENTIFIER_LEN = 64"
definition MAX_COLUMNS :: nat where "MAX_COLUMNS = 32"
definition MAX_VALUE_LEN :: nat where "MAX_VALUE_LEN = 256"
definition MAX_PATH_LEN :: nat where "MAX_PATH_LEN = 256"
definition MAX_CSV_LINE_LENGTH :: nat where "MAX_CSV_LINE_LENGTH = 16384"

lemmas limit_defs = MAX_TOKEN_VALUE_def MAX_IDENTIFIER_LEN_def MAX_COLUMNS_def
  MAX_VALUE_LEN_def MAX_PATH_LEN_def MAX_CSV_LINE_LENGTH_def

named_theorems array_simps \<open>checked array access and the array loops\<close>

section \<open>Checked access to C arrays\<close>

definition aget :: "'a list \<Rightarrow> nat \<Rightarrow> 'a option" where
  "aget xs i = (if i < length xs then Some (xs ! i) else None)"

definition aset :: "'a list \<Rightarrow> nat \<Rightarrow> 'a \<Rightarrow> 'a list option" where
  "aset xs i v = (if i < length xs then Some (xs[i := v]) else None)"

text \<open>The loop \<^verbatim>\<open>for (i = n; i > lo; i--) a[i] = a[i - 1];\<close>\<close>

fun shift_right :: "'a list \<Rightarrow> nat \<Rightarrow> nat \<Rightarrow> 'a list option" where
  "shift_right a i lo =
     (if lo < i then do {
        v \<leftarrow> aget a (i - 1);
        a' \<leftarrow> aset a i v;
        shift_right a' (i - 1) lo
      } else Some a)"

declare shift_right.simps [simp del]

text \<open>
  The loop that fills a scratch array of \<open>cap\<close> slots with the elements of a source
  array and one extra element at a given position:
  \<^verbatim>\<open>for (i = 0, j = 0; i < cnt; i++) { if (i == pos) { tmp[i] = x; continue; } tmp[i] = src[j]; j++; }\<close>
  The result is the filled part of the scratch array.
\<close>

function splice_loop :: "nat \<Rightarrow> 'a list \<Rightarrow> 'a \<Rightarrow> nat \<Rightarrow> nat \<Rightarrow> nat \<Rightarrow> nat \<Rightarrow> 'a list option" where
  "splice_loop cap src x pos cnt i j =
     (if i < cnt then
        (if cap \<le> i then None
         else if i = pos then do {
           rest \<leftarrow> splice_loop cap src x pos cnt (Suc i) j;
           Some (x # rest)
         } else do {
           v \<leftarrow> aget src j;
           rest \<leftarrow> splice_loop cap src x pos cnt (Suc i) (Suc j);
           Some (v # rest)
         })
      else Some [])"
  by pat_completeness auto
termination
  by (relation "measure (\<lambda>(cap, src, x, pos, cnt, i, j). cnt - i)") auto

declare splice_loop.simps [simp del]

text \<open>The loop \<^verbatim>\<open>for (i = from, j = 0; i < hi; i++, j++) dst[j] = src[i];\<close>\<close>

function copy_loop :: "'a list \<Rightarrow> 'a list \<Rightarrow> nat \<Rightarrow> nat \<Rightarrow> nat \<Rightarrow> 'a list option" where
  "copy_loop dst src i hi j =
     (if i < hi then do {
        v \<leftarrow> aget src i;
        dst' \<leftarrow> aset dst j v;
        copy_loop dst' src (Suc i) hi (Suc j)
      } else Some dst)"
  by pat_completeness auto
termination
  by (relation "measure (\<lambda>(dst, src, i, hi, j). hi - i)") auto

declare copy_loop.simps [simp del]

section \<open>Generic lemmas\<close>

definition insert_at :: "nat \<Rightarrow> 'a \<Rightarrow> 'a list \<Rightarrow> 'a list" where
  "insert_at i x xs = take i xs @ x # drop i xs"

lemma aget_in [array_simps]: "i < length xs \<Longrightarrow> aget xs i = Some (xs ! i)"
  by (simp add: aget_def)

lemma aset_in [array_simps]: "i < length xs \<Longrightarrow> aset xs i v = Some (xs[i := v])"
  by (simp add: aset_def)

lemma length_insert_at [simp]: "i \<le> length xs \<Longrightarrow> length (insert_at i x xs) = Suc (length xs)"
  by (simp add: insert_at_def)

lemma map_insert_at: "map f (insert_at i x xs) = insert_at i (f x) (map f xs)"
  by (simp add: insert_at_def take_map drop_map)

lemma set_insert_at [simp]: "set (insert_at i x xs) = insert x (set xs)"
  by (simp add: insert_at_def) (metis append_take_drop_id set_append)

lemma nth_insert_at:
  "i \<le> length xs \<Longrightarrow>
   insert_at i x xs ! j = (if j < i then xs ! j else if j = i then x else xs ! (j - 1))"
  by (auto simp: insert_at_def nth_append nth_Cons' min_def)

lemma insert_at_append:
  "length xs = i \<Longrightarrow> insert_at i x (xs @ ys) = xs @ x # ys"
  by (simp add: insert_at_def)

lemma shift_right_eq [array_simps]:
  assumes "lo \<le> n" "n < length a"
  shows "shift_right a n lo = Some (take (Suc lo) a @ drop lo (take n a) @ drop (Suc n) a)"
  using assms
proof (induction "n - lo" arbitrary: n a)
  case 0
  then have "n = lo" by simp
  with 0 show ?case by (simp add: shift_right.simps)
next
  case (Suc d)
  define a' where "a' = a[n := a ! (n - 1)]"
  have lt: "lo < n" using Suc by simp
  have "shift_right a n lo = shift_right a' (n - 1) lo"
    using lt Suc.prems by (subst shift_right.simps) (simp add: array_simps a'_def)
  also have "\<dots> = Some (take (Suc lo) a' @ drop lo (take (n - 1) a') @ drop n a')"
    using Suc.hyps(1)[of "n - 1" a'] Suc.hyps(2) Suc.prems lt by (simp add: a'_def)
  also have "drop n a' = a ! (n - 1) # drop (Suc n) a"
    using Suc.prems by (simp add: a'_def Cons_nth_drop_Suc [symmetric])
  also have "take (n - 1) a' = take (n - 1) a"
    by (simp add: a'_def)
  also have "take (Suc lo) a' = take (Suc lo) a"
    using lt by (simp add: a'_def)
  finally have "shift_right a n lo =
      Some (take (Suc lo) a @ drop lo (take (n - 1) a) @ a ! (n - 1) # drop (Suc n) a)"
    by simp
  moreover have "take n a = take (n - 1) a @ [a ! (n - 1)]"
    using lt Suc.prems take_Suc_conv_app_nth [of "n - 1" a] by simp
  ultimately show ?case
    using lt Suc.prems by (simp add: min_def)
qed

text \<open>Shifting up and overwriting the freed slot is insertion into the used prefix.\<close>

lemma shift_insert:
  assumes "i \<le> n" "n < length a"
  shows "\<exists>a'. shift_right a n i = Some a' \<and> length a' = length a \<and>
           take (Suc n) (a'[i := x]) = insert_at i x (take n a)"
proof -
  let ?a = "take (Suc i) a @ drop i (take n a) @ drop (Suc n) a"
  have len: "length ?a = length a" using assms by simp
  have "?a[i := x] = take i a @ x # drop i (take n a) @ drop (Suc n) a"
    using assms by (simp add: list_update_append take_Suc_conv_app_nth)
  then have "take (Suc n) (?a[i := x]) = insert_at i x (take n a)"
    using assms by (simp add: insert_at_def min_def Suc_diff_le)
  with len assms show ?thesis by (auto simp: shift_right_eq)
qed

lemma splice_loop_after:
  assumes "pos < i" "j + cnt = length src + i" "j \<le> length src" "i \<le> cnt" "cnt \<le> cap"
  shows "splice_loop cap src x pos cnt i j = Some (drop j src)"
  using assms
proof (induction "cnt - i" arbitrary: i j)
  case 0
  then show ?case by (simp add: splice_loop.simps)
next
  case (Suc d)
  then have "j < length src" by simp
  moreover have "splice_loop cap src x pos cnt (Suc i) (Suc j) = Some (drop (Suc j) src)"
    using Suc.prems Suc.hyps by simp
  ultimately show ?case
    using Suc.prems Suc.hyps(2)
    by (subst splice_loop.simps) (simp add: array_simps Cons_nth_drop_Suc)
qed

lemma splice_loop_before:
  assumes "i \<le> pos" "pos \<le> length src" "length src < cap"
  shows "splice_loop cap src x pos (Suc (length src)) i i = Some (drop i (take pos src) @ x # drop pos src)"
  using assms
proof (induction "pos - i" arbitrary: i)
  case 0
  then show ?case
    by (subst splice_loop.simps) (simp add: splice_loop_after)
next
  case (Suc d)
  then have lt: "i < pos" "i < length src" "i < cap" by auto
  have "splice_loop cap src x pos (Suc (length src)) (Suc i) (Suc i) =
      Some (drop (Suc i) (take pos src) @ x # drop pos src)"
    using Suc.prems Suc.hyps by simp
  moreover have "drop i (take pos src) = src ! i # drop (Suc i) (take pos src)"
    using lt Cons_nth_drop_Suc [of i "take pos src"] by simp
  ultimately show ?case
    using lt by (subst splice_loop.simps) (simp add: array_simps)
qed

lemma splice_loop_eq:
  "pos \<le> length src \<Longrightarrow> length src < cap \<Longrightarrow>
   splice_loop cap src x pos (Suc (length src)) 0 0 = Some (insert_at pos x src)"
  by (simp add: splice_loop_before insert_at_def)

lemma copy_loop_eq [array_simps]:
  assumes "i \<le> hi" "hi \<le> length src" "j + (hi - i) \<le> length dst"
  shows "copy_loop dst src i hi j =
     Some (take j dst @ drop i (take hi src) @ drop (j + (hi - i)) dst)"
  using assms
proof (induction "hi - i" arbitrary: i j dst)
  case 0
  then show ?case by (simp add: copy_loop.simps)
next
  case (Suc d)
  then have lt: "i < hi" "j < length dst" by auto
  define dst' where "dst' = dst[j := src ! i]"
  have "copy_loop dst src i hi j = copy_loop dst' src (Suc i) hi (Suc j)"
    using lt Suc.prems by (subst copy_loop.simps) (simp add: array_simps dst'_def)
  also have "\<dots> = Some (take (Suc j) dst' @ drop (Suc i) (take hi src) @ drop (j + (hi - i)) dst')"
    using Suc.hyps(1)[of "Suc i" "Suc j" dst'] Suc.hyps(2) Suc.prems lt
    by (simp add: dst'_def Suc_diff_Suc)
  also have "take (Suc j) dst' = take j dst @ [src ! i]"
    using lt by (simp add: dst'_def take_Suc_conv_app_nth)
  also have "drop (j + (hi - i)) dst' = drop (j + (hi - i)) dst"
    using lt by (simp add: dst'_def)
  finally show ?case
    using lt Suc.prems Cons_nth_drop_Suc [of i "take hi src"] by simp
qed

lemma copy_prefix [array_simps]:
  assumes "n \<le> length src" "n \<le> length dst"
  shows "copy_loop dst src 0 n 0 = Some (take n src @ drop n dst)"
  using assms by (simp add: copy_loop_eq)

end
