(* ===== verification/BPTree.thy ===== *)
theory BPTree
  imports Prelude
begin

text \<open>
  The B+ tree of \<^verbatim>\<open>src/db/bptree.c\<close>, at the level of the C code: nodes are
  cells of a heap, linked by parent, child and next pointers; the node arrays have
  their C sizes and are read and written slot by slot through checked accesses; every
  \<^verbatim>\<open>calloc\<close> may fail (the heap carries the outcome of each allocation).  The
  operations return \<open>None\<close> exactly where the C code has no defined result: a dangling
  pointer, an index outside an array, or a pointer cycle that a loop never leaves.
  The walks along child and parent pointers carry fuel proportional to the number of
  allocations so far (\<open>fresh h\<close>), which bounds the number of live nodes; the
  refinement theorems show that this is enough for every well-formed tree.
\<close>

section \<open>Nodes and the heap\<close>

definition BPTREE_MAX_KEYS :: nat where "BPTREE_MAX_KEYS = 31"

type_synonym addr = nat

record bp_node =
  is_leaf :: bool
  key_count :: nat
  keys :: "int list"
  parent :: "addr option"
  children :: "addr option list"
  row_indices :: "int list"
  next_leaf :: "addr option"

record bp_heap =
  cells :: "addr \<rightharpoonup> bp_node"
  fresh :: addr
  calloc_ok :: "nat \<Rightarrow> bool"

definition put :: "bp_heap \<Rightarrow> addr \<Rightarrow> bp_node \<Rightarrow> bp_heap" where
  "put h a nd = h\<lparr>cells := (cells h)(a \<mapsto> nd)\<rparr>"

text \<open>The zeroed node that \<^verbatim>\<open>calloc(1, sizeof(BPTreeNode))\<close> yields.\<close>

definition zero_node :: "bool \<Rightarrow> bp_node" where
  "zero_node leaf = \<lparr>is_leaf = leaf, key_count = 0,
     keys = replicate BPTREE_MAX_KEYS 0, parent = None,
     children = replicate (BPTREE_MAX_KEYS + 1) None,
     row_indices = replicate BPTREE_MAX_KEYS 0, next_leaf = None\<rparr>"

definition bptree_create_node :: "bp_heap \<Rightarrow> bool \<Rightarrow> bp_heap \<times> addr option" where
  "bptree_create_node h leaf =
     (if calloc_ok h (fresh h)
      then (h\<lparr>cells := (cells h)(fresh h \<mapsto> zero_node leaf), fresh := Suc (fresh h)\<rparr>, Some (fresh h))
      else (h\<lparr>fresh := Suc (fresh h)\<rparr>, None))"

section \<open>Search\<close>

text \<open>\<^verbatim>\<open>for (i = 0; i < key_count; i++) if (key < keys[i]) break;\<close>\<close>

function child_slot :: "int list \<Rightarrow> nat \<Rightarrow> int \<Rightarrow> nat \<Rightarrow> nat option" where
  "child_slot ks n key i =
     (if i < n then do {
        k \<leftarrow> aget ks i;
        if key < k then Some i else child_slot ks n key (Suc i)
      } else Some i)"
  by pat_completeness auto
termination
  by (relation "measure (\<lambda>(ks, n, key, i). n - i)") auto

declare child_slot.simps [simp del]

fun bptree_find_leaf :: "nat \<Rightarrow> bp_heap \<Rightarrow> addr option \<Rightarrow> int \<Rightarrow> addr option option" where
  "bptree_find_leaf 0 h current key = None"
| "bptree_find_leaf (Suc fuel) h current key =
     (case current of
        None \<Rightarrow> Some None
      | Some a \<Rightarrow> do {
          nd \<leftarrow> cells h a;
          if is_leaf nd then Some (Some a)
          else do {
            i \<leftarrow> child_slot (keys nd) (key_count nd) key 0;
            c \<leftarrow> aget (children nd) i;
            bptree_find_leaf fuel h c key
          }
        })"

text \<open>\<^verbatim>\<open>for (i = 0; i < key_count; i++) if (keys[i] == key) ... return\<close>\<close>

function key_slot :: "int list \<Rightarrow> nat \<Rightarrow> int \<Rightarrow> nat \<Rightarrow> nat option option" where
  "key_slot ks n key i =
     (if i < n then do {
        k \<leftarrow> aget ks i;
        if k = key then Some (Some i) else key_slot ks n key (Suc i)
      } else Some None)"
  by pat_completeness auto
termination
  by (relation "measure (\<lambda>(ks, n, key, i). n - i)") auto

declare key_slot.simps [simp del]

text \<open>
  \<^verbatim>\<open>bptree_search\<close>: \<open>Some (Some r)\<close> is \<^verbatim>\<open>SUCCESS\<close> with \<open>r\<close> stored
  through the out parameter, \<open>Some None\<close> is \<^verbatim>\<open>FAILURE\<close>.
\<close>

definition bptree_search :: "bp_heap \<Rightarrow> addr option \<Rightarrow> int \<Rightarrow> int option option" where
  "bptree_search h root key =
     (if root = None then Some None
      else do {
        leaf \<leftarrow> bptree_find_leaf (Suc (fresh h)) h root key;
        case leaf of
          None \<Rightarrow> Some None
        | Some a \<Rightarrow> do {
            nd \<leftarrow> cells h a;
            slot \<leftarrow> key_slot (keys nd) (key_count nd) key 0;
            case slot of
              None \<Rightarrow> Some None
            | Some i \<Rightarrow> do {
                r \<leftarrow> aget (row_indices nd) i;
                Some (Some r)
              }
          }
      })"

section \<open>Insertion\<close>

text \<open>\<^verbatim>\<open>while (insert_index < key_count && keys[insert_index] < key) insert_index++;\<close>\<close>

function insert_slot :: "int list \<Rightarrow> nat \<Rightarrow> int \<Rightarrow> nat \<Rightarrow> nat option" where
  "insert_slot ks n key i =
     (if i < n then do {
        k \<leftarrow> aget ks i;
        if k < key then insert_slot ks n key (Suc i) else Some i
      } else Some i)"
  by pat_completeness auto
termination
  by (relation "measure (\<lambda>(ks, n, key, i). n - i)") auto

declare insert_slot.simps [simp del]

definition bptree_insert_into_leaf ::
  "bp_heap \<Rightarrow> addr option \<Rightarrow> int \<Rightarrow> int \<Rightarrow> (bp_heap \<times> status) option" where
  "bptree_insert_into_leaf h leaf key row_index =
     (case leaf of
        None \<Rightarrow> Some (h, FAILURE)
      | Some a \<Rightarrow> do {
          nd \<leftarrow> cells h a;
          if \<not> is_leaf nd \<or> BPTREE_MAX_KEYS \<le> key_count nd then Some (h, FAILURE)
          else do {
            i \<leftarrow> insert_slot (keys nd) (key_count nd) key 0;
            ks \<leftarrow> shift_right (keys nd) (key_count nd) i;
            rs \<leftarrow> shift_right (row_indices nd) (key_count nd) i;
            ks' \<leftarrow> aset ks i key;
            rs' \<leftarrow> aset rs i row_index;
            Some (put h a (nd\<lparr>keys := ks', row_indices := rs', key_count := Suc (key_count nd)\<rparr>), SUCCESS)
          }
        })"

text \<open>\<^verbatim>\<open>for (i = 0; i <= parent->key_count; i++) if (parent->children[i] == child) return i;\<close>\<close>

function child_index_loop :: "addr option list \<Rightarrow> nat \<Rightarrow> addr \<Rightarrow> nat \<Rightarrow> nat option option" where
  "child_index_loop cs n child i =
     (if i \<le> n then do {
        c \<leftarrow> aget cs i;
        if c = Some child then Some (Some i) else child_index_loop cs n child (Suc i)
      } else Some None)"
  by pat_completeness auto
termination
  by (relation "measure (\<lambda>(cs, n, child, i). Suc n - i)") auto

declare child_index_loop.simps [simp del]

definition bptree_find_child_index ::
  "bp_heap \<Rightarrow> addr option \<Rightarrow> addr option \<Rightarrow> nat option option" where
  "bptree_find_child_index h par child =
     (case (par, child) of
        (Some p, Some c) \<Rightarrow> do {
          nd \<leftarrow> cells h p;
          child_index_loop (children nd) (key_count nd) c 0
        }
      | _ \<Rightarrow> Some None)"

text \<open>The guarded assignment \<^verbatim>\<open>if (c != NULL) c->parent = p;\<close>\<close>

definition set_parent :: "bp_heap \<Rightarrow> addr option \<Rightarrow> addr \<Rightarrow> bp_heap option" where
  "set_parent h c p =
     (case c of
        None \<Rightarrow> Some h
      | Some a \<Rightarrow> do { nd \<leftarrow> cells h a; Some (put h a (nd\<lparr>parent := Some p\<rparr>)) })"

fun set_parents :: "bp_heap \<Rightarrow> addr option list \<Rightarrow> addr \<Rightarrow> bp_heap option" where
  "set_parents h [] p = Some h"
| "set_parents h (c # cs) p = do { h' \<leftarrow> set_parent h c p; set_parents h' cs p }"

definition bptree_insert_into_internal ::
  "bp_heap \<Rightarrow> addr \<Rightarrow> nat \<Rightarrow> int \<Rightarrow> addr option \<Rightarrow> bp_heap option" where
  "bptree_insert_into_internal h node child_index key right_child = do {
     nd \<leftarrow> cells h node;
     ks \<leftarrow> shift_right (keys nd) (key_count nd) child_index;
     cs \<leftarrow> shift_right (children nd) (key_count nd + 1) (child_index + 1);
     ks' \<leftarrow> aset ks child_index key;
     cs' \<leftarrow> aset cs (child_index + 1) right_child;
     h' \<leftarrow> set_parent (put h node (nd\<lparr>keys := ks', children := cs'\<rparr>)) right_child node;
     nd' \<leftarrow> cells h' node;
     Some (put h' node (nd'\<lparr>key_count := Suc (key_count nd')\<rparr>))
   }"

text \<open>
  The work of \<^verbatim>\<open>bptree_split_internal\<close> on the full node and its new sibling, up to
  the call that hands the promoted key to the parent.
\<close>

definition split_internal_nodes ::
  "bp_heap \<Rightarrow> addr \<Rightarrow> addr \<Rightarrow> nat \<Rightarrow> int \<Rightarrow> addr option \<Rightarrow> (bp_heap \<times> int) option" where
  "split_internal_nodes h node new_node left_child_index key right_child = do {
     nd \<leftarrow> cells h node;
     let total_keys = key_count nd + 1;
     temp_keys \<leftarrow> splice_loop (BPTREE_MAX_KEYS + 1) (take (key_count nd) (keys nd)) key
        left_child_index total_keys 0 0;
     temp_children \<leftarrow> splice_loop (BPTREE_MAX_KEYS + 2) (take total_keys (children nd)) right_child
        (left_child_index + 1) (total_keys + 1) 0 0;
     let promote_index = total_keys div 2;
     promote_key \<leftarrow> aget temp_keys promote_index;
     let cleared = replicate (BPTREE_MAX_KEYS + 1) None;
     ks \<leftarrow> copy_loop (keys nd) temp_keys 0 promote_index 0;
     cs \<leftarrow> copy_loop cleared temp_children 0 promote_index 0;
     c \<leftarrow> aget temp_children promote_index;
     cs' \<leftarrow> aset cs promote_index c;
     h1 \<leftarrow> set_parents (put h node (nd\<lparr>keys := ks, children := cs', key_count := promote_index\<rparr>))
        (take (promote_index + 1) temp_children) node;
     nn \<leftarrow> cells h1 new_node;
     ks2 \<leftarrow> copy_loop (keys nn) temp_keys (promote_index + 1) total_keys 0;
     cs2 \<leftarrow> copy_loop (children nn) temp_children (promote_index + 1) (total_keys + 1) 0;
     h2 \<leftarrow> set_parents (put h1 new_node (nn\<lparr>keys := ks2, children := cs2,
          key_count := key_count nn + (total_keys - (promote_index + 1))\<rparr>))
        (drop (promote_index + 1) temp_children) new_node;
     nd' \<leftarrow> cells h2 node;
     nn' \<leftarrow> cells h2 new_node;
     Some (put h2 new_node (nn'\<lparr>parent := parent nd'\<rparr>), promote_key)
   }"

fun bptree_insert_into_parent ::
    "nat \<Rightarrow> bp_heap \<Rightarrow> addr option \<Rightarrow> addr option \<Rightarrow> int \<Rightarrow> addr option \<Rightarrow>
     (bp_heap \<times> addr option \<times> status) option"
  and bptree_split_internal ::
    "nat \<Rightarrow> bp_heap \<Rightarrow> addr option \<Rightarrow> addr option \<Rightarrow> nat \<Rightarrow> int \<Rightarrow> addr option \<Rightarrow>
     (bp_heap \<times> addr option \<times> status) option"
where
  "bptree_insert_into_parent 0 h root left key right = None"
| "bptree_insert_into_parent (Suc fuel) h root left key right =
     (case (left, right) of
        (Some l, Some r) \<Rightarrow> do {
          ln \<leftarrow> cells h l;
          case parent ln of
            None \<Rightarrow>
              (case bptree_create_node h False of
                 (h', None) \<Rightarrow> Some (h', root, FAILURE)
               | (h', Some new_root) \<Rightarrow> do {
                   nr \<leftarrow> cells h' new_root;
                   ks \<leftarrow> aset (keys nr) 0 key;
                   cs \<leftarrow> aset (children nr) 0 left;
                   cs' \<leftarrow> aset cs 1 right;
                   let h1 = put h' new_root (nr\<lparr>keys := ks, children := cs', key_count := 1\<rparr>);
                   h2 \<leftarrow> set_parent h1 left new_root;
                   h3 \<leftarrow> set_parent h2 right new_root;
                   Some (h3, Some new_root, SUCCESS)
                 })
          | Some p \<Rightarrow> do {
              ci \<leftarrow> bptree_find_child_index h (Some p) left;
              case ci of
                None \<Rightarrow> Some (h, root, FAILURE)
              | Some i \<Rightarrow> do {
                  pn \<leftarrow> cells h p;
                  if key_count pn < BPTREE_MAX_KEYS
                  then do {
                    h' \<leftarrow> bptree_insert_into_internal h p i key right;
                    Some (h', root, SUCCESS)
                  }
                  else bptree_split_internal fuel h root (Some p) i key right
                }
            }
        }
      | _ \<Rightarrow> Some (h, root, FAILURE))"
| "bptree_split_internal 0 h root node left_child_index key right_child = None"
| "bptree_split_internal (Suc fuel) h root node left_child_index key right_child =
     (case node of
        None \<Rightarrow> Some (h, root, FAILURE)
      | Some a \<Rightarrow> do {
          nd \<leftarrow> cells h a;
          if is_leaf nd then Some (h, root, FAILURE)
          else (case bptree_create_node h False of
                  (h', None) \<Rightarrow> Some (h', root, FAILURE)
                | (h', Some new_node) \<Rightarrow> do {
                    (h'', promote_key) \<leftarrow>
                      split_internal_nodes h' a new_node left_child_index key right_child;
                    bptree_insert_into_parent fuel h'' root node promote_key (Some new_node)
                  })
        })"

text \<open>The work of \<^verbatim>\<open>bptree_split_leaf\<close> on the full leaf and its new right sibling.\<close>

definition split_leaf_nodes ::
  "bp_heap \<Rightarrow> addr \<Rightarrow> addr \<Rightarrow> int \<Rightarrow> int \<Rightarrow> bp_heap option" where
  "split_leaf_nodes h leaf new_leaf key row_index = do {
     nd \<leftarrow> cells h leaf;
     let total_keys = key_count nd + 1;
     i \<leftarrow> insert_slot (keys nd) (key_count nd) key 0;
     temp_keys \<leftarrow> splice_loop (BPTREE_MAX_KEYS + 1) (take (key_count nd) (keys nd)) key i total_keys 0 0;
     temp_rows \<leftarrow> splice_loop (BPTREE_MAX_KEYS + 1) (take (key_count nd) (row_indices nd)) row_index
        i total_keys 0 0;
     let split_index = total_keys div 2;
     ks \<leftarrow> copy_loop (keys nd) temp_keys 0 split_index 0;
     rs \<leftarrow> copy_loop (row_indices nd) temp_rows 0 split_index 0;
     nn \<leftarrow> cells h new_leaf;
     ks2 \<leftarrow> copy_loop (keys nn) temp_keys split_index total_keys 0;
     rs2 \<leftarrow> copy_loop (row_indices nn) temp_rows split_index total_keys 0;
     let nn' = nn\<lparr>keys := ks2, row_indices := rs2,
        key_count := key_count nn + (total_keys - split_index),
        next_leaf := next_leaf nd, parent := parent nd\<rparr>;
     let nd' = nd\<lparr>keys := ks, row_indices := rs, key_count := split_index, next_leaf := Some new_leaf\<rparr>;
     Some (put (put h new_leaf nn') leaf nd')
   }"

definition bptree_split_leaf ::
  "bp_heap \<Rightarrow> addr option \<Rightarrow> addr option \<Rightarrow> int \<Rightarrow> int \<Rightarrow>
   (bp_heap \<times> addr option \<times> status) option" where
  "bptree_split_leaf h root leaf key row_index =
     (case leaf of
        None \<Rightarrow> Some (h, root, FAILURE)
      | Some a \<Rightarrow> do {
          nd \<leftarrow> cells h a;
          if \<not> is_leaf nd then Some (h, root, FAILURE)
          else (case bptree_create_node h True of
                  (h', None) \<Rightarrow> Some (h', root, FAILURE)
                | (h', Some new_leaf) \<Rightarrow> do {
                    h'' \<leftarrow> split_leaf_nodes h' a new_leaf key row_index;
                    nn \<leftarrow> cells h'' new_leaf;
                    k0 \<leftarrow> aget (keys nn) 0;
                    bptree_insert_into_parent (2 * fresh h'') h'' root leaf k0 (Some new_leaf)
                  })
        })"

definition bptree_insert ::
  "bp_heap \<Rightarrow> addr option \<Rightarrow> int \<Rightarrow> int \<Rightarrow> (bp_heap \<times> addr option \<times> status) option" where
  "bptree_insert h root key row_index =
     (case root of
        None \<Rightarrow>
          (case bptree_create_node h True of
             (h', None) \<Rightarrow> Some (h', None, FAILURE)
           | (h', Some a) \<Rightarrow> do {
               nd \<leftarrow> cells h' a;
               ks \<leftarrow> aset (keys nd) 0 key;
               rs \<leftarrow> aset (row_indices nd) 0 row_index;
               Some (put h' a (nd\<lparr>keys := ks, row_indices := rs, key_count := 1\<rparr>), Some a, SUCCESS)
             })
      | Some _ \<Rightarrow> do {
          found \<leftarrow> bptree_search h root key;
          if found \<noteq> None then Some (h, root, FAILURE)
          else do {
            leaf \<leftarrow> bptree_find_leaf (Suc (fresh h)) h root key;
            case leaf of
              None \<Rightarrow> Some (h, root, FAILURE)
            | Some a \<Rightarrow> do {
                nd \<leftarrow> cells h a;
                if key_count nd < BPTREE_MAX_KEYS
                then do {
                  (h', st) \<leftarrow> bptree_insert_into_leaf h leaf key row_index;
                  Some (h', root, st)
                }
                else bptree_split_leaf h root leaf key row_index
              }
          }
        })"

section \<open>Release\<close>

fun bptree_free :: "nat \<Rightarrow> bp_heap \<Rightarrow> addr option \<Rightarrow> bp_heap option"
  and bptree_free_children :: "nat \<Rightarrow> bp_heap \<Rightarrow> addr \<Rightarrow> nat \<Rightarrow> bp_heap option"
where
  "bptree_free 0 h root = None"
| "bptree_free (Suc fuel) h root =
     (case root of
        None \<Rightarrow> Some h
      | Some a \<Rightarrow> do {
          nd \<leftarrow> cells h a;
          h' \<leftarrow> (if is_leaf nd then Some h else bptree_free_children fuel h a 0);
          nd' \<leftarrow> cells h' a;
          Some (h'\<lparr>cells := (cells h')(a := None)\<rparr>)
        })"
| "bptree_free_children 0 h a i = None"
| "bptree_free_children (Suc fuel) h a i = do {
     nd \<leftarrow> cells h a;
     if i \<le> key_count nd then do {
       c \<leftarrow> aget (children nd) i;
       h' \<leftarrow> bptree_free fuel h c;
       bptree_free_children fuel h' a (Suc i)
     } else Some h
   }"

end
