(* ===== verification/BPTree_Shape.thy ===== *)
theory BPTree_Shape
  imports BPTree "HOL-Library.Multiset"
begin

text \<open>
  The mathematical trees behind the heap of \<^verbatim>\<open>src/db/bptree.c\<close>: a tree whose nodes
  carry their heap address, the path from the root to a leaf as a list of frames, and
  insertion along such a path.  Ordering is one condition on a flattened tree: an entry
  with key \<open>k\<close> is the number \<open>2 * k + 1\<close>, a separator \<open>s\<close> is \<open>2 * s\<close>, and the
  flattened list is strictly increasing.  That is the search-tree order (entries left of
  a separator are smaller than it, entries right of it are at least as large), and it is
  insensitive to how the list is cut into nodes.
\<close>

section \<open>Trees with addresses\<close>

datatype bpt = Lf addr "(int \<times> int) list" | Nd addr "int list" "bpt list"

fun addr_of :: "bpt \<Rightarrow> addr" where
  "addr_of (Lf a kvs) = a"
| "addr_of (Nd a ks ts) = a"

fun addrs :: "bpt \<Rightarrow> addr list" where
  "addrs (Lf a kvs) = [a]"
| "addrs (Nd a ks ts) = a # concat (map addrs ts)"

fun leaf_addrs :: "bpt \<Rightarrow> addr list" where
  "leaf_addrs (Lf a kvs) = [a]"
| "leaf_addrs (Nd a ks ts) = concat (map leaf_addrs ts)"

fun entries :: "bpt \<Rightarrow> (int \<times> int) list" where
  "entries (Lf a kvs) = kvs"
| "entries (Nd a ks ts) = concat (map entries ts)"

text \<open>Children interleaved with the separators between them.\<close>

fun weave :: "int list list \<Rightarrow> int list \<Rightarrow> int list" where
  "weave (t # ts) (k # ks) = t @ k # weave ts ks"
| "weave ts ks = concat ts @ ks"

fun flat :: "bpt \<Rightarrow> int list" where
  "flat (Lf a kvs) = map (\<lambda>kv. 2 * fst kv + 1) kvs"
| "flat (Nd a ks ts) = weave (map flat ts) (map (\<lambda>k. 2 * k) ks)"

text \<open>
  Shape: all leaves at the same depth, every inner node with one child more than keys,
  no node with more than \<open>BPTREE_MAX_KEYS\<close> keys.
\<close>

fun shape :: "nat \<Rightarrow> bpt \<Rightarrow> bool" where
  "shape n (Lf a kvs) \<longleftrightarrow> n = 0 \<and> length kvs \<le> BPTREE_MAX_KEYS"
| "shape n (Nd a ks ts) \<longleftrightarrow>
     length ks \<le> BPTREE_MAX_KEYS \<and> length ts = Suc (length ks) \<and>
     (\<exists>m. n = Suc m \<and> (\<forall>t \<in> set ts. shape m t))"

text \<open>
  Occupancy below the root: a leaf keeps at least 16 entries, an inner node at least 15
  keys, which is what splitting 32 keys in two leaves behind.
\<close>

fun full_enough :: "bpt \<Rightarrow> bool" where
  "full_enough (Lf a kvs) \<longleftrightarrow> 16 \<le> length kvs"
| "full_enough (Nd a ks ts) \<longleftrightarrow> 15 \<le> length ks \<and> (\<forall>t \<in> set ts. full_enough t)"

fun root_full_enough :: "bpt \<Rightarrow> bool" where
  "root_full_enough (Lf a kvs) \<longleftrightarrow> kvs \<noteq> []"
| "root_full_enough (Nd a ks ts) \<longleftrightarrow> ks \<noteq> [] \<and> (\<forall>t \<in> set ts. full_enough t)"

section \<open>Paths\<close>

text \<open>
  A frame is an inner node with a hole for one child: its address, the keys left and
  right of the hole, the children left and right of it.  A path lists the frames from
  the innermost outwards.
\<close>

type_synonym frame = "addr \<times> int list \<times> int list \<times> bpt list \<times> bpt list"

fun plug :: "frame list \<Rightarrow> bpt \<Rightarrow> bpt" where
  "plug [] t = t"
| "plug ((a, lks, rks, lts, rts) # c) t = plug c (Nd a (lks @ rks) (lts @ t # rts))"

fun path_parent :: "frame list \<Rightarrow> addr option" where
  "path_parent [] = None"
| "path_parent ((a, lks, rks, lts, rts) # c) = Some a"

fun path_addrs :: "frame list \<Rightarrow> addr list" where
  "path_addrs [] = []"
| "path_addrs ((a, lks, rks, lts, rts) # c) =
     a # concat (map addrs lts) @ concat (map addrs rts) @ path_addrs c"

fun path_ok :: "frame list \<Rightarrow> bool" where
  "path_ok [] = True"
| "path_ok ((a, lks, rks, lts, rts) # c) \<longleftrightarrow>
     length lts = length lks \<and> length rts = length rks \<and> path_ok c"

definition slot :: "int list \<Rightarrow> int \<Rightarrow> nat" where
  "slot ks key = length (takeWhile (\<lambda>k. k \<le> key) ks)"

text \<open>The path that the search for a key follows, and the leaf it reaches.\<close>

function descend :: "int \<Rightarrow> bpt \<Rightarrow> frame list \<Rightarrow> frame list \<times> bpt" where
  "descend key (Lf a kvs) c = (c, Lf a kvs)"
| "descend key (Nd a ks ts) c =
     (let i = slot ks key in
      if i < length ts
      then descend key (ts ! i) ((a, take i ks, drop i ks, take i ts, drop (Suc i) ts) # c)
      else (c, Nd a ks ts))"
  by pat_completeness auto
termination
  by (relation "measure (\<lambda>(key, t, c). size t)")
     (auto simp: less_Suc_eq_le size_list_estimation' [OF nth_mem order_refl])

section \<open>Insertion along a path\<close>

text \<open>
  Handing a separator and a new right sibling to the parent; \<open>f\<close> is the next free
  address.  The result is the whole tree.
\<close>

fun grow :: "addr \<Rightarrow> frame list \<Rightarrow> bpt \<Rightarrow> int \<Rightarrow> bpt \<Rightarrow> bpt" where
  "grow f [] L k R = Nd f [k] [L, R]"
| "grow f ((a, lks, rks, lts, rts) # c) L k R =
     (let ks = lks @ k # rks; ts = lts @ L # R # rts; m = length ks div 2 in
      if length ks \<le> BPTREE_MAX_KEYS then plug c (Nd a ks ts)
      else grow (Suc f) c (Nd a (take m ks) (take (Suc m) ts)) (ks ! m)
             (Nd f (drop (Suc m) ks) (drop (Suc m) ts)))"

definition leaf_slot :: "(int \<times> int) list \<Rightarrow> int \<Rightarrow> nat" where
  "leaf_slot kvs key = length (takeWhile (\<lambda>kv. fst kv < key) kvs)"

fun insert_leaf :: "addr \<Rightarrow> int \<Rightarrow> int \<Rightarrow> frame list \<times> bpt \<Rightarrow> bpt" where
  "insert_leaf f key row (c, Lf a kvs) =
     (let kvs' = insert_at (leaf_slot kvs key) (key, row) kvs; m = length kvs' div 2 in
      if length kvs' \<le> BPTREE_MAX_KEYS then plug c (Lf a kvs')
      else grow (Suc f) c (Lf a (take m kvs')) (fst (kvs' ! m)) (Lf f (drop m kvs')))"
| "insert_leaf f key row (c, Nd a ks ts) = plug c (Nd a ks ts)"

declare insert_leaf.simps [simp del]

section \<open>What a path contributes\<close>

abbreviation enc :: "int \<times> int \<Rightarrow> int" where
  "enc kv \<equiv> 2 * fst kv + 1"

definition woven_left :: "int list list \<Rightarrow> int list \<Rightarrow> int list" where
  "woven_left ts ks = concat (map2 (\<lambda>t k. t @ [k]) ts ks)"

definition woven_right :: "int list \<Rightarrow> int list list \<Rightarrow> int list" where
  "woven_right ks ts = concat (map2 (\<lambda>k t. k # t) ks ts)"

fun flat_left :: "frame list \<Rightarrow> int list" where
  "flat_left [] = []"
| "flat_left ((a, lks, rks, lts, rts) # c) =
     flat_left c @ woven_left (map flat lts) (map (\<lambda>k. 2 * k) lks)"

fun flat_right :: "frame list \<Rightarrow> int list" where
  "flat_right [] = []"
| "flat_right ((a, lks, rks, lts, rts) # c) =
     woven_right (map (\<lambda>k. 2 * k) rks) (map flat rts) @ flat_right c"

fun entries_left :: "frame list \<Rightarrow> (int \<times> int) list" where
  "entries_left [] = []"
| "entries_left ((a, lks, rks, lts, rts) # c) = entries_left c @ concat (map entries lts)"

fun entries_right :: "frame list \<Rightarrow> (int \<times> int) list" where
  "entries_right [] = []"
| "entries_right ((a, lks, rks, lts, rts) # c) = concat (map entries rts) @ entries_right c"

fun leaves_left :: "frame list \<Rightarrow> addr list" where
  "leaves_left [] = []"
| "leaves_left ((a, lks, rks, lts, rts) # c) = leaves_left c @ concat (map leaf_addrs lts)"

fun leaves_right :: "frame list \<Rightarrow> addr list" where
  "leaves_right [] = []"
| "leaves_right ((a, lks, rks, lts, rts) # c) = concat (map leaf_addrs rts) @ leaves_right c"

fun path_shape :: "nat \<Rightarrow> frame list \<Rightarrow> bool" where
  "path_shape n [] = True"
| "path_shape n ((a, lks, rks, lts, rts) # c) \<longleftrightarrow>
     length (lks @ rks) \<le> BPTREE_MAX_KEYS \<and> (\<forall>t \<in> set lts \<union> set rts. shape n t) \<and>
     path_shape (Suc n) c"

fun path_full :: "frame list \<Rightarrow> bool" where
  "path_full [] = True"
| "path_full ((a, lks, rks, lts, rts) # c) \<longleftrightarrow>
     (if c = [] then lks @ rks \<noteq> [] else 15 \<le> length (lks @ rks)) \<and>
     (\<forall>t \<in> set lts \<union> set rts. full_enough t) \<and> path_full c"

text \<open>How many nodes \<open>grow\<close> allocates.\<close>

fun grow_allocs :: "frame list \<Rightarrow> nat" where
  "grow_allocs [] = 1"
| "grow_allocs ((a, lks, rks, lts, rts) # c) =
     (if length (lks @ rks) < BPTREE_MAX_KEYS then 0 else Suc (grow_allocs c))"

lemma weave_hole:
  assumes "length A = length K" "length B = length L"
  shows "weave (A @ t # B) (K @ L) = woven_left A K @ t @ woven_right L B"
proof -
  have tail: "weave (t # B) L = t @ woven_right L B"
    using assms(2) by (induction B L arbitrary: t rule: list_induct2) (auto simp: woven_right_def)
  show ?thesis
    using assms(1) by (induction A K rule: list_induct2) (auto simp: woven_left_def tail)
qed

lemma weave_snoc_cons:
  "length A = length K \<Longrightarrow> woven_left (A @ [t]) (K @ [k]) = woven_left A K @ t @ [k]"
  by (simp add: woven_left_def)

lemma weave_cut:
  assumes "length ts = Suc (length ks)" "m < length ks"
  shows "weave ts ks = weave (take (Suc m) ts) (take m ks) @ ks ! m #
           weave (drop (Suc m) ts) (drop (Suc m) ks)"
  using assms
proof (induction m arbitrary: ts ks)
  case 0
  then obtain t ts' k ks' where "ts = t # ts'" "ks = k # ks'"
    by (metis Suc_length_conv list.exhaust list.size(3) not_less_zero)
  then show ?case by simp
next
  case (Suc m)
  then obtain t ts' k ks' where "ts = t # ts'" "ks = k # ks'"
    by (metis Suc_length_conv list.exhaust list.size(3) not_less_zero)
  with Suc show ?case by simp
qed

lemma flat_cut:
  assumes "length ts = Suc (length ks)" "m < length ks"
  shows "weave (map flat ts) (map (\<lambda>k. 2 * k) ks) =
     weave (map flat (take (Suc m) ts)) (map (\<lambda>k. 2 * k) (take m ks)) @ 2 * ks ! m #
     weave (map flat (drop (Suc m) ts)) (map (\<lambda>k. 2 * k) (drop (Suc m) ks))"
  using weave_cut [of "map flat ts" "map (\<lambda>k. 2 * k) ks" m] assms by (simp add: take_map drop_map)

lemma flat_plug: "path_ok c \<Longrightarrow> flat (plug c t) = flat_left c @ flat t @ flat_right c"
  by (induction c t rule: plug.induct) (simp_all add: weave_hole)

lemma entries_plug: "entries (plug c t) = entries_left c @ entries t @ entries_right c"
  by (induction c t rule: plug.induct) simp_all

lemma leaf_addrs_plug: "leaf_addrs (plug c t) = leaves_left c @ leaf_addrs t @ leaves_right c"
  by (induction c t rule: plug.induct) simp_all

lemma addrs_plug: "mset (addrs (plug c t)) = mset (addrs t) + mset (path_addrs c)"
  by (induction c t rule: plug.induct) simp_all

lemma shape_plug:
  "path_ok c \<Longrightarrow> (\<exists>N. shape N (plug c t)) \<longleftrightarrow> (\<exists>n. shape n t \<and> path_shape n c)"
proof (induction c t rule: plug.induct)
  case (2 a lks rks lts rts c t)
  then show ?case by auto
qed auto

lemma full_plug:
  "root_full_enough (plug c t) \<longleftrightarrow>
     (if c = [] then root_full_enough t else full_enough t \<and> path_full c)"
proof (induction c t rule: plug.induct)
  case (2 a lks rks lts rts c t)
  then show ?case by (cases "c = []") auto
qed auto

section \<open>Growing\<close>

lemma grow_entries:
  "entries (grow f c L k R) = entries_left c @ entries L @ entries R @ entries_right c"
proof (induction c arbitrary: f L k R)
  case (Cons fr c)
  obtain a lks rks lts rts where fr: "fr = (a, lks, rks, lts, rts)" by (cases fr)
  let ?ts = "lts @ L # R # rts"
  have cut: "concat (map entries (take m ?ts)) @ concat (map entries (drop m ?ts)) =
      concat (map entries ?ts)" for m
    by (metis append_take_drop_id concat_append map_append)
  show ?case
    using cut by (simp add: fr Let_def Cons entries_plug)
qed simp

lemma grow_leaf_addrs:
  "leaf_addrs (grow f c L k R) = leaves_left c @ leaf_addrs L @ leaf_addrs R @ leaves_right c"
proof (induction c arbitrary: f L k R)
  case (Cons fr c)
  obtain a lks rks lts rts where fr: "fr = (a, lks, rks, lts, rts)" by (cases fr)
  let ?ts = "lts @ L # R # rts"
  have cut: "concat (map leaf_addrs (take m ?ts)) @ concat (map leaf_addrs (drop m ?ts)) =
      concat (map leaf_addrs ?ts)" for m
    by (metis append_take_drop_id concat_append map_append)
  show ?case
    using cut by (simp add: fr Let_def Cons leaf_addrs_plug)
qed simp

lemma grow_addrs:
  "mset (addrs (grow f c L k R)) =
     mset (addrs L) + mset (addrs R) + mset (path_addrs c) + mset [f ..< f + grow_allocs c]"
proof (induction c arbitrary: f L k R)
  case (Cons fr c)
  obtain a lks rks lts rts where fr: "fr = (a, lks, rks, lts, rts)" by (cases fr)
  let ?ts = "lts @ L # R # rts"
  have cut: "mset (concat (map addrs (take m ?ts))) + mset (concat (map addrs (drop m ?ts))) =
      mset (concat (map addrs ?ts))" for m
    by (metis append_take_drop_id concat_append map_append mset_append)
  have up: "[f ..< Suc (f + n)] = f # [Suc f ..< Suc (f + n)]" for n
    by (simp add: upt_conv_Cons del: upt_Suc)
  show ?case
    using cut [of "Suc (Suc (length lks + length rks) div 2)"]
    by (auto simp: fr Let_def Cons addrs_plug up simp del: upt_Suc mset_upt)
qed simp

lemma grow_flat:
  assumes "path_ok c"
  shows "flat (grow f c L k R) = flat_left c @ flat L @ 2 * k # flat R @ flat_right c"
  using assms
proof (induction c arbitrary: f L k R)
  case (Cons fr c)
  obtain a lks rks lts rts where fr: "fr = (a, lks, rks, lts, rts)" by (cases fr)
  from Cons.prems have len: "length lts = length lks" "length rts = length rks" and ok: "path_ok c"
    by (auto simp: fr)
  let ?ks = "lks @ k # rks" and ?ts = "lts @ L # R # rts"
  let ?m = "length ?ks div 2" and ?d = "map (\<lambda>k. 2 * k)" and ?f = "map flat"
  have whole: "weave (?f ?ts) (?d ?ks) =
      woven_left (?f lts) (?d lks) @ flat L @ 2 * k # flat R @ woven_right (?d rks) (?f rts)"
    using weave_hole [of "?f lts" "?d lks" "flat R # ?f rts" "2 * k # ?d rks" "flat L"] len
    by (simp add: woven_right_def)
  have cut: "weave (?f ?ts) (?d ?ks) =
      weave (?f (take (Suc ?m) ?ts)) (?d (take ?m ?ks)) @ 2 * ?ks ! ?m #
      weave (?f (drop (Suc ?m) ?ts)) (?d (drop (Suc ?m) ?ks))"
    using len by (intro flat_cut) simp_all
  show ?case
  proof (cases "length ?ks \<le> BPTREE_MAX_KEYS")
    case True
    then show ?thesis using whole ok by (simp add: fr Let_def flat_plug)
  next
    case False
    then have "flat (grow f (fr # c) L k R) =
        flat_left c @ weave (?f ?ts) (?d ?ks) @ flat_right c"
      using Cons.IH ok cut by (simp add: fr Let_def)
    then show ?thesis using whole by (simp add: fr)
  qed
qed simp

lemma set_take_drop_ball:
  "(\<forall>x \<in> set (take m xs). P x) \<and> (\<forall>x \<in> set (drop m xs). P x) \<longleftrightarrow> (\<forall>x \<in> set xs. P x)"
  by (metis Un_iff append_take_drop_id set_append)

lemma grow_shape:
  assumes "path_ok c" "path_shape n c" "shape n L" "shape n R"
  shows "\<exists>N. shape N (grow f c L k R)"
  using assms
proof (induction c arbitrary: f n L k R)
  case Nil
  then show ?case by (auto simp: BPTREE_MAX_KEYS_def)
next
  case (Cons fr c)
  obtain a lks rks lts rts where fr: "fr = (a, lks, rks, lts, rts)" by (cases fr)
  let ?ks = "lks @ k # rks" and ?ts = "lts @ L # R # rts"
  let ?m = "length ?ks div 2"
  from Cons.prems have len: "length lts = length lks" "length rts = length rks"
    and ok: "path_ok c" "path_shape (Suc n) c" and bnd: "length (lks @ rks) \<le> BPTREE_MAX_KEYS"
    and sub: "\<forall>t \<in> set ?ts. shape n t"
    by (auto simp: fr)
  show ?case
  proof (cases "length ?ks \<le> BPTREE_MAX_KEYS")
    case True
    then have "shape (Suc n) (Nd a ?ks ?ts)" using len sub by simp
    then show ?thesis using True ok shape_plug [of c] by (auto simp: fr Let_def)
  next
    case False
    then have "length lks + length rks = 31" using bnd by (simp add: BPTREE_MAX_KEYS_def)
    then have "shape (Suc n) (Nd a (take ?m ?ks) (take (Suc ?m) ?ts))"
      and "shape (Suc n) (Nd f (drop (Suc ?m) ?ks) (drop (Suc ?m) ?ts))"
      using len set_take_drop_ball [of "Suc ?m" ?ts "shape n"] sub
      by (simp_all add: BPTREE_MAX_KEYS_def del: take_append drop_append)
    then show ?thesis using False Cons.IH [OF ok] by (simp add: fr Let_def)
  qed
qed

lemma grow_full:
  assumes "path_full c" "path_ok c" "full_enough L" "full_enough R"
    and "\<forall>fr \<in> set c. length (fst (snd fr) @ fst (snd (snd fr))) \<le> BPTREE_MAX_KEYS"
  shows "root_full_enough (grow f c L k R)"
  using assms
proof (induction c arbitrary: f L k R)
  case (Cons fr c)
  obtain a lks rks lts rts where fr: "fr = (a, lks, rks, lts, rts)" by (cases fr)
  let ?ks = "lks @ k # rks" and ?ts = "lts @ L # R # rts"
  let ?m = "length ?ks div 2"
  from Cons.prems have len: "length lts = length lks" "length rts = length rks"
    and ok: "path_ok c" "path_full c" and bnd: "length (lks @ rks) \<le> BPTREE_MAX_KEYS"
    and sub: "\<forall>t \<in> set ?ts. full_enough t"
    by (auto simp: fr)
  show ?case
  proof (cases "length ?ks \<le> BPTREE_MAX_KEYS")
    case True
    have "root_full_enough (plug c (Nd a ?ks ?ts))"
      using Cons.prems sub by (auto simp: full_plug fr split: if_splits)
    then show ?thesis using True by (simp add: fr Let_def)
  next
    case False
    then have "length ?ks = 32" using bnd by (simp add: BPTREE_MAX_KEYS_def)
    then have "full_enough (Nd a (take ?m ?ks) (take (Suc ?m) ?ts))"
      and "full_enough (Nd f (drop (Suc ?m) ?ks) (drop (Suc ?m) ?ts))"
      using set_take_drop_ball [of "Suc ?m" ?ts full_enough] sub
      by (simp_all del: take_append drop_append)
    then show ?thesis using False Cons by (simp add: fr Let_def)
  qed
qed simp

section \<open>Ordering and lookup\<close>

definition ordered :: "bpt \<Rightarrow> bool" where
  "ordered t \<longleftrightarrow> sorted_wrt (<) (flat t)"

lemma filter_odd_weave:
  "filter odd (weave ts (map (\<lambda>k. 2 * k) ks)) = concat (map (filter odd) ts)"
  by (induction ts "map (\<lambda>k. 2 * k) ks" arbitrary: ks rule: weave.induct)
     (auto simp: filter_concat filter_empty_conv)

lemma filter_odd_flat: "filter odd (flat t) = map enc (entries t)"
proof (induction t)
  case (Lf a kvs)
  show ?case by (simp add: filter_id_conv)
next
  case (Nd a ks ts)
  then have "map (filter odd) (map flat ts) = map (map enc) (map entries ts)" by simp
  then show ?case by (simp only: flat.simps entries.simps filter_odd_weave map_concat)
qed

lemma ordered_keys: "ordered t \<Longrightarrow> sorted_wrt (<) (map fst (entries t))"
proof -
  assume "ordered t"
  then have "sorted_wrt (<) (map enc (entries t))"
    unfolding ordered_def filter_odd_flat [symmetric] by (rule sorted_wrt_filter)
  then show ?thesis
    unfolding sorted_wrt_map by (rule sorted_wrt_mono_rel [rotated]) simp
qed

lemma ordered_distinct: "ordered t \<Longrightarrow> distinct (map fst (entries t))"
  using ordered_keys strict_sorted_iff by blast

lemma flat_entry: "kv \<in> set (entries t) \<Longrightarrow> enc kv \<in> set (flat t)"
proof -
  assume "kv \<in> set (entries t)"
  then have "enc kv \<in> set (filter odd (flat t))" unfolding filter_odd_flat by auto
  then show ?thesis by auto
qed

lemma woven_left_simps [simp]:
  "woven_left [] ks = []" "woven_left (t # ts) (k # ks) = t @ k # woven_left ts ks"
  by (auto simp: woven_left_def)

lemma woven_right_simps [simp]:
  "woven_right [] ts = []" "woven_right (k # ks) (t # ts) = k # t @ woven_right ks ts"
  by (auto simp: woven_right_def)

lemma set_woven_left: "length ts = length ks \<Longrightarrow> set (concat ts) \<subseteq> set (woven_left ts ks)"
  by (induction ts ks rule: list_induct2) auto

lemma set_woven_right: "length ts = length ks \<Longrightarrow> set (concat ts) \<subseteq> set (woven_right ks ts)"
  by (induction ts ks rule: list_induct2) auto

lemma woven_left_below:
  "length ts = length ks \<Longrightarrow> sorted_wrt (<) (woven_left ts ks) \<Longrightarrow> \<forall>k \<in> set ks. k < z \<Longrightarrow>
   \<forall>x \<in> set (woven_left ts ks). x < (z::int)"
proof (induction ts ks rule: list_induct2)
  case (Cons t ts k ks)
  then show ?case
    by (fastforce simp: sorted_wrt_append)
qed simp

lemma woven_right_above:
  assumes "length ts = length ks" "sorted_wrt (<) (woven_right ks ts)" "ks \<noteq> [] \<longrightarrow> z < hd ks"
  shows "\<forall>x \<in> set (woven_right ks ts). (z::int) < x"
proof (cases ks)
  case (Cons k ks')
  then obtain t ts' where "ts = t # ts'" using assms(1) by (cases ts) auto
  with Cons assms(2,3) show ?thesis by (metis less_trans list.sel(1) list.simps(3) set_ConsD sorted_wrt.simps(2) woven_right_simps(2))
qed simp

lemma slot_le: "slot ks key \<le> length ks"
  unfolding slot_def by (rule length_takeWhile_le)

lemma slot_left: "k \<in> set (take (slot ks key) ks) \<Longrightarrow> k \<le> key"
  unfolding slot_def by (metis set_takeWhileD takeWhile_eq_take)

lemma slot_right: "drop (slot ks key) ks \<noteq> [] \<Longrightarrow> key < hd (drop (slot ks key) ks)"
  unfolding slot_def
  by (metis dropWhile_eq_drop hd_dropWhile not_le)

text \<open>A path points at the place of a key: everything left of it is smaller, everything
  right of it larger.\<close>

definition points_at :: "int \<Rightarrow> frame list \<Rightarrow> bool" where
  "points_at key c \<longleftrightarrow> path_ok c \<and>
     (\<forall>x \<in> set (flat_left c). x < 2 * key + 1) \<and> (\<forall>x \<in> set (flat_right c). 2 * key + 1 < x)"

lemma descend_frame:
  assumes "points_at key c" "ordered (plug c (Nd a ks ts))" "length ts = Suc (length ks)"
    and "i = slot ks key"
  shows "points_at key ((a, take i ks, drop i ks, take i ts, drop (Suc i) ts) # c)"
proof -
  let ?d = "map (\<lambda>k. 2 * k)" and ?f = "map flat"
  have i: "i \<le> length ks" using slot_le assms(4) by simp
  have ok: "path_ok c" using assms(1) by (simp add: points_at_def)
  have split: "take i ts @ ts ! i # drop (Suc i) ts = ts"
    using i assms(3) by (simp add: id_take_nth_drop [symmetric])
  have lens: "length (take i ts) = length (take i ks)" "length (drop (Suc i) ts) = length (drop i ks)"
    using i assms(3) by auto
  have "weave (?f ts) (?d ks) = woven_left (?f (take i ts)) (?d (take i ks)) @ flat (ts ! i) @
      woven_right (?d (drop i ks)) (?f (drop (Suc i) ts))"
    using weave_hole [of "?f (take i ts)" "?d (take i ks)" "?f (drop (Suc i) ts)" "?d (drop i ks)" "flat (ts ! i)"]
      lens split by (metis append_take_drop_id length_map list.simps(9) map_append)
  with assms(2) ok have sorted: "sorted_wrt (<) (woven_left (?f (take i ts)) (?d (take i ks)))"
      "sorted_wrt (<) (woven_right (?d (drop i ks)) (?f (drop (Suc i) ts)))"
    by (auto simp: ordered_def flat_plug sorted_wrt_append)
  have below: "\<forall>k \<in> set (?d (take i ks)). k < 2 * key + 1"
    using slot_left assms(4) by fastforce
  have left: "\<forall>x \<in> set (woven_left (?f (take i ts)) (?d (take i ks))). x < 2 * key + 1"
    by (rule woven_left_below [OF _ sorted(1) below]) (use lens in simp)
  have above: "?d (drop i ks) \<noteq> [] \<longrightarrow> 2 * key + 1 < hd (?d (drop i ks))"
    using slot_right [of ks key] assms(4) by (auto simp: hd_map)
  have right: "\<forall>x \<in> set (woven_right (?d (drop i ks)) (?f (drop (Suc i) ts))). 2 * key + 1 < x"
    by (rule woven_right_above [OF _ sorted(2) above]) (use lens in simp)
  show ?thesis
    using assms(1) left right lens by (auto simp: points_at_def)
qed

lemma descend_correct:
  assumes "descend key t c = (c', leaf)" "points_at key c" "ordered (plug c t)" "shape n t"
  shows "plug c' leaf = plug c t \<and> points_at key c' \<and> (\<exists>a kvs. leaf = Lf a kvs) \<and>
    length c' = length c + n"
  using assms
proof (induction key t c arbitrary: n rule: descend.induct)
  case (2 key a ks ts c)
  let ?i = "slot ks key"
  from "2.prems"(4) obtain m where n: "n = Suc m" and len: "length ts = Suc (length ks)"
    and sub: "\<forall>t \<in> set ts. shape m t" by auto
  then have i: "?i < length ts" using slot_le [of ks key] by simp
  let ?fr = "(a, take ?i ks, drop ?i ks, take ?i ts, drop (Suc ?i) ts)"
  have same: "plug (?fr # c) (ts ! ?i) = plug c (Nd a ks ts)"
    using i by (simp add: id_take_nth_drop [symmetric])
  have "descend key (ts ! ?i) (?fr # c) = (c', leaf)"
    using "2.prems"(1) i by (simp add: Let_def)
  moreover have "points_at key (?fr # c)"
    using descend_frame "2.prems" len by blast
  ultimately have "plug c' leaf = plug (?fr # c) (ts ! ?i) \<and> points_at key c' \<and>
      (\<exists>a kvs. leaf = Lf a kvs) \<and> length c' = length (?fr # c) + m"
    using "2.IH" [OF refl i, of m] "2.prems"(3) same sub i by simp
  then show ?case using same n by simp
qed auto

lemma entries_left_flat: "kv \<in> set (entries_left c) \<Longrightarrow> path_ok c \<Longrightarrow> enc kv \<in> set (flat_left c)"
proof (induction c rule: entries_left.induct)
  case (2 a lks rks lts rts c)
  show ?case
  proof (cases "kv \<in> set (entries_left c)")
    case False
    then obtain t where t: "t \<in> set lts" "kv \<in> set (entries t)" using 2 by auto
    have "set (concat (map flat lts)) \<subseteq> set (woven_left (map flat lts) (map (\<lambda>k. 2 * k) lks))"
      using "2.prems"(2) by (intro set_woven_left) simp
    moreover have "enc kv \<in> set (concat (map flat lts))"
      using t flat_entry [of kv t] by auto
    ultimately show ?thesis by auto
  qed (use 2 in auto)
qed simp

lemma entries_right_flat: "kv \<in> set (entries_right c) \<Longrightarrow> path_ok c \<Longrightarrow> enc kv \<in> set (flat_right c)"
proof (induction c rule: entries_right.induct)
  case (2 a lks rks lts rts c)
  show ?case
  proof (cases "kv \<in> set (entries_right c)")
    case False
    then obtain t where t: "t \<in> set rts" "kv \<in> set (entries t)" using 2 by auto
    have "set (concat (map flat rts)) \<subseteq> set (woven_right (map (\<lambda>k. 2 * k) rks) (map flat rts))"
      using "2.prems"(2) by (intro set_woven_right) simp
    moreover have "enc kv \<in> set (concat (map flat rts))"
      using t flat_entry [of kv t] by auto
    ultimately show ?thesis by auto
  qed (use 2 in auto)
qed simp

lemma map_of_pointed:
  assumes "points_at key c"
  shows "map_of (entries (plug c t)) key = map_of (entries t) key"
proof -
  have "key \<notin> fst ` set (entries_left c)" "key \<notin> fst ` set (entries_right c)"
    using assms entries_left_flat entries_right_flat unfolding points_at_def by fastforce+
  then show ?thesis
    by (simp add: entries_plug map_of_eq_None_iff [symmetric] map_add_def split: option.split)
qed

section \<open>Insertion\<close>

lemma leaf_slot_le [simp]: "leaf_slot kvs key \<le> length kvs"
  unfolding leaf_slot_def by (rule length_takeWhile_le)

lemma leaf_slot_left: "kv \<in> set (take (leaf_slot kvs key) kvs) \<Longrightarrow> fst kv < key"
  unfolding leaf_slot_def by (metis set_takeWhileD takeWhile_eq_take)

lemma leaf_slot_right:
  assumes "sorted_wrt (<) (map fst kvs)" "key \<notin> fst ` set kvs"
    "kv \<in> set (drop (leaf_slot kvs key) kvs)"
  shows "key < fst kv"
proof -
  let ?d = "dropWhile (\<lambda>kv. fst kv < key) kvs"
  have kv: "kv \<in> set ?d" using assms(3) by (simp add: leaf_slot_def dropWhile_eq_drop)
  then obtain x xs where d: "?d = x # xs" by (cases ?d) auto
  then have "\<not> fst x < key" using hd_dropWhile [of "\<lambda>kv. fst kv < key" kvs] by simp
  moreover have "x \<in> set kvs" using d by (metis list.set_intros(1) set_dropWhileD)
  ultimately have "key < fst x" using assms(2) by force
  moreover have "sorted_wrt (<) (map fst ?d)"
    using assms(1) by (metis dropWhile_eq_drop drop_map sorted_wrt_drop)
  ultimately show ?thesis using kv d by auto
qed

lemma sorted_insert_hole:
  assumes "sorted_wrt (<) (xs @ ys)" "\<forall>x \<in> set xs. x < z" "\<forall>y \<in> set ys. z < y"
  shows "sorted_wrt (<) (xs @ z # (ys :: int list))"
  using assms by (auto simp: sorted_wrt_append)

text \<open>A separator equal to the first key of the right half keeps the order.\<close>

lemma sorted_add_separator:
  assumes "sorted_wrt (<) (xs @ (2 * k + 1) # ys)" "xs \<noteq> []" "odd (last xs)"
  shows "sorted_wrt (<) (xs @ 2 * k # (2 * k + 1) # (ys :: int list))"
proof -
  obtain xs' x where xs: "xs = xs' @ [x]" using assms(2) by (metis rev_exhaust)
  have "x < 2 * k + 1" "odd x" using assms xs by (auto simp: sorted_wrt_append)
  then have "x < 2 * k" by presburger
  then show ?thesis using assms(1) xs by (fastforce simp: sorted_wrt_append)
qed

text \<open>Everything an insertion at a pointed place needs to know.\<close>

definition insert_site :: "int \<Rightarrow> frame list \<Rightarrow> addr \<Rightarrow> (int \<times> int) list \<Rightarrow> bool" where
  "insert_site key c a kvs \<longleftrightarrow> points_at key c \<and> ordered (plug c (Lf a kvs)) \<and>
     (\<exists>N. shape N (plug c (Lf a kvs))) \<and> key \<notin> fst ` set kvs"

lemma insert_site_sorted:
  assumes "insert_site key c a kvs"
  shows "sorted_wrt (<) (flat_left c @ map enc (insert_at (leaf_slot kvs key) (key, row) kvs) @ flat_right c)"
proof -
  let ?i = "leaf_slot kvs key"
  from assms have pt: "points_at key c" and ok: "path_ok c"
    and ord: "sorted_wrt (<) (flat_left c @ map enc kvs @ flat_right c)" and nin: "key \<notin> fst ` set kvs"
    by (auto simp: insert_site_def points_at_def ordered_def flat_plug)
  have "sorted_wrt (<) (map enc kvs)" using ord by (auto simp: sorted_wrt_append)
  then have srt: "sorted_wrt (<) (map fst kvs)"
    unfolding sorted_wrt_map by (rule sorted_wrt_mono_rel [rotated]) simp
  have ord2: "sorted_wrt (<) ((flat_left c @ map enc (take ?i kvs)) @ map enc (drop ?i kvs) @ flat_right c)"
    using ord by (metis append.assoc append_take_drop_id map_append)
  have "sorted_wrt (<) ((flat_left c @ map enc (take ?i kvs)) @ (2 * key + 1) # map enc (drop ?i kvs) @ flat_right c)"
    by (rule sorted_insert_hole [OF ord2])
      (use pt leaf_slot_left leaf_slot_right [OF srt nin] in \<open>fastforce simp: points_at_def\<close>)+
  then show ?thesis by (simp add: insert_at_def)
qed

lemma insert_leaf_cases:
  assumes "length kvs \<le> BPTREE_MAX_KEYS"
  obtains (fits) "length kvs < BPTREE_MAX_KEYS"
      "insert_leaf f key row (c, Lf a kvs) = plug c (Lf a (insert_at (leaf_slot kvs key) (key, row) kvs))"
  | (full) "length kvs = 31" "length (insert_at (leaf_slot kvs key) (key, row) kvs) = 32"
      "insert_leaf f key row (c, Lf a kvs) =
         grow (Suc f) c (Lf a (take 16 (insert_at (leaf_slot kvs key) (key, row) kvs)))
           (fst (insert_at (leaf_slot kvs key) (key, row) kvs ! 16))
           (Lf f (drop 16 (insert_at (leaf_slot kvs key) (key, row) kvs)))"
proof (cases "length kvs < BPTREE_MAX_KEYS")
  case True
  then show ?thesis using fits by (simp add: insert_leaf.simps Let_def)
next
  case False
  then have len: "length kvs = 31" using assms by (simp add: BPTREE_MAX_KEYS_def)
  have len': "length (insert_at (leaf_slot kvs key) (key, row) kvs) = 32"
    unfolding length_insert_at [OF leaf_slot_le] using len by simp
  show ?thesis
    by (rule full) (use len len' in \<open>simp_all add: insert_leaf.simps Let_def BPTREE_MAX_KEYS_def\<close>)
qed

lemma insert_leaf_ordered:
  assumes "insert_site key c a kvs" "length kvs \<le> BPTREE_MAX_KEYS"
  shows "ordered (insert_leaf f key row (c, Lf a kvs))"
proof -
  let ?k = "insert_at (leaf_slot kvs key) (key, row) kvs"
  have ok: "path_ok c" using assms(1) by (simp add: insert_site_def points_at_def)
  have srt: "sorted_wrt (<) (flat_left c @ map enc ?k @ flat_right c)"
    using insert_site_sorted [OF assms(1)] .
  show ?thesis
  proof (cases rule: insert_leaf_cases [OF assms(2), where key = key and row = row and f = f and c = c and a = a, case_names fits full])
    case fits
    then show ?thesis using srt ok by (simp add: ordered_def flat_plug)
  next
    case full
    let ?l = "take 16 ?k" and ?x = "?k ! 16" and ?r = "drop (Suc 16) ?k"
    have dr: "drop 16 ?k = ?x # ?r"
      by (rule Cons_nth_drop_Suc [symmetric]) (use full(2) in \<open>simp del: length_insert_at\<close>)
    have parts: "?k = ?l @ ?x # ?r"
      using append_take_drop_id [of 16 ?k] unfolding dr by (rule sym)
    have "map enc ?k = map enc ?l @ enc ?x # map enc ?r"
      using arg_cong [OF parts, of "map enc"] unfolding map_append list.map .
    then have "sorted_wrt (<) ((flat_left c @ map enc ?l) @ (2 * fst ?x + 1) # map enc ?r @ flat_right c)"
      using srt by simp
    moreover have "?l \<noteq> []" using full(1) by (auto simp: insert_at_def)
    ultimately have "sorted_wrt (<) ((flat_left c @ map enc ?l) @ 2 * fst ?x # (2 * fst ?x + 1) #
        map enc ?r @ flat_right c)"
      by (intro sorted_add_separator) (simp_all add: last_map)
    then show ?thesis
      using ok by (simp add: ordered_def full(3) grow_flat dr)
  qed
qed

lemma insert_leaf_entries:
  assumes "length kvs \<le> BPTREE_MAX_KEYS"
  shows "entries (insert_leaf f key row (c, Lf a kvs)) =
     entries_left c @ insert_at (leaf_slot kvs key) (key, row) kvs @ entries_right c"
  by (cases rule: insert_leaf_cases [OF assms, where key = key and row = row and f = f and c = c and a = a, case_names fits full])
     (simp_all add: entries_plug grow_entries)

lemma insert_leaf_map:
  assumes "insert_site key c a kvs" "length kvs \<le> BPTREE_MAX_KEYS"
  shows "map_of (entries (insert_leaf f key row (c, Lf a kvs))) =
     (map_of (entries (plug c (Lf a kvs)))) (key \<mapsto> row)"
proof -
  let ?t = "insert_leaf f key row (c, Lf a kvs)" and ?o = "plug c (Lf a kvs)"
  have dist: "distinct (map fst (entries ?t))" "distinct (map fst (entries ?o))"
    using insert_leaf_ordered [OF assms] assms(1) by (auto simp: insert_site_def intro: ordered_distinct)
  have "set (entries ?t) = insert (key, row) (set (entries ?o))"
    by (auto simp: insert_leaf_entries [OF assms(2)] entries_plug)
  moreover have "key \<notin> fst ` set (entries ?o)"
  proof -
    have "map_of (entries ?o) key = map_of kvs key"
      using map_of_pointed [of key c] assms(1) by (simp add: insert_site_def)
    then show ?thesis using assms(1) by (metis insert_site_def map_of_eq_None_iff)
  qed
  ultimately have "map_of (entries ?t) k = Some v \<longleftrightarrow>
      ((map_of (entries ?o)) (key \<mapsto> row)) k = Some v" for k v
    using dist by (auto simp: map_of_eq_Some_iff [OF dist(1)] map_of_eq_Some_iff [OF dist(2)] rev_image_eqI)
  then show ?thesis by (metis (no_types) ext option.exhaust)
qed

lemma insert_leaf_shape:
  assumes "insert_site key c a kvs" "length kvs \<le> BPTREE_MAX_KEYS"
  shows "\<exists>N. shape N (insert_leaf f key row (c, Lf a kvs))"
proof -
  have ok: "path_ok c" and "\<exists>N. shape N (plug c (Lf a kvs))"
    using assms(1) by (auto simp: insert_site_def points_at_def)
  then have ps: "path_shape 0 c" using shape_plug by auto
  show ?thesis
  proof (cases rule: insert_leaf_cases [OF assms(2), where key = key and row = row and f = f and c = c and a = a, case_names fits full])
    case fits
    then show ?thesis using shape_plug [OF ok] ps by auto
  next
    case full
    show ?thesis unfolding full(3)
      by (rule grow_shape [OF ok ps]) (use full(2) in \<open>simp_all add: BPTREE_MAX_KEYS_def del: length_insert_at\<close>)
  qed
qed

lemma path_shape_bound:
  "path_shape n c \<Longrightarrow> \<forall>fr \<in> set c. length (fst (snd fr) @ fst (snd (snd fr))) \<le> BPTREE_MAX_KEYS"
  by (induction n c rule: path_shape.induct) auto

lemma insert_leaf_full:
  assumes "insert_site key c a kvs" "length kvs \<le> BPTREE_MAX_KEYS" "root_full_enough (plug c (Lf a kvs))"
  shows "root_full_enough (insert_leaf f key row (c, Lf a kvs))"
proof -
  have ok: "path_ok c" and "\<exists>N. shape N (plug c (Lf a kvs))"
    using assms(1) by (auto simp: insert_site_def points_at_def)
  then have bnd: "\<forall>fr \<in> set c. length (fst (snd fr) @ fst (snd (snd fr))) \<le> BPTREE_MAX_KEYS"
    using shape_plug path_shape_bound by blast
  show ?thesis
  proof (cases rule: insert_leaf_cases [OF assms(2), where key = key and row = row and f = f and c = c and a = a, case_names fits full])
    case fits
    then show ?thesis using assms(3) by (auto simp: full_plug insert_at_def split: if_splits)
  next
    case full
    have "path_full c" using assms(3) by (auto simp: full_plug split: if_splits)
    then show ?thesis unfolding full(3)
      by (rule grow_full [OF _ ok _ _ bnd]) (use full(2) in \<open>simp_all del: length_insert_at\<close>)
  qed
qed

definition insert_allocs :: "frame list \<Rightarrow> (int \<times> int) list \<Rightarrow> nat" where
  "insert_allocs c kvs = (if length kvs < BPTREE_MAX_KEYS then 0 else Suc (grow_allocs c))"

lemma insert_leaf_addrs:
  assumes "length kvs \<le> BPTREE_MAX_KEYS"
  shows "mset (addrs (insert_leaf f key row (c, Lf a kvs))) =
     mset (addrs (plug c (Lf a kvs))) + mset [f ..< f + insert_allocs c kvs]"
proof (cases rule: insert_leaf_cases [OF assms, where key = key and row = row and f = f and c = c and a = a, case_names fits full])
  case fits
  then show ?thesis by (simp add: addrs_plug insert_allocs_def)
next
  case full
  have "\<not> length kvs < BPTREE_MAX_KEYS" using full(1) by (simp add: BPTREE_MAX_KEYS_def)
  moreover have "[f ..< Suc (f + n)] = f # [Suc f ..< Suc (f + n)]" for n
    by (simp add: upt_conv_Cons del: upt_Suc)
  ultimately show ?thesis
    by (simp add: full(3) grow_addrs addrs_plug insert_allocs_def del: upt_Suc mset_upt)
qed

lemma insert_leaf_leaf_addrs:
  assumes "length kvs \<le> BPTREE_MAX_KEYS"
  shows "leaf_addrs (insert_leaf f key row (c, Lf a kvs)) =
     leaves_left c @ (if length kvs < BPTREE_MAX_KEYS then [a] else [a, f]) @ leaves_right c"
  by (cases rule: insert_leaf_cases [OF assms, where key = key and row = row and f = f and c = c and a = a, case_names fits full])
     (auto simp: leaf_addrs_plug grow_leaf_addrs BPTREE_MAX_KEYS_def)

section \<open>Height\<close>

lemma full_enough_entries: "shape n t \<Longrightarrow> full_enough t \<Longrightarrow> 16 ^ Suc n \<le> length (entries t)"
proof (induction t arbitrary: n)
  case (Nd a ks ts)
  then obtain m where m: "n = Suc m" "\<forall>t \<in> set ts. shape m t" and len: "16 \<le> length ts" by auto
  have "(\<Sum>t \<leftarrow> ts. 16 ^ Suc m) \<le> (\<Sum>t \<leftarrow> ts. length (entries t))"
    using Nd m by (intro sum_list_mono) auto
  then have "length ts * 16 ^ Suc m \<le> length (entries (Nd a ks ts))"
    by (simp add: sum_list_triv length_concat comp_def)
  moreover have "16 * 16 ^ Suc m \<le> length ts * (16::nat) ^ Suc m"
    using len by (intro mult_right_mono) auto
  ultimately have "16 * 16 ^ Suc m \<le> length (entries (Nd a ks ts))" by (rule order_trans [rotated])
  then show ?case using m by simp
qed auto

lemma root_height:
  assumes "shape (Suc n) t" "root_full_enough t"
  shows "2 * 16 ^ Suc n \<le> length (entries t)"
proof (cases t)
  case (Nd a ks ts)
  with assms obtain t1 t2 ts' where ts: "ts = t1 # t2 # ts'" and sub: "\<forall>t \<in> set ts. shape n t \<and> full_enough t"
    by (cases ks; cases ts rule: remdups_adj.cases) auto
  then have "16 ^ Suc n \<le> length (entries t1)" "16 ^ Suc n \<le> length (entries t2)"
    using full_enough_entries by auto
  then show ?thesis using Nd ts by simp
qed (use assms in auto)

end
