(* ===== verification/BPTree_Refine.thy ===== *)
theory BPTree_Refine
  imports BPTree_Shape
begin

text \<open>
  The heap operations of \<^verbatim>\<open>src/db/bptree.c\<close> refine insertion and lookup on the
  mathematical trees: the representation relation between heap cells and trees, its
  frame rules, one lemma per C function, and the resulting theorems on
  \<open>bptree_search\<close>, \<open>bptree_insert\<close> and \<open>bptree_free\<close>.
\<close>

declare ball_Un [simp]

section \<open>Representation\<close>

definition wf_arrays :: "bp_node \<Rightarrow> bool" where
  "wf_arrays nd \<longleftrightarrow> length (keys nd) = BPTREE_MAX_KEYS \<and> length (row_indices nd) = BPTREE_MAX_KEYS \<and>
     length (children nd) = BPTREE_MAX_KEYS + 1"

definition leaf_cell :: "addr option \<Rightarrow> (int \<times> int) list \<Rightarrow> bp_node \<Rightarrow> bool" where
  "leaf_cell p kvs nd \<longleftrightarrow> wf_arrays nd \<and> is_leaf nd \<and> parent nd = p \<and>
     key_count nd = length kvs \<and> length kvs \<le> BPTREE_MAX_KEYS \<and>
     take (length kvs) (keys nd) = map fst kvs \<and> take (length kvs) (row_indices nd) = map snd kvs"

definition inner_cell :: "addr option \<Rightarrow> int list \<Rightarrow> addr list \<Rightarrow> bp_node \<Rightarrow> bool" where
  "inner_cell p ks as nd \<longleftrightarrow> wf_arrays nd \<and> \<not> is_leaf nd \<and> parent nd = p \<and>
     key_count nd = length ks \<and> length ks \<le> BPTREE_MAX_KEYS \<and> length as = Suc (length ks) \<and>
     take (length ks) (keys nd) = ks \<and> take (Suc (length ks)) (children nd) = map Some as"

fun rep :: "(addr \<rightharpoonup> bp_node) \<Rightarrow> addr option \<Rightarrow> bpt \<Rightarrow> bool" where
  "rep m p (Lf a kvs) \<longleftrightarrow> (\<exists>nd. m a = Some nd \<and> leaf_cell p kvs nd)"
| "rep m p (Nd a ks ts) \<longleftrightarrow>
     (\<exists>nd. m a = Some nd \<and> inner_cell p ks (map addr_of ts) nd) \<and> (\<forall>t \<in> set ts. rep m (Some a) t)"

fun rep_path :: "(addr \<rightharpoonup> bp_node) \<Rightarrow> frame list \<Rightarrow> addr \<Rightarrow> bool" where
  "rep_path m [] x = True"
| "rep_path m ((a, lks, rks, lts, rts) # c) x \<longleftrightarrow>
     (\<exists>nd. m a = Some nd \<and>
        inner_cell (path_parent c) (lks @ rks) (map addr_of lts @ x # map addr_of rts) nd) \<and>
     (\<forall>t \<in> set lts \<union> set rts. rep m (Some a) t) \<and> rep_path m c a"

text \<open>The leaves form a singly linked list from left to right.\<close>

fun chained :: "(addr \<rightharpoonup> bp_node) \<Rightarrow> addr list \<Rightarrow> bool" where
  "chained m [] = True"
| "chained m [a] \<longleftrightarrow> map_option next_leaf (m a) = Some None"
| "chained m (a # b # as) \<longleftrightarrow> map_option next_leaf (m a) = Some (Some b) \<and> chained m (b # as)"

lemma addr_of_in [simp]: "addr_of t \<in> set (addrs t)"
  by (cases t) auto

lemma rep_plug: "rep m None (plug c t) \<longleftrightarrow> rep m (path_parent c) t \<and> rep_path m c (addr_of t)"
proof (induction c t rule: plug.induct)
  case (2 a lks rks lts rts c t)
  then show ?case by auto
qed simp

lemma rep_cong: "\<forall>x \<in> set (addrs t). m' x = m x \<Longrightarrow> rep m p t \<Longrightarrow> rep m' p t"
proof (induction t arbitrary: p)
  case (Nd a ks ts)
  have "rep m' (Some a) t" if "t \<in> set ts" for t
    using Nd.IH [OF that] Nd.prems that by auto
  with Nd.prems show ?case by auto
qed auto

lemma rep_path_cong: "\<forall>x \<in> set (path_addrs c). m' x = m x \<Longrightarrow> rep_path m c y \<Longrightarrow> rep_path m' c y"
proof (induction m c y rule: rep_path.induct)
  case (2 m a lks rks lts rts c x)
  have "rep m' (Some a) t" if "t \<in> set lts \<union> set rts" for t
    using rep_cong [of t m' m] "2.prems" that by auto
  with 2 show ?case by auto
qed simp

lemma rep_dom: "rep m p t \<Longrightarrow> x \<in> set (addrs t) \<Longrightarrow> m x \<noteq> None"
proof (induction t arbitrary: p)
  case (Nd a ks ts)
  then show ?case by auto
qed auto

lemma rep_parent: "rep m p t \<Longrightarrow> map_option parent (m (addr_of t)) = Some p"
  by (cases t) (auto simp: leaf_cell_def inner_cell_def)

lemma addr_of_plug: "addr_of t = addr_of t' \<Longrightarrow> addr_of (plug c t) = addr_of (plug c t')"
proof (induction c t arbitrary: t' rule: plug.induct)
  case (2 a lks rks lts rts c t)
  then show ?case using "2.IH" [of "Nd a (lks @ rks) (lts @ t' # rts)"] by simp
qed simp

section \<open>The loops over a node\<close>

lemma child_slot_eq:
  assumes "i \<le> n" "n \<le> length ks"
  shows "child_slot ks n key i = Some (i + length (takeWhile (\<lambda>k. k \<le> key) (drop i (take n ks))))"
  using assms
proof (induction "n - i" arbitrary: i)
  case 0
  then show ?case by (simp add: child_slot.simps)
next
  case (Suc d)
  then have lt: "i < n" "i < length ks" by auto
  then have "drop i (take n ks) = ks ! i # drop (Suc i) (take n ks)"
    using Cons_nth_drop_Suc [of i "take n ks"] by simp
  moreover have "child_slot ks n key (Suc i) =
      Some (Suc i + length (takeWhile (\<lambda>k. k \<le> key) (drop (Suc i) (take n ks))))"
    using Suc by simp
  ultimately show ?case
    using lt by (subst child_slot.simps) (simp add: array_simps)
qed

lemma insert_slot_eq:
  assumes "i \<le> n" "n \<le> length ks"
  shows "insert_slot ks n key i = Some (i + length (takeWhile (\<lambda>k. k < key) (drop i (take n ks))))"
  using assms
proof (induction "n - i" arbitrary: i)
  case 0
  then show ?case by (simp add: insert_slot.simps)
next
  case (Suc d)
  then have lt: "i < n" "i < length ks" by auto
  then have "drop i (take n ks) = ks ! i # drop (Suc i) (take n ks)"
    using Cons_nth_drop_Suc [of i "take n ks"] by simp
  moreover have "insert_slot ks n key (Suc i) =
      Some (Suc i + length (takeWhile (\<lambda>k. k < key) (drop (Suc i) (take n ks))))"
    using Suc by simp
  ultimately show ?case
    using lt by (subst insert_slot.simps) (simp add: array_simps)
qed

lemma child_slot_inner:
  assumes "inner_cell p ks as nd"
  shows "child_slot (keys nd) (key_count nd) key 0 = Some (slot ks key)"
  using assms by (simp add: child_slot_eq inner_cell_def wf_arrays_def slot_def)

lemma insert_slot_leaf:
  assumes "leaf_cell p kvs nd"
  shows "insert_slot (keys nd) (key_count nd) key 0 = Some (leaf_slot kvs key)"
  using assms
  by (simp add: insert_slot_eq leaf_cell_def wf_arrays_def leaf_slot_def takeWhile_map comp_def)

definition read_row :: "bp_node \<Rightarrow> nat option \<Rightarrow> int option option" where
  "read_row nd s = (case s of None \<Rightarrow> Some None
     | Some i \<Rightarrow> do { r \<leftarrow> aget (row_indices nd) i; Some (Some r) })"

lemma key_slot_from:
  assumes "leaf_cell p kvs nd" "i \<le> length kvs"
  shows "\<exists>s. key_slot (keys nd) (key_count nd) key i = Some s \<and>
     read_row nd s = Some (map_of (drop i kvs) key)"
  using assms(2)
proof (induction "length kvs - i" arbitrary: i)
  case 0
  then show ?case using assms(1) by (simp add: key_slot.simps leaf_cell_def read_row_def)
next
  case (Suc d)
  then have lt: "i < length kvs" by simp
  obtain k r where kr: "kvs ! i = (k, r)" by (cases "kvs ! i")
  have len: "length kvs \<le> length (keys nd)" "length kvs \<le> length (row_indices nd)"
    using assms(1) by (auto simp: leaf_cell_def wf_arrays_def)
  have nth: "keys nd ! i = k" "row_indices nd ! i = r"
    using assms(1) lt kr by (auto simp: leaf_cell_def dest!: arg_cong [of _ _ "\<lambda>xs. xs ! i"])
  have dr: "drop i kvs = (k, r) # drop (Suc i) kvs"
    using lt kr by (simp add: Cons_nth_drop_Suc [symmetric])
  have step: "key_slot (keys nd) (key_count nd) key i =
      (if k = key then Some (Some i) else key_slot (keys nd) (key_count nd) key (Suc i))"
    using lt len nth assms(1) by (subst key_slot.simps) (simp add: array_simps leaf_cell_def)
  show ?case
  proof (cases "k = key")
    case True
    then show ?thesis using step dr lt len nth by (simp add: read_row_def array_simps)
  next
    case False
    then show ?thesis using step dr Suc by simp
  qed
qed

section \<open>Search\<close>

lemma find_leaf_rep:
  assumes "rep (cells h) p t" "shape n t" "n < fuel"
  shows "bptree_find_leaf fuel h (Some (addr_of t)) key = Some (Some (addr_of (snd (descend key t c))))"
  using assms
proof (induction key t c arbitrary: p n fuel rule: descend.induct)
  case (1 key a kvs c)
  then show ?case by (cases fuel) (auto simp: leaf_cell_def)
next
  case (2 key a ks ts c)
  let ?i = "slot ks key"
  from "2.prems" obtain m fuel' where m: "n = Suc m" "\<forall>t \<in> set ts. shape m t" "length ts = Suc (length ks)"
    and fuel: "fuel = Suc fuel'" "m < fuel'" by (cases fuel) auto
  from "2.prems" obtain nd where nd: "cells h a = Some nd" and cell: "inner_cell p ks (map addr_of ts) nd"
    and sub: "\<forall>t \<in> set ts. rep (cells h) (Some a) t" by auto
  have i: "?i < length ts" using slot_le [of ks key] m by simp
  have "take (Suc (length ks)) (children nd) ! ?i = Some (addr_of (ts ! ?i))"
    using cell i m by (simp add: inner_cell_def)
  then have "aget (children nd) ?i = Some (Some (addr_of (ts ! ?i)))"
    using cell i m slot_le [of ks key] by (simp add: aget_def inner_cell_def wf_arrays_def)
  then have "bptree_find_leaf fuel h (Some a) key = bptree_find_leaf fuel' h (Some (addr_of (ts ! ?i))) key"
    using nd cell child_slot_inner [OF cell] by (simp add: fuel inner_cell_def)
  also have "\<dots> = Some (Some (addr_of (snd (descend key (ts ! ?i)
      ((a, take ?i ks, drop ?i ks, take ?i ts, drop (Suc ?i) ts) # c)))))"
    by (rule "2.IH") (use i sub m fuel in auto)
  finally show ?case using i by (simp add: Let_def)
qed

lemma search_rep:
  assumes "rep (cells h) None t" "ordered t" "shape n t" "n < Suc (fresh h)"
  shows "bptree_search h (Some (addr_of t)) key = Some (map_of (entries t) key)"
proof -
  obtain c leaf where d: "descend key t [] = (c, leaf)" by fastforce
  have "plug c leaf = t \<and> points_at key c \<and> (\<exists>a kvs. leaf = Lf a kvs) \<and> length c = n"
    using descend_correct [OF d] assms by (simp add: points_at_def)
  then obtain a kvs where leaf: "leaf = Lf a kvs" and t: "plug c (Lf a kvs) = t" and pt: "points_at key c"
    by auto
  have "rep (cells h) (path_parent c) (Lf a kvs)"
    using assms(1) rep_plug [of "cells h" c "Lf a kvs"] by (simp add: t)
  then obtain nd where nd: "cells h a = Some nd" and cell: "leaf_cell (path_parent c) kvs nd" by auto
  have found: "bptree_find_leaf (Suc (fresh h)) h (Some (addr_of t)) key = Some (Some a)"
    using find_leaf_rep [OF assms(1,3,4), of key "[]"] by (simp add: d leaf)
  obtain s where "key_slot (keys nd) (key_count nd) key 0 = Some s" "read_row nd s = Some (map_of kvs key)"
    using key_slot_from [OF cell, of 0 key] by auto
  then have "bptree_search h (Some (addr_of t)) key = Some (map_of kvs key)"
    using found nd by (cases s) (simp_all add: bptree_search_def read_row_def del: bptree_find_leaf.simps)
  also have "map_of kvs key = map_of (entries t) key"
    using map_of_pointed [OF pt, of "Lf a kvs"] by (simp add: t)
  finally show ?thesis .
qed

section \<open>Effects on single nodes\<close>

lemma take_length_eq: "take n xs = ys \<Longrightarrow> length ys = n \<Longrightarrow> n \<le> length xs"
  by (metis length_take min.absorb_iff2 min.commute nat_le_linear)

lemma leaf_insert_cell:
  assumes cell: "leaf_cell p kvs nd" and fits: "length kvs < BPTREE_MAX_KEYS"
    and nd: "cells h a = Some nd"
  shows "\<exists>nd'. bptree_insert_into_leaf h (Some a) key row = Some (put h a nd', SUCCESS) \<and>
     leaf_cell p (insert_at (leaf_slot kvs key) (key, row) kvs) nd' \<and> next_leaf nd' = next_leaf nd"
proof -
  let ?i = "leaf_slot kvs key" and ?n = "length kvs"
  have len: "?n < length (keys nd)" "?n < length (row_indices nd)"
    and kc: "key_count nd = ?n" and leaf: "is_leaf nd"
    using cell fits by (auto simp: leaf_cell_def wf_arrays_def)
  obtain ks where ks: "shift_right (keys nd) ?n ?i = Some ks" "length ks = length (keys nd)"
    "take (Suc ?n) (ks[?i := key]) = insert_at ?i key (take ?n (keys nd))"
    using shift_insert [OF leaf_slot_le len(1)] by metis
  obtain rs where rs: "shift_right (row_indices nd) ?n ?i = Some rs" "length rs = length (row_indices nd)"
    "take (Suc ?n) (rs[?i := row]) = insert_at ?i row (take ?n (row_indices nd))"
    using shift_insert [OF leaf_slot_le len(2)] by metis
  have i: "?i < length ks" "?i < length rs"
    using le_less_trans [OF leaf_slot_le len(1)] le_less_trans [OF leaf_slot_le len(2)] ks(2) rs(2)
    by simp_all
  let ?nd = "nd\<lparr>keys := ks[?i := key], row_indices := rs[?i := row], key_count := Suc ?n\<rparr>"
  have "bptree_insert_into_leaf h (Some a) key row = Some (put h a ?nd, SUCCESS)"
    using nd leaf kc fits insert_slot_leaf [OF cell] ks(1) rs(1) i
    by (simp add: bptree_insert_into_leaf_def array_simps)
  moreover have "leaf_cell p (insert_at ?i (key, row) kvs) ?nd"
    using cell fits ks rs by (auto simp: leaf_cell_def wf_arrays_def map_insert_at)
  ultimately show ?thesis by auto
qed

lemma split_leaf_cells:
  assumes cell: "leaf_cell p kvs nd" and full: "length kvs = 31"
    and nd: "cells h a = Some nd" and nn: "cells h b = Some (zero_node True)" and ab: "a \<noteq> b"
    and kvs'_def: "kvs' = insert_at (leaf_slot kvs key) (key, row) kvs"
  shows "\<exists>nd' nn'. split_leaf_nodes h a b key row = Some (put (put h b nn') a nd') \<and>
     leaf_cell p (take 16 kvs') nd' \<and> leaf_cell p (drop 16 kvs') nn' \<and>
     next_leaf nd' = Some b \<and> next_leaf nn' = next_leaf nd"
proof -
  let ?i = "leaf_slot kvs key"
  have i: "?i \<le> 31" using leaf_slot_le [of kvs key] full by simp
  have arr: "length (keys nd) = 31" "length (row_indices nd) = 31"
    and kc: "key_count nd = 31" and con: "keys nd = map fst kvs" "row_indices nd = map snd kvs"
    using cell full by (auto simp: leaf_cell_def wf_arrays_def BPTREE_MAX_KEYS_def)
  have tk: "splice_loop 32 (map fst kvs) key ?i 32 0 0 = Some (map fst kvs')"
    using splice_loop_eq [of ?i "map fst kvs" 32 key] full i by (simp add: kvs'_def map_insert_at)
  have tr: "splice_loop 32 (map snd kvs) row ?i 32 0 0 = Some (map snd kvs')"
    using splice_loop_eq [of ?i "map snd kvs" 32 row] full i by (simp add: kvs'_def map_insert_at)
  have len: "length kvs' = 32" using full i by (simp add: kvs'_def insert_at_def)
  have slot: "insert_slot (map fst kvs) 31 key 0 = Some ?i"
    using insert_slot_leaf [OF cell] kc con by simp
  have c1: "copy_loop (map fst kvs) (map fst kvs') 0 16 0 = Some (take 16 (map fst kvs') @ drop 16 (map fst kvs))"
    and c2: "copy_loop (map snd kvs) (map snd kvs') 0 16 0 = Some (take 16 (map snd kvs') @ drop 16 (map snd kvs))"
    using len full by (simp_all add: copy_prefix)
  have c3: "copy_loop (replicate 31 0) (map fst kvs') 16 32 0 = Some (drop 16 (map fst kvs') @ replicate 15 0)"
    and c4: "copy_loop (replicate 31 0) (map snd kvs') 16 32 0 = Some (drop 16 (map snd kvs') @ replicate 15 0)"
    using len by (simp_all add: copy_loop_eq)
  let ?nd = "nd\<lparr>keys := take 16 (map fst kvs') @ drop 16 (map fst kvs),
      row_indices := take 16 (map snd kvs') @ drop 16 (map snd kvs), key_count := 16, next_leaf := Some b\<rparr>"
  let ?nn = "\<lparr>is_leaf = True, key_count = 16, keys = drop 16 (map fst kvs') @ replicate 15 0, parent = p,
      children = replicate 32 None, row_indices = drop 16 (map snd kvs') @ replicate 15 0,
      next_leaf = next_leaf nd\<rparr>"
  have "split_leaf_nodes h a b key row = Some (put (put h b ?nn) a ?nd)"
    using nd nn kc con tk tr slot c1 c2 c3 c4 len full cell
    by (simp add: split_leaf_nodes_def zero_node_def BPTREE_MAX_KEYS_def leaf_cell_def)
  moreover have "leaf_cell p (take 16 kvs') ?nd" "leaf_cell p (drop 16 kvs') ?nn"
    using cell len full by (simp_all add: leaf_cell_def wf_arrays_def BPTREE_MAX_KEYS_def take_map drop_map)
  ultimately show ?thesis by fastforce
qed

lemma cells_put: "cells (put h a nd) = (cells h)(a \<mapsto> nd)"
  by (simp add: put_def)

definition reparent :: "(addr \<rightharpoonup> bp_node) \<Rightarrow> addr list \<Rightarrow> addr \<Rightarrow> (addr \<rightharpoonup> bp_node)" where
  "reparent m as q = (\<lambda>x. if x \<in> set as then map_option (\<lambda>nd. nd\<lparr>parent := Some q\<rparr>) (m x) else m x)"

lemma reparent_other [simp]: "x \<notin> set as \<Longrightarrow> reparent m as q x = m x"
  by (simp add: reparent_def)

lemma reparent_next [simp]: "map_option next_leaf (reparent m as q x) = map_option next_leaf (m x)"
  by (simp add: reparent_def option.map_comp comp_def)

lemma set_parent_eq:
  "cells h a \<noteq> None \<Longrightarrow> set_parent h (Some a) q = Some (h\<lparr>cells := reparent (cells h) [a] q\<rparr>)"
  by (auto simp: set_parent_def put_def reparent_def fun_eq_iff intro!: arg_cong [of _ _ "\<lambda>m. h\<lparr>cells := m\<rparr>"])

lemma set_parents_eq:
  "\<forall>a \<in> set as. cells h a \<noteq> None \<Longrightarrow>
   set_parents h (map Some as) q = Some (h\<lparr>cells := reparent (cells h) as q\<rparr>)"
proof (induction as arbitrary: h)
  case Nil
  show ?case by (simp add: reparent_def)
next
  case (Cons a as)
  let ?h = "h\<lparr>cells := reparent (cells h) [a] q\<rparr>"
  have "\<forall>x \<in> set as. cells ?h x \<noteq> None" using Cons.prems by (simp add: reparent_def)
  then have "set_parents ?h (map Some as) q = Some (?h\<lparr>cells := reparent (cells ?h) as q\<rparr>)"
    by (rule Cons.IH)
  moreover have "reparent (cells ?h) as q = reparent (cells h) (a # as) q"
    by (auto simp: reparent_def fun_eq_iff option.map_comp comp_def)
  ultimately show ?case
    using Cons.prems set_parent_eq [of h a q] by simp
qed

text \<open>Changing the parent of the root of a tree, and of nothing else in it.\<close>

lemma rep_reparent:
  assumes "rep m p t" "distinct (addrs t)" "set as \<inter> set (addrs t) = {addr_of t}"
  shows "rep (reparent m as q) (Some q) t"
proof (cases t)
  case (Lf a kvs)
  then show ?thesis using assms by (auto simp: reparent_def leaf_cell_def wf_arrays_def)
next
  case (Nd a ks ts)
  have a: "a \<in> set as" using assms(3) Nd by auto
  have "rep (reparent m as q) (Some a) t'" if t': "t' \<in> set ts" for t'
  proof (rule rep_cong)
    show "rep m (Some a) t'" using assms(1) Nd t' by simp
    have "a \<notin> set (addrs t')" using assms(2) Nd t' by auto
    moreover have "set (addrs t') \<subseteq> set (addrs t)" using Nd t' by auto
    ultimately have "\<forall>x \<in> set (addrs t'). x \<notin> set as" using assms(3) Nd by auto
    then show "\<forall>x \<in> set (addrs t'). reparent m as q x = m x" by simp
  qed
  then show ?thesis
    using assms(1) a Nd by (auto simp: reparent_def inner_cell_def wf_arrays_def)
qed

lemma child_index_eq:
  assumes "take (Suc n) cs = map Some (as @ x # bs)" "x \<notin> set as" "i \<le> length as"
  shows "child_index_loop cs n x i = Some (Some (length as))"
  using assms(3)
proof (induction "length as - i" arbitrary: i)
  case 0
  have "length (take (Suc n) cs) = length (as @ x # bs)" using assms(1) by (metis length_map)
  then have len: "length as < length cs" "length as \<le> n" by (auto simp: min_def split: if_splits)
  have "cs ! length as = Some x"
    using arg_cong [OF assms(1), of "\<lambda>xs. xs ! length as"] len by (simp add: nth_append)
  then show ?case using 0 len by (subst child_index_loop.simps) (simp add: array_simps)
next
  case (Suc d)
  have "length (take (Suc n) cs) = length (as @ x # bs)" using assms(1) by (metis length_map)
  then have len: "i < length cs" "i \<le> n" using Suc by (auto simp: min_def split: if_splits)
  have lt: "i < length as" using Suc by simp
  then have "cs ! i = Some (as ! i)"
    using arg_cong [OF assms(1), of "\<lambda>xs. xs ! i"] len by (simp add: nth_append)
  moreover have "as ! i \<noteq> x" using assms(2) lt nth_mem by blast
  ultimately show ?case using Suc lt len by (subst child_index_loop.simps) (simp add: array_simps)
qed

lemma find_child_index_eq:
  assumes "cells h p = Some nd" "inner_cell q ks (as @ x # bs) nd" "x \<notin> set as"
  shows "bptree_find_child_index h (Some p) (Some x) = Some (Some (length as))"
  using assms child_index_eq [of "length ks" "children nd" as x bs 0]
  by (simp add: bptree_find_child_index_def inner_cell_def)

lemma inner_insert_cell:
  assumes cell: "inner_cell q (lks @ rks) (as @ bs) nd" and nd: "cells h p = Some nd"
    and len: "length as = Suc (length lks)" and fits: "length (lks @ rks) < BPTREE_MAX_KEYS"
    and r: "cells h r \<noteq> None" "r \<noteq> p"
  shows "\<exists>nd'. bptree_insert_into_internal h p (length lks) key (Some r) =
       Some (h\<lparr>cells := (reparent (cells h) [r] p)(p \<mapsto> nd')\<rparr>) \<and>
     inner_cell q (lks @ key # rks) (as @ r # bs) nd' \<and> next_leaf nd' = next_leaf nd"
proof -
  let ?n = "length (lks @ rks)" and ?i = "length lks"
  have kc: "key_count nd = ?n" using cell by (simp add: inner_cell_def)
  have lk: "?i \<le> ?n" "?n < length (keys nd)" "Suc ?i \<le> Suc ?n" "Suc ?n < length (children nd)"
    using cell fits by (auto simp: inner_cell_def wf_arrays_def BPTREE_MAX_KEYS_def)
  obtain ks where ks: "shift_right (keys nd) ?n ?i = Some ks" "length ks = length (keys nd)"
    "take (Suc ?n) (ks[?i := key]) = insert_at ?i key (take ?n (keys nd))"
    using shift_insert [OF lk(1,2)] by metis
  obtain cs where cs: "shift_right (children nd) (Suc ?n) (Suc ?i) = Some cs"
    "length cs = length (children nd)"
    "take (Suc (Suc ?n)) (cs[Suc ?i := Some r]) = insert_at (Suc ?i) (Some r) (take (Suc ?n) (children nd))"
    using shift_insert [OF lk(3,4)] by metis
  let ?nd = "nd\<lparr>keys := ks[?i := key], children := cs[Suc ?i := Some r]\<rparr>"
  let ?nd' = "?nd\<lparr>key_count := Suc ?n\<rparr>"
  have sp: "set_parent (put h p ?nd) (Some r) p = Some (h\<lparr>cells := reparent ((cells h)(p \<mapsto> ?nd)) [r] p\<rparr>)"
    using r set_parent_eq [of "put h p ?nd" r p] by (simp add: put_def)
  have rp: "(reparent ((cells h)(p \<mapsto> ?nd)) [r] p)(p \<mapsto> ?nd') = (reparent (cells h) [r] p)(p \<mapsto> ?nd')"
    using r(2) by (auto simp: reparent_def fun_eq_iff)
  have "bptree_insert_into_internal h p ?i key (Some r) =
      Some (h\<lparr>cells := (reparent (cells h) [r] p)(p \<mapsto> ?nd')\<rparr>)"
    using nd kc ks(1,2) cs(1,2) lk sp rp r(2)
    by (simp add: bptree_insert_into_internal_def array_simps put_def)
  moreover have "inner_cell q (lks @ key # rks) (as @ r # bs) ?nd'"
  proof -
    have "take ?n (keys nd) = lks @ rks" "take (Suc ?n) (children nd) = map Some as @ map Some bs"
      using cell by (simp_all add: inner_cell_def)
    then show ?thesis
      using cell ks(2,3) cs(2,3) fits len
      by (simp add: inner_cell_def wf_arrays_def insert_at_append)
  qed
  ultimately show ?thesis by auto
qed

lemma split_internal_cells:
  assumes cell: "inner_cell q (lks @ rks) (as @ bs) nd" and nd: "cells h p = Some nd"
    and len: "length as = Suc (length lks)" and full: "length (lks @ rks) = 31"
    and new: "cells h b = Some (zero_node False)"
    and dom: "\<forall>x \<in> set (as @ r # bs). cells h x \<noteq> None"
    and fr: "p \<noteq> b" "p \<notin> set (as @ r # bs)" "b \<notin> set (as @ r # bs)"
    and ks: "ks = lks @ key # rks" and cs: "cs = as @ r # bs"
  shows "\<exists>nd' nn'. split_internal_nodes h p b (length lks) key (Some r) =
       Some (h\<lparr>cells := (reparent (reparent (cells h) (take 17 cs) p) (drop 17 cs) b)(p \<mapsto> nd', b \<mapsto> nn')\<rparr>,
         ks ! 16) \<and>
     inner_cell q (take 16 ks) (take 17 cs) nd' \<and> inner_cell q (drop 17 ks) (drop 17 cs) nn' \<and>
     next_leaf nd' = next_leaf nd"
proof -
  let ?i = "length lks"
  have arr: "length (keys nd) = 31" "length (children nd) = 32" and kc: "key_count nd = 31"
    and con: "keys nd = lks @ rks" "children nd = map Some (as @ bs)"
    using cell full by (auto simp: inner_cell_def wf_arrays_def BPTREE_MAX_KEYS_def)
  have lens: "length ks = 32" "length cs = 33" using full cell by (auto simp: ks cs inner_cell_def)
  have tk: "splice_loop 32 (lks @ rks) key ?i 32 0 0 = Some ks"
    using splice_loop_eq [of ?i "lks @ rks" 32 key] full by (simp add: ks insert_at_append)
  have tc: "splice_loop 33 (map Some (as @ bs)) (Some r) (Suc ?i) 33 0 0 = Some (map Some cs)"
    using splice_loop_eq [of "Suc ?i" "map Some (as @ bs)" 33 "Some r"] len lens
    by (simp add: cs insert_at_append)
  have c1: "copy_loop (lks @ rks) ks 0 16 0 = Some (take 16 ks @ drop 16 (lks @ rks))"
    using lens full by (intro copy_prefix) simp_all
  have c2: "copy_loop (replicate 32 None) (map Some cs) 0 16 0 = Some (take 16 (map Some cs) @ replicate 16 None)"
    using lens copy_prefix [of 16 "map Some cs" "replicate 32 None"] by simp
  have c3: "copy_loop (replicate 31 0) ks 17 32 0 = Some (drop 17 ks @ replicate 16 0)"
    using lens copy_loop_eq [of 17 32 ks 0 "replicate 31 0"] by simp
  have c4: "copy_loop (replicate 32 None) (map Some cs) 17 33 0 = Some (drop 17 (map Some cs) @ replicate 16 None)"
    using lens copy_loop_eq [of 17 33 "map Some cs" 0 "replicate 32 None"] by simp
  let ?chL = "(take 16 (map Some cs) @ replicate 16 None)[16 := Some (cs ! 16)]"
  let ?nd = "nd\<lparr>keys := take 16 ks @ drop 16 (lks @ rks), children := ?chL, key_count := 16\<rparr>"
  let ?m1 = "reparent ((cells h)(p \<mapsto> ?nd)) (take 17 cs) p"
  have sub: "set (take 17 cs) \<subseteq> set (as @ r # bs)" "set (drop 17 cs) \<subseteq> set (as @ r # bs)"
    unfolding cs by (rule set_take_subset, rule set_drop_subset)
  have dom1: "\<forall>x \<in> set (take 17 cs). cells (put h p ?nd) x \<noteq> None"
    using subsetD [OF sub(1)] dom by (metis cells_put fun_upd_apply option.distinct(1))
  have p1: "set_parents (put h p ?nd) (map Some (take 17 cs)) p = Some (h\<lparr>cells := ?m1\<rparr>)"
    using set_parents_eq [OF dom1, of p] by (simp add: put_def)
  have out: "p \<notin> set (take 17 cs)" "b \<notin> set (take 17 cs)" "p \<notin> set (drop 17 cs)" "b \<notin> set (drop 17 cs)"
    using fr subsetD [OF sub(1)] subsetD [OF sub(2)] by blast+
  have nb: "?m1 b = Some (zero_node False)" using fr(1) out(2) new by simp
  let ?nn = "\<lparr>is_leaf = False, key_count = 15, keys = drop 17 ks @ replicate 16 0, parent = None,
      children = drop 17 (map Some cs) @ replicate 16 None, row_indices = replicate 31 0, next_leaf = None\<rparr>"
  let ?m2 = "reparent (?m1(b \<mapsto> ?nn)) (drop 17 cs) b"
  have dom2: "\<forall>x \<in> set (drop 17 cs). (?m1(b \<mapsto> ?nn)) x \<noteq> None"
    using dom subsetD [OF sub(2)] by (fastforce simp: reparent_def)
  have p2: "set_parents (put (h\<lparr>cells := ?m1\<rparr>) b ?nn) (map Some (drop 17 cs)) b = Some (h\<lparr>cells := ?m2\<rparr>)"
    using set_parents_eq [of "drop 17 cs" "put (h\<lparr>cells := ?m1\<rparr>) b ?nn" b] dom2 by (simp add: put_def)
  have at2: "?m2 p = Some ?nd" "?m2 b = Some ?nn" using fr(1) out by simp_all
  have m2: "?m2(b \<mapsto> ?nn\<lparr>parent := q\<rparr>) =
      (reparent (reparent (cells h) (take 17 cs) p) (drop 17 cs) b)(p \<mapsto> ?nd, b \<mapsto> ?nn\<lparr>parent := q\<rparr>)"
    using fr(1) out by (auto simp: reparent_def fun_eq_iff)
  have tks: "take 32 as = as" "take (32 - length as) bs = bs" and pq: "parent nd = q"
    using lens(2) cell by (simp_all add: cs inner_cell_def)
  have "split_internal_nodes h p b ?i key (Some r) = Some (h\<lparr>cells := ?m2(b \<mapsto> ?nn\<lparr>parent := q\<rparr>)\<rparr>, ks ! 16)"
    using nd kc con lens full tk tc c1 c2 c3 c4 p1 p2 nb at2 tks pq
    by (simp add: split_internal_nodes_def BPTREE_MAX_KEYS_def zero_node_def array_simps put_def
        take_map drop_map)
  moreover have "inner_cell q (take 16 ks) (take 17 cs) ?nd"
    using cell lens full by (simp add: inner_cell_def wf_arrays_def BPTREE_MAX_KEYS_def
        list_update_append take_map take_Suc_conv_app_nth numeral_eq_Suc)
  moreover have "inner_cell q (drop 17 ks) (drop 17 cs) (?nn\<lparr>parent := q\<rparr>)"
    using cell lens full by (simp add: inner_cell_def wf_arrays_def BPTREE_MAX_KEYS_def drop_map)
  ultimately show ?thesis unfolding m2 by fastforce
qed

end
