(* ===== verification/BPTree_Insert.thy ===== *)
theory BPTree_Insert
  imports BPTree_Refine
begin

text \<open>
  Correctness of \<^verbatim>\<open>bptree_insert\<close>: the propagation of splits towards the root
  (\<^verbatim>\<open>bptree_insert_into_parent\<close> and \<^verbatim>\<open>bptree_split_internal\<close>) refines
  \<open>grow\<close>, and the whole insertion keeps the heap invariant \<open>bp_inv\<close>.
\<close>

section \<open>Splits propagate to the root\<close>

lemma distinct_concat_disjoint:
  "distinct (concat (map f ts)) \<Longrightarrow> t \<in> set ts \<Longrightarrow> t' \<in> set ts \<Longrightarrow> t \<noteq> t' \<Longrightarrow>
   set (f t) \<inter> set (f t') = {}"
  by (induction ts) fastforce+

lemma reparent_children:
  assumes "distinct (concat (map addrs ts))" "t \<in> set ts" "rep m p t"
    and "set as \<inter> set (concat (map addrs ts)) = set (map addr_of ts)"
  shows "rep (reparent m as q) (Some q) t"
proof (rule rep_reparent [OF assms(3)])
  show "distinct (addrs t)" using assms(1,2) by (auto simp: distinct_concat_iff)
  have "x = addr_of t" if "x \<in> set as" "x \<in> set (addrs t)" for x
  proof -
    have "x \<in> set (map addr_of ts)" using that assms(2,4) by auto
    then obtain t' where t': "t' \<in> set ts" "x = addr_of t'" by auto
    then have "x \<in> set (addrs t) \<inter> set (addrs t')" using that by simp
    then show ?thesis
      using distinct_concat_disjoint [OF assms(1,2) t'(1)] t'(2) by (cases "t = t'") auto
  qed
  moreover have "addr_of t \<in> set as"
  proof -
    have "addr_of t \<in> set (map addr_of ts)" using assms(2) by simp
    then show ?thesis using assms(4) by blast
  qed
  ultimately show "set as \<inter> set (addrs t) = {addr_of t}" using addr_of_in [of t] by blast
qed

lemma disjoint_subset: "A \<subseteq> B \<Longrightarrow> C \<subseteq> D \<Longrightarrow> B \<inter> D = {} \<Longrightarrow> A \<inter> C = {}"
  by blast

lemma roots_apart:
  assumes "distinct (concat (map addrs us) @ concat (map addrs vs))"
  shows "t \<in> set us \<Longrightarrow> set (addrs t) \<inter> set (map addr_of vs) = {}"
    and "t \<in> set vs \<Longrightarrow> set (addrs t) \<inter> set (map addr_of us) = {}"
proof -
  have roots: "set (map addr_of ws) \<subseteq> set (concat (map addrs ws))" for ws by auto
  have whole: "t \<in> set ws \<Longrightarrow> set (addrs t) \<subseteq> set (concat (map addrs ws))" for ws by auto
  have dj: "set (concat (map addrs us)) \<inter> set (concat (map addrs vs)) = {}"
    using assms by (simp only: distinct_append)
  show "set (addrs t) \<inter> set (map addr_of vs) = {}" if "t \<in> set us"
    by (rule disjoint_subset [OF whole [OF that] roots dj])
  show "set (addrs t) \<inter> set (map addr_of us) = {}" if "t \<in> set vs"
    by (rule disjoint_subset [OF whole [OF that] roots]) (use dj in \<open>simp only: Int_commute\<close>)
qed

definition node_sets_ok :: "bp_heap \<Rightarrow> addr list \<Rightarrow> bool" where
  "node_sets_ok h as \<longleftrightarrow> distinct as \<and> (\<forall>x \<in> set as. x < fresh h)"

text \<open>What an operation that only touches a tree and newly allocated cells leaves alone.\<close>

definition only_changes :: "addr list \<Rightarrow> bp_heap \<Rightarrow> bp_heap \<Rightarrow> bool" where
  "only_changes as h h' \<longleftrightarrow> fresh h \<le> fresh h' \<and> calloc_ok h' = calloc_ok h \<and>
     (\<forall>x. x \<notin> set as \<and> (x < fresh h \<or> fresh h' \<le> x) \<longrightarrow> cells h' x = cells h x)"

definition keeps_next :: "bp_heap \<Rightarrow> bp_heap \<Rightarrow> bool" where
  "keeps_next h h' \<longleftrightarrow> (\<forall>x < fresh h. map_option next_leaf (cells h' x) = map_option next_leaf (cells h x))"

definition parent_done ::
  "bp_heap \<Rightarrow> frame list \<Rightarrow> bpt \<Rightarrow> int \<Rightarrow> bpt \<Rightarrow> (bp_heap \<times> addr option \<times> status) option \<Rightarrow> bool" where
  "parent_done h c L k R res \<longleftrightarrow> (\<exists>h'.
     res = Some (h', Some (addr_of (grow (fresh h) c L k R)), SUCCESS) \<and>
     rep (cells h') None (grow (fresh h) c L k R) \<and> fresh h' = fresh h + grow_allocs c \<and>
     only_changes (addrs L @ addrs R @ path_addrs c) h h' \<and> keeps_next h h')"

lemma new_root_done:
  assumes "rep (cells h) None L" "rep (cells h) None R"
    and ok: "node_sets_ok h (addrs L @ addrs R)" and mem: "calloc_ok h (fresh h)" and fuel: "0 < fuel"
  shows "parent_done h [] L k R
     (bptree_insert_into_parent fuel h root (Some (addr_of L)) k (Some (addr_of R)))"
proof -
  let ?f = "fresh h" and ?l = "addr_of L" and ?r = "addr_of R"
  obtain ln rn where ln: "cells h ?l = Some ln" "parent ln = None" and rn: "cells h ?r = Some rn"
    using rep_parent [OF assms(1)] rep_parent [OF assms(2)] by auto
  have lt: "?l < ?f" "?r < ?f" using ok by (auto simp: node_sets_ok_def)
  have ne: "?l \<noteq> ?r" using ok addr_of_in [of L] addr_of_in [of R] unfolding node_sets_ok_def
    by (metis disjoint_iff distinct_append)
  let ?nr = "(zero_node False)\<lparr>keys := (replicate 31 0)[0 := k],
      children := (replicate 32 None)[0 := Some ?l, 1 := Some ?r], key_count := 1\<rparr>"
  let ?m = "reparent ((cells h)(?f \<mapsto> ?nr)) [?l, ?r] ?f"
  let ?h' = "h\<lparr>cells := ?m, fresh := Suc ?f\<rparr>"
  have m: "reparent (reparent ((cells h)(?f \<mapsto> ?nr)) [?l] ?f) [?r] ?f = ?m"
    by (auto simp: reparent_def fun_eq_iff option.map_comp comp_def)
  have dom: "((cells h)(?f \<mapsto> ?nr)) ?l \<noteq> None" "reparent ((cells h)(?f \<mapsto> ?nr)) [?l] ?f ?r \<noteq> None"
    using ln rn by (simp_all add: reparent_def)
  have res: "bptree_insert_into_parent fuel h root (Some ?l) k (Some ?r) = Some (?h', Some ?f, SUCCESS)"
    using ln mem fuel m dom
    by (cases fuel) (simp_all add: bptree_create_node_def zero_node_def BPTREE_MAX_KEYS_def array_simps
        set_parent_eq put_def)
  have "inner_cell None [k] [?l, ?r] ?nr"
    by (simp add: inner_cell_def wf_arrays_def BPTREE_MAX_KEYS_def zero_node_def numeral_eq_Suc)
  moreover have "?m ?f = Some ?nr" using lt by simp
  moreover have "rep ?m (Some ?f) t" if t: "t \<in> {L, R}" for t
  proof (rule reparent_children)
    show "distinct (concat (map addrs [L, R]))" using ok by (simp add: node_sets_ok_def)
    show "t \<in> set [L, R]" using t by simp
    show "rep ((cells h)(?f \<mapsto> ?nr)) None t"
      by (rule rep_cong [of _ _ "cells h"]) (use t assms(1,2) ok in \<open>auto simp: node_sets_ok_def\<close>)
  qed auto
  ultimately have "rep (cells ?h') None (Nd ?f [k] [L, R])" by auto
  moreover have "only_changes (addrs L @ addrs R) h ?h'"
    by (auto simp: only_changes_def reparent_def)
  moreover have "keeps_next h ?h'" by (auto simp: keeps_next_def)
  ultimately show ?thesis unfolding parent_done_def by (simp add: res)
qed

text \<open>The frame above the split node, read off the heap.\<close>

lemma parent_frame:
  assumes "rep (cells h) (path_parent ((a, lks, rks, lts, rts) # c)) L"
    and path: "rep_path (cells h) ((a, lks, rks, lts, rts) # c) (addr_of L)"
    and ok: "node_sets_ok h (addrs L @ addrs R @ path_addrs ((a, lks, rks, lts, rts) # c))"
    and len: "length lts = length lks"
  obtains ln nd where "cells h (addr_of L) = Some ln" "parent ln = Some a" "cells h a = Some nd"
    "inner_cell (path_parent c) (lks @ rks) ((map addr_of lts @ [addr_of L]) @ map addr_of rts) nd"
    "bptree_find_child_index h (Some a) (Some (addr_of L)) = Some (Some (length lks))"
proof -
  obtain ln where ln: "cells h (addr_of L) = Some ln" "parent ln = Some a"
    using rep_parent [OF assms(1)] by auto
  obtain nd where nd: "cells h a = Some nd"
    "inner_cell (path_parent c) (lks @ rks) (map addr_of lts @ addr_of L # map addr_of rts) nd"
    using path by auto
  have "distinct (concat (map addrs [L]) @ concat (map addrs lts))" using ok by (auto simp: node_sets_ok_def)
  then have "addr_of L \<notin> set (map addr_of lts)"
    using roots_apart(1) [of "[L]" lts L] addr_of_in [of L] by (simp only: disjoint_iff) simp
  then have "bptree_find_child_index h (Some a) (Some (addr_of L)) = Some (Some (length lks))"
    using find_child_index_eq [OF nd, of] len by simp
  then show thesis using that ln nd by simp
qed

lemma inner_room_done:
  assumes L: "rep (cells h) (path_parent ((a, lks, rks, lts, rts) # c)) L"
    and R: "rep (cells h) (path_parent ((a, lks, rks, lts, rts) # c)) R"
    and path: "rep_path (cells h) ((a, lks, rks, lts, rts) # c) (addr_of L)"
    and ok: "node_sets_ok h (addrs L @ addrs R @ path_addrs ((a, lks, rks, lts, rts) # c))"
    and len: "length lts = length lks" and fits: "length (lks @ rks) < BPTREE_MAX_KEYS" and fuel: "0 < fuel"
    and root: "root = Some (addr_of (plug ((a, lks, rks, lts, rts) # c) L))"
  shows "parent_done h ((a, lks, rks, lts, rts) # c) L k R
     (bptree_insert_into_parent fuel h root (Some (addr_of L)) k (Some (addr_of R)))"
proof -
  let ?N = "Nd a (lks @ k # rks) (lts @ L # R # rts)" and ?r = "addr_of R"
  obtain ln nd where at: "cells h (addr_of L) = Some ln" "parent ln = Some a" "cells h a = Some nd"
    and cell: "inner_cell (path_parent c) (lks @ rks) ((map addr_of lts @ [addr_of L]) @ map addr_of rts) nd"
    and ci: "bptree_find_child_index h (Some a) (Some (addr_of L)) = Some (Some (length lks))"
    using parent_frame [OF L path ok len] .
  have rdom: "cells h ?r \<noteq> None" using rep_parent [OF R] by auto
  have ra: "?r \<noteq> a" using ok addr_of_in [of R] by (auto simp: node_sets_ok_def)
  obtain nd' where ins: "bptree_insert_into_internal h a (length lks) k (Some ?r) =
       Some (h\<lparr>cells := (reparent (cells h) [?r] a)(a \<mapsto> nd')\<rparr>)"
    and cell': "inner_cell (path_parent c) (lks @ k # rks) ((map addr_of lts @ [addr_of L]) @ ?r # map addr_of rts) nd'"
    and nx: "next_leaf nd' = next_leaf nd"
    using inner_insert_cell [OF cell at(3) _ fits rdom ra] len by auto
  let ?m = "(reparent (cells h) [?r] a)(a \<mapsto> nd')" and ?h' = "h\<lparr>cells := (reparent (cells h) [?r] a)(a \<mapsto> nd')\<rparr>"
  have kc: "key_count nd < BPTREE_MAX_KEYS" using cell fits by (simp add: inner_cell_def)
  have res: "bptree_insert_into_parent fuel h root (Some (addr_of L)) k (Some ?r) = Some (?h', root, SUCCESS)"
    using at ci ins kc fuel by (cases fuel) simp_all
  have same: "\<forall>x \<in> A. ?m x = cells h x" if A: "A \<inter> set (addrs R) = {}" "a \<notin> A" for A
  proof
    fix x assume "x \<in> A"
    then have "x \<noteq> a" "x \<noteq> ?r" using A addr_of_in [of R] by (blast, metis disjoint_iff)
    then show "?m x = cells h x" by simp
  qed
  have Rm: "rep ?m (Some a) R"
  proof (rule rep_cong)
    show "rep (reparent (cells h) [?r] a) (Some a) R"
      by (rule rep_reparent) (use R ok in \<open>auto simp: node_sets_ok_def\<close>)
    show "\<forall>x \<in> set (addrs R). ?m x = reparent (cells h) [?r] a x"
      using ok by (auto simp: node_sets_ok_def)
  qed
  have "rep ?m (Some a) t" if t: "t \<in> insert L (set lts \<union> set rts)" for t
  proof (rule rep_cong)
    show "rep (cells h) (Some a) t" using t L path by auto
    have "set (addrs t) \<inter> set (addrs R) = {}" "a \<notin> set (addrs t)"
      using t ok by (auto simp: node_sets_ok_def)
    then show "\<forall>x \<in> set (addrs t). ?m x = cells h x" by (rule same)
  qed
  then have "\<forall>t \<in> set (lts @ L # R # rts). rep ?m (Some a) t" using Rm by simp
  then have "rep ?m (path_parent c) ?N" using cell' by simp
  moreover have "rep_path ?m c a"
  proof (rule rep_path_cong)
    show "rep_path (cells h) c a" using path by simp
    have "set (path_addrs c) \<inter> set (addrs R) = {}" "a \<notin> set (path_addrs c)"
      using ok by (auto simp: node_sets_ok_def)
    then show "\<forall>x \<in> set (path_addrs c). ?m x = cells h x" by (rule same)
  qed
  ultimately have "rep (cells ?h') None (plug c ?N)" using rep_plug [of ?m c ?N] by simp
  moreover have "root = Some (addr_of (plug c ?N))"
    using addr_of_plug [of ?N "Nd a (lks @ rks) (lts @ L # rts)" c] by (simp add: root)
  moreover have "only_changes (addrs L @ addrs R @ path_addrs ((a, lks, rks, lts, rts) # c)) h ?h'"
    by (auto simp: only_changes_def reparent_def)
  moreover have "keeps_next h ?h'" using at(3) nx by (auto simp: keeps_next_def)
  moreover have "length lks + length rks < BPTREE_MAX_KEYS" using fits by simp
  ultimately show ?thesis using fits unfolding parent_done_def res by (simp add: Let_def)
qed

text \<open>
  The two halves of a full inner node, with the cells that \<^verbatim>\<open>bptree_split_internal\<close>
  leaves for them.
\<close>

lemma halves_rep:
  assumes sub: "\<forall>t \<in> set ts. rep m (Some a) t" and dist: "distinct (concat (map addrs ts))"
    and out: "a \<notin> set (concat (map addrs ts))" "f \<notin> set (concat (map addrs ts))" "a \<noteq> f"
    and cs: "cs = map addr_of ts"
    and m': "m' = (reparent (reparent m (take j cs) a) (drop j cs) f)(a \<mapsto> nd, f \<mapsto> nn)"
    and nd: "inner_cell p ksl (take j cs) nd" and nn: "inner_cell p ksr (drop j cs) nn"
  shows "rep m' p (Nd a ksl (take j ts)) \<and> rep m' p (Nd f ksr (drop j ts))"
proof -
  have split: "distinct (concat (map addrs (take j ts)) @ concat (map addrs (drop j ts)))"
    using dist by (metis append_take_drop_id concat_append map_append)
  have meet: "set (map addr_of us) \<inter> set (concat (map addrs us)) = set (map addr_of us)" for us by auto
  have other: "m' x = reparent (reparent m (take j cs) a) (drop j cs) f x"
    if "x \<in> set (concat (map addrs ts))" for x using that out m' by auto
  have L: "rep m' (Some a) t" if t: "t \<in> set (take j ts)" for t
  proof (rule rep_cong)
    show "rep (reparent m (take j cs) a) (Some a) t"
      by (rule reparent_children [of "take j ts"])
        (use t split sub meet in_set_takeD [OF t] in \<open>auto simp: cs take_map\<close>)
    have "set (addrs t) \<inter> set (drop j cs) = {}"
      using roots_apart(1) [OF split t] by (simp add: cs drop_map)
    moreover have "set (addrs t) \<subseteq> set (concat (map addrs ts))" using in_set_takeD [OF t] by auto
    ultimately show "\<forall>x \<in> set (addrs t). m' x = reparent m (take j cs) a x"
      using other by (simp add: disjoint_iff subset_iff)
  qed
  have R: "rep m' (Some f) t" if t: "t \<in> set (drop j ts)" for t
  proof (rule rep_cong)
    have "set (addrs t) \<inter> set (take j cs) = {}"
      using roots_apart(2) [OF split t] by (simp add: cs take_map)
    then have "rep (reparent m (take j cs) a) (Some a) t"
      by - (rule rep_cong [of t _ m], use sub in_set_dropD [OF t] in \<open>auto simp: disjoint_iff\<close>)
    then show "rep (reparent (reparent m (take j cs) a) (drop j cs) f) (Some f) t"
      by - (rule reparent_children [of "drop j ts"], use t split meet in \<open>auto simp: cs drop_map\<close>)
    show "\<forall>x \<in> set (addrs t). m' x = reparent (reparent m (take j cs) a) (drop j cs) f x"
      using other in_set_dropD [OF t] by auto
  qed
  show ?thesis using L R nd nn out(3) by (simp add: m' cs take_map drop_map)
qed

lemma split_level_apart:
  assumes "node_sets_ok h (addrs L @ addrs R @ path_addrs ((a, lks, rks, lts, rts) # c))"
    and ts: "ts = lts @ L # R # rts"
  shows "distinct (concat (map addrs ts))" "a \<notin> set (concat (map addrs ts))"
    "fresh h \<notin> set (concat (map addrs ts))" "a < fresh h" "a \<notin> set (path_addrs c)"
    "a \<notin> set (map addr_of ts)" "fresh h \<notin> set (map addr_of ts)"
    "\<forall>x \<in> set (path_addrs c). x < fresh h \<and> x \<notin> set (map addr_of ts)"
proof -
  have roots: "set (map addr_of ts) \<subseteq> set (concat (map addrs ts))" by auto
  have meet: "set (path_addrs c) \<inter> set (concat (map addrs ts)) = {}"
    using assms by (auto simp: node_sets_ok_def)
  have lt: "\<forall>x \<in> set (path_addrs c). x < fresh h" "\<forall>x \<in> set (concat (map addrs ts)). x < fresh h"
    using assms by (auto simp: node_sets_ok_def)
  show a: "a \<notin> set (concat (map addrs ts))" and "distinct (concat (map addrs ts))" "a < fresh h"
    "a \<notin> set (path_addrs c)"
    using assms by (auto simp: node_sets_ok_def)
  show f: "fresh h \<notin> set (concat (map addrs ts))" using lt by blast
  show "a \<notin> set (map addr_of ts)" "fresh h \<notin> set (map addr_of ts)"
    using a f roots by (blast, blast)
  show "\<forall>x \<in> set (path_addrs c). x < fresh h \<and> x \<notin> set (map addr_of ts)"
    using disjoint_subset [OF subset_refl roots meet] lt(1) by blast
qed

text \<open>One level of splitting: the heap after it represents the two halves.\<close>

lemma split_level:
  assumes L: "rep (cells h) (Some a) L" and R: "rep (cells h) (Some a) R"
    and path: "rep_path (cells h) ((a, lks, rks, lts, rts) # c) (addr_of L)"
    and ok: "node_sets_ok h (addrs L @ addrs R @ path_addrs ((a, lks, rks, lts, rts) # c))"
    and len: "length lts = length lks" and full: "length (lks @ rks) = 31"
    and mem: "calloc_ok h (fresh h)"
    and ks: "ks = lks @ k # rks" and ts: "ts = lts @ L # R # rts"
    and L': "L' = Nd a (take 16 ks) (take 17 ts)" and R': "R' = Nd (fresh h) (drop 17 ks) (drop 17 ts)"
  shows "\<exists>h2. (\<forall>fuel root. bptree_insert_into_parent (Suc (Suc fuel)) h root (Some (addr_of L)) k (Some (addr_of R)) =
         bptree_insert_into_parent fuel h2 root (Some a) (ks ! 16) (Some (fresh h))) \<and>
     rep (cells h2) (path_parent c) L' \<and> rep (cells h2) (path_parent c) R' \<and> rep_path (cells h2) c a \<and>
     fresh h2 = Suc (fresh h) \<and> only_changes (addrs L @ addrs R @ path_addrs ((a, lks, rks, lts, rts) # c)) h h2 \<and>
     keeps_next h h2"
proof -
  let ?f = "fresh h" and ?cs = "map addr_of ts"
  have Lp: "rep (cells h) (path_parent ((a, lks, rks, lts, rts) # c)) L" using L by simp
  obtain ln nd where at: "cells h (addr_of L) = Some ln" "parent ln = Some a" "cells h a = Some nd"
    and cell: "inner_cell (path_parent c) (lks @ rks) ((map addr_of lts @ [addr_of L]) @ map addr_of rts) nd"
    and ci: "bptree_find_child_index h (Some a) (Some (addr_of L)) = Some (Some (length lks))"
    using parent_frame [OF Lp path ok len] .
  have sub: "\<forall>t \<in> set ts. rep (cells h) (Some a) t" using L R path by (auto simp: ts)
  note apart = split_level_apart [OF ok ts]
  define h1 where "h1 = h\<lparr>cells := (cells h)(?f \<mapsto> zero_node False), fresh := Suc ?f\<rparr>"
  have nd1: "cells h1 a = Some nd" "cells h1 ?f = Some (zero_node False)"
    using at(3) apart(4) by (simp_all add: h1_def)
  have cs: "?cs = (map addr_of lts @ [addr_of L]) @ addr_of R # map addr_of rts" by (simp add: ts)
  have dom: "\<forall>x \<in> set ((map addr_of lts @ [addr_of L]) @ addr_of R # map addr_of rts). cells h1 x \<noteq> None"
    unfolding cs [symmetric] using sub rep_parent by (fastforce simp: h1_def)
  have af: "a \<noteq> ?f" using apart(4) by simp
  obtain nd' nn' where sp: "split_internal_nodes h1 a ?f (length lks) k (Some (addr_of R)) =
       Some (h1\<lparr>cells := (reparent (reparent (cells h1) (take 17 ?cs) a) (drop 17 ?cs) ?f)(a \<mapsto> nd', ?f \<mapsto> nn')\<rparr>, ks ! 16)"
    and cells': "inner_cell (path_parent c) (take 16 ks) (take 17 ?cs) nd'"
      "inner_cell (path_parent c) (drop 17 ks) (drop 17 ?cs) nn'" and nx: "next_leaf nd' = next_leaf nd"
    using split_internal_cells [OF cell nd1(1) _ full nd1(2) dom af apart(6,7) [unfolded cs] ks cs] len by auto
  define m2 where "m2 = (reparent (reparent (cells h1) (take 17 ?cs) a) (drop 17 ?cs) ?f)(a \<mapsto> nd', ?f \<mapsto> nn')"
  define h2 where "h2 = h1\<lparr>cells := m2\<rparr>"
  have sp2: "split_internal_nodes h1 a ?f (length lks) k (Some (addr_of R)) = Some (h2, ks ! 16)"
    using sp by (simp add: h2_def m2_def)
  have nleaf: "\<not> is_leaf nd" "\<not> key_count nd < BPTREE_MAX_KEYS"
    using cell full by (simp_all add: inner_cell_def BPTREE_MAX_KEYS_def)
  have run: "bptree_insert_into_parent (Suc (Suc fuel)) h root (Some (addr_of L)) k (Some (addr_of R)) =
      bptree_insert_into_parent fuel h2 root (Some a) (ks ! 16) (Some ?f)" for fuel root
    using at ci nleaf mem sp2 by (simp add: bptree_create_node_def h1_def [symmetric])
  have sub1: "\<forall>t \<in> set ts. rep (cells h1) (Some a) t"
  proof
    fix t assume t: "t \<in> set ts"
    show "rep (cells h1) (Some a) t"
      by (rule rep_cong [of t _ "cells h"]) (use sub t apart(3) in \<open>auto simp: h1_def\<close>)
  qed
  have halves: "rep m2 (path_parent c) L' \<and> rep m2 (path_parent c) R'"
    unfolding L' R' by (rule halves_rep [OF sub1 apart(1,2,3) af refl m2_def cells'])
  have same: "m2 x = cells h x" if "x \<notin> set ?cs" "x \<noteq> a" "x \<noteq> ?f" for x
  proof -
    have "x \<notin> set (take 17 ?cs)" "x \<notin> set (drop 17 ?cs)"
      using that(1) in_set_takeD [of x 17 ?cs] in_set_dropD [of x 17 ?cs] by blast+
    then show ?thesis using that(2,3) by (simp add: m2_def h1_def)
  qed
  have "rep_path m2 c a"
  proof (rule rep_path_cong)
    show "rep_path (cells h) c a" using path by simp
    show "\<forall>x \<in> set (path_addrs c). m2 x = cells h x"
    proof
      fix x assume "x \<in> set (path_addrs c)"
      then show "m2 x = cells h x" using apart(5,8) by (intro same) auto
    qed
  qed
  moreover have "only_changes (addrs L @ addrs R @ path_addrs ((a, lks, rks, lts, rts) # c)) h h2"
    unfolding only_changes_def
  proof (intro conjI allI impI)
    have roots: "set ?cs \<subseteq> set (addrs L @ addrs R @ path_addrs ((a, lks, rks, lts, rts) # c))"
      by (auto simp: ts)
    fix x assume x: "x \<notin> set (addrs L @ addrs R @ path_addrs ((a, lks, rks, lts, rts) # c)) \<and>
      (x < fresh h \<or> fresh h2 \<le> x)"
    then have "x \<notin> set ?cs" using roots by blast
    then show "cells h2 x = cells h x" using same [of x] x by (auto simp: h2_def h1_def)
  qed (simp_all add: h2_def h1_def)
  moreover have "keeps_next h h2"
    using nx at(3) by (auto simp: keeps_next_def h2_def m2_def h1_def)
  ultimately show ?thesis using run halves by (intro exI [of _ h2]) (simp add: h2_def h1_def)
qed

lemma only_changes_trans:
  assumes "only_changes as h h1" "only_changes bs h1 h2" "\<forall>x \<in> set bs. x < fresh h \<longrightarrow> x \<in> set as"
    and "\<forall>x \<in> set bs. x < fresh h1"
  shows "only_changes as h h2"
  unfolding only_changes_def
proof (intro conjI allI impI)
  show "fresh h \<le> fresh h2" "calloc_ok h2 = calloc_ok h" using assms by (auto simp: only_changes_def)
  fix x assume x: "x \<notin> set as \<and> (x < fresh h \<or> fresh h2 \<le> x)"
  then have "x \<notin> set bs" using assms by (auto simp: only_changes_def)
  then show "cells h2 x = cells h x" using x assms(1,2) by (auto simp: only_changes_def)
qed

lemma keeps_next_trans: "keeps_next h h1 \<Longrightarrow> keeps_next h1 h2 \<Longrightarrow> fresh h \<le> fresh h1 \<Longrightarrow> keeps_next h h2"
  by (simp add: keeps_next_def)

lemma insert_into_parent_done:
  assumes "rep (cells h) (path_parent c) L" "rep (cells h) (path_parent c) R"
    "rep_path (cells h) c (addr_of L)" "node_sets_ok h (addrs L @ addrs R @ path_addrs c)"
    "path_ok c" "path_shape n c" "\<forall>i \<ge> fresh h. calloc_ok h i" "2 * length c < fuel"
    "root = Some (addr_of (plug c L))"
  shows "parent_done h c L k R
     (bptree_insert_into_parent fuel h root (Some (addr_of L)) k (Some (addr_of R)))"
  using assms
proof (induction c arbitrary: h L k R n fuel)
  case Nil
  then show ?case by (intro new_root_done) auto
next
  case (Cons fr c)
  obtain a lks rks lts rts where fr: "fr = (a, lks, rks, lts, rts)" by (cases fr)
  have len: "length lts = length lks" "length rts = length rks" "path_ok c"
    and bnd: "length (lks @ rks) \<le> BPTREE_MAX_KEYS" "path_shape (Suc n) c"
    using Cons.prems(5,6) by (auto simp: fr)
  show ?case
  proof (cases "length (lks @ rks) < BPTREE_MAX_KEYS")
    case True
    then show ?thesis unfolding fr using Cons.prems len(1) by (intro inner_room_done) (auto simp: fr)
  next
    case False
    then have full: "length (lks @ rks) = 31" using bnd(1) by (simp add: BPTREE_MAX_KEYS_def)
    define ks ts where "ks = lks @ k # rks" and "ts = lts @ L # R # rts"
    define L' R' where "L' = Nd a (take 16 ks) (take 17 ts)" and "R' = Nd (fresh h) (drop 17 ks) (drop 17 ts)"
    obtain fuel' where fuel: "fuel = Suc (Suc fuel')" "2 * length c < fuel'"
      using Cons.prems(8) by (cases fuel; cases "fuel - 1") (auto simp: fr)
    let ?as = "addrs L @ addrs R @ path_addrs (fr # c)"
    obtain h2 where run: "\<And>fuel root. bptree_insert_into_parent (Suc (Suc fuel)) h root (Some (addr_of L)) k (Some (addr_of R)) =
         bptree_insert_into_parent fuel h2 root (Some a) (ks ! 16) (Some (fresh h))"
      and reps: "rep (cells h2) (path_parent c) L'" "rep (cells h2) (path_parent c) R'" "rep_path (cells h2) c a"
      and fresh: "fresh h2 = Suc (fresh h)" and chg: "only_changes ?as h h2" and kn: "keeps_next h h2"
      using split_level [OF Cons.prems(1,2) [unfolded fr path_parent.simps] Cons.prems(3,4) [unfolded fr]
          len(1) full _ ks_def ts_def L'_def R'_def] Cons.prems(7)
      unfolding fr by blast
    have "mset (concat (map addrs (take 17 ts))) + mset (concat (map addrs (drop 17 ts))) =
        mset (concat (map addrs lts)) + mset (addrs L) + mset (addrs R) + mset (concat (map addrs rts))"
      unfolding mset_append [symmetric] concat_append [symmetric] map_append [symmetric] append_take_drop_id
      by (simp add: ts_def)
    then have ms: "mset (addrs L' @ addrs R' @ path_addrs c) = mset (fresh h # ?as)"
      unfolding L'_def R'_def fr by (simp add: ac_simps)
    have new: "set (addrs L' @ addrs R' @ path_addrs c) = insert (fresh h) (set ?as)"
      using mset_eq_setD [OF ms] by simp
    have "node_sets_ok h2 (addrs L' @ addrs R' @ path_addrs c)"
      unfolding node_sets_ok_def new fresh mset_eq_imp_distinct_iff [OF ms]
      using Cons.prems(4) by (auto simp: node_sets_ok_def)
    moreover have "\<forall>i \<ge> fresh h2. calloc_ok h2 i" using Cons.prems(7) chg fresh by (simp add: only_changes_def)
    moreover have "root = Some (addr_of (plug c L'))"
      using Cons.prems(9) addr_of_plug [of L' "Nd a (lks @ rks) (lts @ L # rts)" c] by (simp add: fr L'_def)
    ultimately have fin: "parent_done h2 c L' (ks ! 16) R'
        (bptree_insert_into_parent fuel' h2 root (Some (addr_of L')) (ks ! 16) (Some (addr_of R')))"
      using reps len(3) bnd(2) fuel(2) by (intro Cons.IH) (auto simp: L'_def)
    have gr: "grow (fresh h) (fr # c) L k R = grow (Suc (fresh h)) c L' (ks ! 16) R'"
      using full by (simp add: fr Let_def BPTREE_MAX_KEYS_def ks_def ts_def L'_def R'_def)
    have ga: "grow_allocs (fr # c) = Suc (grow_allocs c)" using False by (simp add: fr)
    show ?thesis
    proof -
      obtain h' where h': "bptree_insert_into_parent fuel' h2 root (Some a) (ks ! 16) (Some (fresh h)) =
          Some (h', Some (addr_of (grow (fresh h2) c L' (ks ! 16) R')), SUCCESS)"
        "rep (cells h') None (grow (fresh h2) c L' (ks ! 16) R')" "fresh h' = fresh h2 + grow_allocs c"
        "only_changes (addrs L' @ addrs R' @ path_addrs c) h2 h'" "keeps_next h2 h'"
        using fin unfolding parent_done_def by (auto simp: L'_def R'_def)
      have "only_changes ?as h h'"
        by (rule only_changes_trans [OF chg h'(4)])
          (unfold new fresh, use Cons.prems(4) in \<open>auto simp: node_sets_ok_def\<close>)
      moreover have "keeps_next h h'" using keeps_next_trans [OF kn h'(5)] fresh by simp
      ultimately show ?thesis
        unfolding parent_done_def gr ga fuel(1) run using h' fresh by simp
    qed
  qed
qed

end
