(* ===== verification/Index_Interface.thy ===== *)
theory Index_Interface
  imports Prelude
begin

text \<open>
  The interface through which \<^verbatim>\<open>table_runtime.c\<close> and \<^verbatim>\<open>executor.c\<close> use the id
  index: an insertion that refuses a key it already has, and a lookup.  The laws are
  stated against a finite map from ids to row slots; the client lemmas on bulk loading
  are proved once here, from the laws only.
\<close>

section \<open>Loading an index entry by entry\<close>

fun insert_all ::
  "('h \<Rightarrow> 'r \<Rightarrow> int \<Rightarrow> int \<Rightarrow> ('h \<times> 'r \<times> status) option) \<Rightarrow> 'h \<Rightarrow> 'r \<Rightarrow> (int \<times> int) list \<Rightarrow>
   ('h \<times> 'r \<times> status) option" where
  "insert_all ins h r [] = Some (h, r, SUCCESS)"
| "insert_all ins h r ((k, v) # kvs) = do {
     (h', r', st) \<leftarrow> ins h r k v;
     case st of SUCCESS \<Rightarrow> insert_all ins h' r' kvs | FAILURE \<Rightarrow> Some (h', r', FAILURE)
   }"

section \<open>The contract\<close>

locale id_index =
  fixes ins :: "'h \<Rightarrow> 'r \<Rightarrow> int \<Rightarrow> int \<Rightarrow> ('h \<times> 'r \<times> status) option"
    and find :: "'h \<Rightarrow> 'r \<Rightarrow> int \<Rightarrow> int option option"
    and holds :: "'h \<Rightarrow> 'r \<Rightarrow> (int \<rightharpoonup> int) \<Rightarrow> bool"
    and ready :: "'h \<Rightarrow> bool"
  assumes find_holds: "holds h r m \<Longrightarrow> find h r k = Some (m k)"
    and ins_new: "holds h r m \<Longrightarrow> ready h \<Longrightarrow> m k = None \<Longrightarrow>
      \<exists>h' r'. ins h r k v = Some (h', r', SUCCESS) \<and> holds h' r' (m(k \<mapsto> v)) \<and> ready h'"
    and ins_present: "holds h r m \<Longrightarrow> m k \<noteq> None \<Longrightarrow> ins h r k v = Some (h, r, FAILURE)"
begin

lemma insert_all_fresh_keys:
  assumes "holds h r m" "ready h" "distinct (map fst kvs)" "\<forall>k \<in> fst ` set kvs. m k = None"
  shows "\<exists>h' r'. insert_all ins h r kvs = Some (h', r', SUCCESS) \<and> holds h' r' (m ++ map_of kvs) \<and> ready h'"
  using assms
proof (induction kvs arbitrary: h r m)
  case (Cons kv kvs)
  obtain k v where kv: "kv = (k, v)" by (cases kv)
  obtain h1 r1 where i: "ins h r k v = Some (h1, r1, SUCCESS)" "holds h1 r1 (m(k \<mapsto> v))" "ready h1"
    using ins_new [OF Cons.prems(1,2), of k v] Cons.prems(4) kv by auto
  have nin: "k \<notin> fst ` set kvs" using Cons.prems(3) kv by auto
  have run: "insert_all ins h r (kv # kvs) = insert_all ins h1 r1 kvs" using i(1) by (simp add: kv)
  have "\<exists>h' r'. insert_all ins h1 r1 kvs = Some (h', r', SUCCESS) \<and>
      holds h' r' (m(k \<mapsto> v) ++ map_of kvs) \<and> ready h'"
    using Cons.prems(3,4) nin kv by (intro Cons.IH [OF i(2,3)]) auto
  moreover have "m(k \<mapsto> v) ++ map_of kvs = m ++ map_of (kv # kvs)"
  proof -
    have "map_of kvs k = None" using nin by (simp add: map_of_eq_None_iff)
    then show ?thesis by (auto simp: kv map_add_def fun_eq_iff split: option.splits)
  qed
  ultimately show ?case unfolding run by (simp only:)
qed auto

text \<open>A key that is already present, or that occurs twice, makes the load fail.\<close>

lemma insert_all_clash:
  assumes "holds h r m" "ready h" "\<not> distinct (map fst kvs) \<or> (\<exists>k \<in> fst ` set kvs. m k \<noteq> None)"
  shows "\<exists>h' r'. insert_all ins h r kvs = Some (h', r', FAILURE)"
  using assms
proof (induction kvs arbitrary: h r m)
  case (Cons kv kvs)
  obtain k v where kv: "kv = (k, v)" by (cases kv)
  show ?case
  proof (cases "m k")
    case None
    obtain h1 r1 where i: "ins h r k v = Some (h1, r1, SUCCESS)" "holds h1 r1 (m(k \<mapsto> v))" "ready h1"
      using ins_new [OF Cons.prems(1,2) None, of v] by auto
    have "\<not> distinct (map fst kvs) \<or> (\<exists>k' \<in> fst ` set kvs. (m(k \<mapsto> v)) k' \<noteq> None)"
      using Cons.prems(3) None by (auto simp: kv)
    then show ?thesis using Cons.IH [OF i(2,3)] i(1) by (auto simp: kv)
  next
    case (Some w)
    then show ?thesis using ins_present [OF Cons.prems(1), of k v] by (simp add: kv)
  qed
qed simp

lemma load_then_find:
  assumes "holds h r Map.empty" "ready h" "distinct (map fst kvs)"
  shows "\<exists>h' r'. insert_all ins h r kvs = Some (h', r', SUCCESS) \<and> (\<forall>k. find h' r' k = Some (map_of kvs k))"
proof -
  obtain h' r' where "insert_all ins h r kvs = Some (h', r', SUCCESS)" "holds h' r' (map_of kvs)"
    using insert_all_fresh_keys [OF assms] by auto
  then show ?thesis using find_holds by auto
qed

end

end
