(* ===== verification/BPTree_Correct.thy ===== *)
theory BPTree_Correct
  imports BPTree_Insert Index_Interface
begin

text \<open>
  The heap invariant of \<^verbatim>\<open>src/db/bptree.c\<close> and the correctness of its three
  entry points \<open>bptree_search\<close>, \<open>bptree_insert\<close> and \<open>bptree_free\<close> with respect to a
  finite map from ids to row slots.
\<close>

section \<open>The heap invariant\<close>

definition bp_inv :: "bp_heap \<Rightarrow> addr option \<Rightarrow> bpt \<Rightarrow> bool" where
  "bp_inv h root t \<longleftrightarrow> root = Some (addr_of t) \<and> rep (cells h) None t \<and> ordered t \<and> (\<exists>n. shape n t) \<and>
     root_full_enough t \<and> node_sets_ok h (addrs t) \<and> chained (cells h) (leaf_addrs t)"

text \<open>
  The heap holds one tree and nothing else: every live node belongs to it, so nothing
  has leaked, and the tree stands for the map \<open>m\<close>.
\<close>

definition bp_owns :: "bp_heap \<Rightarrow> addr option \<Rightarrow> (int \<rightharpoonup> int) \<Rightarrow> bool" where
  "bp_owns h root m \<longleftrightarrow>
     (if root = None then m = Map.empty \<and> cells h = Map.empty
      else \<exists>t. bp_inv h root t \<and> dom (cells h) = set (addrs t) \<and> m = map_of (entries t))"

definition bp_memory :: "bp_heap \<Rightarrow> bool" where
  "bp_memory h \<longleftrightarrow> (\<forall>i \<ge> fresh h. calloc_ok h i)"

lemma shape_height: "shape n t \<Longrightarrow> n < length (addrs t)"
proof (induction t arbitrary: n)
  case (Nd a ks ts)
  then obtain m where m: "n = Suc m" "\<forall>t \<in> set ts. shape m t" "length ts = Suc (length ks)" by auto
  then obtain t ts' where ts: "ts = t # ts'" by (cases ts) auto
  then have "m < length (addrs t)" using Nd.IH m by simp
  then show ?case using m ts by simp
qed simp

lemma distinct_below: "distinct xs \<Longrightarrow> \<forall>x \<in> set xs. x < (n::nat) \<Longrightarrow> length xs \<le> n"
  by (metis card_lessThan card_mono distinct_card finite_lessThan lessThan_iff subsetI)

lemma height_below_fresh: "shape n t \<Longrightarrow> node_sets_ok h (addrs t) \<Longrightarrow> n < fresh h"
  using shape_height [of n t] distinct_below [of "addrs t" "fresh h"] by (auto simp: node_sets_ok_def)

lemma search_inv:
  assumes "bp_inv h root t"
  shows "bptree_search h root key = Some (map_of (entries t) key)"
proof -
  obtain n where "shape n t" using assms by (auto simp: bp_inv_def)
  then show ?thesis
    using search_rep [of h t n key] height_below_fresh [of n t h] assms by (simp add: bp_inv_def)
qed

section \<open>The leaf chain\<close>

abbreviation next_of :: "(addr \<rightharpoonup> bp_node) \<Rightarrow> addr \<Rightarrow> addr option option" where
  "next_of m x \<equiv> map_option next_leaf (m x)"

lemma chained_cong: "\<forall>x \<in> set as. next_of m' x = next_of m x \<Longrightarrow> chained m as \<Longrightarrow> chained m' as"
  by (induction m as rule: chained.induct) auto

lemma chained_insert:
  assumes "chained m (as @ a # bs)" "\<forall>x \<in> set as \<union> set bs. next_of m' x = next_of m x"
    and "next_of m' a = Some (Some f)" "next_of m' f = next_of m a"
  shows "chained m' (as @ a # f # bs)"
  using assms(1,2)
proof (induction as)
  case Nil
  show ?case
  proof (cases bs)
    case Nil
    with \<open>chained m ([] @ a # bs)\<close> show ?thesis using assms(3,4) by simp
  next
    case (Cons b bs')
    then show ?thesis
      using Nil.prems assms(3,4) chained_cong [of "b # bs'" m' m] by simp
  qed
next
  case (Cons x as)
  then show ?case by (cases as) auto
qed

lemma leaf_addrs_sub: "set (leaf_addrs t) \<subseteq> set (addrs t)"
  by (induction t) auto

lemma path_leaves_sub: "set (leaves_left c) \<union> set (leaves_right c) \<subseteq> set (path_addrs c)"
proof (induction c)
  case (Cons fr c)
  obtain a lks rks lts rts where "fr = (a, lks, rks, lts, rts)" by (cases fr)
  with Cons show ?case using leaf_addrs_sub by fastforce
qed simp

section \<open>Insertion\<close>

text \<open>Where the search for a new key ends.\<close>

lemma insert_position:
  assumes inv: "bp_inv h root t" and new: "map_of (entries t) key = None"
  obtains c a kvs nd where "t = plug c (Lf a kvs)" "insert_site key c a kvs" "length kvs \<le> BPTREE_MAX_KEYS"
    "bptree_find_leaf (Suc (fresh h)) h root key = Some (Some a)" "cells h a = Some nd"
    "leaf_cell (path_parent c) kvs nd" "rep_path (cells h) c a" "length c < fresh h"
    "\<exists>n. path_shape n c"
proof -
  obtain n where n: "shape n t" using inv by (auto simp: bp_inv_def)
  obtain c leaf where d: "descend key t [] = (c, leaf)" by fastforce
  have "plug c leaf = t \<and> points_at key c \<and> (\<exists>a kvs. leaf = Lf a kvs) \<and> length c = n"
    using descend_correct [OF d] inv n by (simp add: points_at_def bp_inv_def)
  then obtain a kvs where leaf: "leaf = Lf a kvs" and t: "plug c (Lf a kvs) = t"
    and pt: "points_at key c" and len: "length c = n" by auto
  have "rep (cells h) (path_parent c) (Lf a kvs) \<and> rep_path (cells h) c a"
    using inv rep_plug [of "cells h" c "Lf a kvs"] by (simp add: t bp_inv_def)
  then obtain nd where nd: "cells h a = Some nd" "leaf_cell (path_parent c) kvs nd" "rep_path (cells h) c a" by auto
  have lt: "n < fresh h" using height_below_fresh [OF n] inv by (simp add: bp_inv_def)
  have found: "bptree_find_leaf (Suc (fresh h)) h root key = Some (Some a)"
    using find_leaf_rep [of h None t n "Suc (fresh h)" key "[]"] inv n lt
    by (simp add: d leaf bp_inv_def del: bptree_find_leaf.simps)
  have "map_of kvs key = None" using map_of_pointed [OF pt, of "Lf a kvs"] new by (simp add: t)
  then have site: "insert_site key c a kvs"
    using pt inv by (simp add: insert_site_def t bp_inv_def map_of_eq_None_iff)
  have "\<exists>n. shape n (Lf a kvs) \<and> path_shape n c"
    using shape_plug [of c "Lf a kvs"] pt n t by (auto simp: points_at_def)
  then show thesis using that [OF t [symmetric] site _ found nd] len lt by auto
qed

lemma insert_leaf_inv:
  assumes inv: "bp_inv h root (plug c (Lf a kvs))" and site: "insert_site key c a kvs"
    and len: "length kvs \<le> BPTREE_MAX_KEYS"
    and t': "t' = insert_leaf (fresh h) key row (c, Lf a kvs)"
    and rep: "rep (cells h') None t'" and fr: "fresh h' = fresh h + insert_allocs c kvs"
    and ch: "chained (cells h') (leaf_addrs t')"
  shows "bp_inv h' (Some (addr_of t')) t' \<and> map_of (entries t') = (map_of (entries (plug c (Lf a kvs))))(key \<mapsto> row) \<and>
     set (addrs t') = set (addrs (plug c (Lf a kvs))) \<union> {fresh h ..< fresh h'}"
proof -
  let ?t = "plug c (Lf a kvs)"
  have ms: "mset (addrs t') = mset (addrs ?t @ [fresh h ..< fresh h'])"
    using insert_leaf_addrs [OF len] by (simp add: t' fr)
  have st: "set (addrs t') = set (addrs ?t) \<union> {fresh h ..< fresh h'}" using mset_eq_setD [OF ms] by simp
  have "distinct (addrs t') \<longleftrightarrow> distinct (addrs ?t @ [fresh h ..< fresh h'])"
    by (rule mset_eq_imp_distinct_iff [OF ms])
  then have "node_sets_ok h' (addrs t')"
    using inv fr unfolding node_sets_ok_def st by (fastforce simp: bp_inv_def node_sets_ok_def)
  moreover have "root_full_enough ?t" using inv by (simp add: bp_inv_def)
  ultimately have "bp_inv h' (Some (addr_of t')) t'"
    using rep ch insert_leaf_ordered [OF site len] insert_leaf_shape [OF site len]
      insert_leaf_full [OF site len] by (simp add: bp_inv_def t')
  then show ?thesis using st insert_leaf_map [OF site len] by (simp add: t')
qed

definition inserted ::
  "bp_heap \<Rightarrow> bpt \<Rightarrow> int \<Rightarrow> int \<Rightarrow> (bp_heap \<times> addr option \<times> status) option \<Rightarrow> bool" where
  "inserted h t key row res \<longleftrightarrow> (\<exists>h' t'. res = Some (h', Some (addr_of t'), SUCCESS) \<and>
     bp_inv h' (Some (addr_of t')) t' \<and> map_of (entries t') = (map_of (entries t))(key \<mapsto> row) \<and>
     only_changes (addrs t) h h' \<and> set (addrs t') = set (addrs t) \<union> {fresh h ..< fresh h'})"

lemma insert_fits:
  assumes inv: "bp_inv h root (plug c (Lf a kvs))" and site: "insert_site key c a kvs"
    and fits: "length kvs < BPTREE_MAX_KEYS" and nd: "cells h a = Some nd"
    and cell: "leaf_cell (path_parent c) kvs nd" and path: "rep_path (cells h) c a"
  shows "inserted h (plug c (Lf a kvs)) key row
     (do { (h', st) \<leftarrow> bptree_insert_into_leaf h (Some a) key row; Some (h', root, st) })"
proof -
  let ?t = "plug c (Lf a kvs)" and ?kvs = "insert_at (leaf_slot kvs key) (key, row) kvs"
  obtain nd' where ins: "bptree_insert_into_leaf h (Some a) key row = Some (put h a nd', SUCCESS)"
    and cell': "leaf_cell (path_parent c) ?kvs nd'" and nx: "next_leaf nd' = next_leaf nd"
    using leaf_insert_cell [OF cell fits nd] by blast
  let ?h = "put h a nd'" and ?t' = "insert_leaf (fresh h) key row (c, Lf a kvs)"
  have t': "?t' = plug c (Lf a ?kvs)"
    using insert_leaf_cases [of kvs "fresh h" key row c a, case_names fits full] fits
    by (auto simp: BPTREE_MAX_KEYS_def)
  have ms: "mset (addrs ?t) = mset (a # path_addrs c)" by (simp add: addrs_plug)
  have "a \<notin> set (path_addrs c)"
    using inv mset_eq_imp_distinct_iff [OF ms] by (simp add: bp_inv_def node_sets_ok_def)
  then have "rep_path (cells ?h) c a"
    by - (rule rep_path_cong [OF _ path], simp add: cells_put)
  then have rep: "rep (cells ?h) None ?t'" using cell' by (simp add: t' rep_plug cells_put)
  have "chained (cells ?h) (leaf_addrs ?t)"
    by (rule chained_cong [of _ _ "cells h"]) (use inv nd nx in \<open>auto simp: bp_inv_def cells_put\<close>)
  then have ch: "chained (cells ?h) (leaf_addrs ?t')" by (simp add: t' leaf_addrs_plug)
  have fr: "fresh ?h = fresh h + insert_allocs c kvs" using fits by (simp add: put_def insert_allocs_def)
  have "a \<in> set (addrs ?t)" using mset_eq_setD [OF ms] by simp
  then have oc: "only_changes (addrs ?t) h ?h" by (auto simp: only_changes_def put_def)
  have "root = Some (addr_of ?t')"
    using inv addr_of_plug [of "Lf a kvs" "Lf a ?kvs" c] by (simp add: t' bp_inv_def)
  then show ?thesis
    using insert_leaf_inv [OF inv site less_imp_le [OF fits] refl rep fr ch] oc ins
    unfolding inserted_def by auto
qed

lemma insert_splits:
  assumes inv: "bp_inv h root (plug c (Lf a kvs))" and site: "insert_site key c a kvs"
    and full: "length kvs = 31" and nd: "cells h a = Some nd"
    and cell: "leaf_cell (path_parent c) kvs nd" and path: "rep_path (cells h) c a"
    and mem: "\<forall>i \<ge> fresh h. calloc_ok h i" and dep: "length c < fresh h" and sh: "path_shape n c"
  shows "inserted h (plug c (Lf a kvs)) key row (bptree_split_leaf h root (Some a) key row)"
proof -
  let ?t = "plug c (Lf a kvs)" and ?f = "fresh h"
  define kvs' where "kvs' = insert_at (leaf_slot kvs key) (key, row) kvs"
  let ?L = "Lf a (take 16 kvs')" and ?R = "Lf ?f (drop 16 kvs')" and ?k = "fst (kvs' ! 16)"
  define t' where "t' = insert_leaf ?f key row (c, Lf a kvs)"
  have len: "length kvs \<le> BPTREE_MAX_KEYS" using full by (simp add: BPTREE_MAX_KEYS_def)
  have "length kvs' = Suc (length kvs)" unfolding kvs'_def by simp
  then have len': "length kvs' = 32" using full by simp
  have t': "t' = grow (Suc ?f) c ?L ?k ?R"
    using insert_leaf_cases [OF len, where key = key and row = row, of ?f c a, case_names fits full] full
    by (auto simp: BPTREE_MAX_KEYS_def kvs'_def t'_def)
  have ms: "mset (addrs ?t) = mset (a # path_addrs c)" by (simp add: addrs_plug)
  have ok: "distinct (a # path_addrs c)" "\<forall>x \<in> set (a # path_addrs c). x < ?f"
    using inv mset_eq_imp_distinct_iff [OF ms] mset_eq_setD [OF ms] by (auto simp: bp_inv_def node_sets_ok_def)
  define h1 where "h1 = h\<lparr>cells := (cells h)(?f \<mapsto> zero_node True), fresh := Suc ?f\<rparr>"
  have at: "cells h1 a = Some nd" "cells h1 ?f = Some (zero_node True)" and af: "a \<noteq> ?f"
    using nd ok by (auto simp: h1_def)
  obtain nd' nn' where sp: "split_leaf_nodes h1 a ?f key row = Some (put (put h1 ?f nn') a nd')"
    and cells': "leaf_cell (path_parent c) (take 16 kvs') nd'" "leaf_cell (path_parent c) (drop 16 kvs') nn'"
    and nx: "next_leaf nd' = Some ?f" "next_leaf nn' = next_leaf nd"
    using split_leaf_cells [OF cell full at af kvs'_def] by blast
  define h2 where "h2 = put (put h1 ?f nn') a nd'"
  have c2: "cells h2 = (cells h)(?f \<mapsto> nn', a \<mapsto> nd')" by (simp add: h2_def h1_def put_def)
  have f2: "fresh h2 = Suc ?f" "calloc_ok h2 = calloc_ok h" by (simp_all add: h2_def h1_def put_def)
  have k0: "aget (keys nn') 0 = Some ?k"
  proof -
    have "take 16 (keys nn') = map fst (drop 16 kvs')" "length (keys nn') = 31"
      using cells'(2) len' by (auto simp: leaf_cell_def wf_arrays_def BPTREE_MAX_KEYS_def)
    then show ?thesis using len' by (auto simp: aget_def dest!: arg_cong [of _ _ "\<lambda>xs. xs ! 0"])
  qed
  have run: "bptree_split_leaf h root (Some a) key row =
      bptree_insert_into_parent (2 * fresh h2) h2 root (Some (addr_of ?L)) ?k (Some (addr_of ?R))"
    using nd cell mem sp k0 af
    by (simp add: bptree_split_leaf_def bptree_create_node_def leaf_cell_def h1_def [symmetric]
        h2_def [symmetric] c2)
  have "rep_path (cells h2) c a"
    by (rule rep_path_cong [OF _ path]) (use ok in \<open>auto simp: c2\<close>)
  then have fin: "parent_done h2 c ?L ?k ?R (bptree_split_leaf h root (Some a) key row)"
    unfolding run
    by - (rule insert_into_parent_done [where n = n], use cells' ok sh dep mem f2 af site inv
        addr_of_plug [of "Lf a kvs" ?L c] in
        \<open>auto simp: c2 node_sets_ok_def insert_site_def points_at_def bp_inv_def\<close>)
  then obtain h' where res: "bptree_split_leaf h root (Some a) key row = Some (h', Some (addr_of t'), SUCCESS)"
    and rep: "rep (cells h') None t'" and fr: "fresh h' = Suc ?f + grow_allocs c"
    and oc: "only_changes (addrs ?L @ addrs ?R @ path_addrs c) h2 h'" and kn: "keeps_next h2 h'"
    unfolding parent_done_def f2 t' by blast
  have fr': "fresh h' = ?f + insert_allocs c kvs" using fr full by (simp add: insert_allocs_def BPTREE_MAX_KEYS_def)
  have "chained (cells h) (leaves_left c @ a # leaves_right c)"
    using inv by (simp add: bp_inv_def leaf_addrs_plug)
  moreover have "next_of (cells h') x = next_of (cells h) x" if "x \<in> set (leaves_left c) \<union> set (leaves_right c)" for x
  proof -
    have "x \<in> set (path_addrs c)" using that path_leaves_sub [of c] by blast
    then have "x < ?f" "x \<noteq> a" using ok by auto
    then show ?thesis using kn f2 by (simp add: keeps_next_def c2)
  qed
  ultimately have "chained (cells h') (leaves_left c @ a # ?f # leaves_right c)"
    by (rule_tac chained_insert [of "cells h"]) (use kn ok nd nx f2 af in \<open>auto simp: keeps_next_def c2\<close>)
  then have ch: "chained (cells h') (leaf_addrs t')"
    using insert_leaf_leaf_addrs [OF len] full by (simp add: t'_def BPTREE_MAX_KEYS_def)
  have "only_changes (addrs ?t) h h2"
    using mset_eq_setD [OF ms] f2 by (auto simp: only_changes_def c2)
  then have "only_changes (addrs ?t) h h'"
    by (rule only_changes_trans [OF _ oc]) (use mset_eq_setD [OF ms] f2 ok in auto)
  then show ?thesis
    using insert_leaf_inv [OF inv site len t'_def rep fr' ch] res unfolding inserted_def by auto
qed

lemma insert_new:
  assumes inv: "bp_inv h root t" and new: "map_of (entries t) key = None"
    and mem: "\<forall>i \<ge> fresh h. calloc_ok h i"
  shows "inserted h t key row (bptree_insert h root key row)"
proof -
  obtain c a kvs nd n where t: "t = plug c (Lf a kvs)" and site: "insert_site key c a kvs"
    and len: "length kvs \<le> BPTREE_MAX_KEYS"
    and leaf: "bptree_find_leaf (Suc (fresh h)) h root key = Some (Some a)" and nd: "cells h a = Some nd"
    and cell: "leaf_cell (path_parent c) kvs nd" and path: "rep_path (cells h) c a"
    and dep: "length c < fresh h" and sh: "path_shape n c"
    using insert_position [OF inv new] by metis
  have kc: "key_count nd = length kvs" using cell by (simp add: leaf_cell_def)
  obtain r where r: "root = Some r" using inv by (auto simp: bp_inv_def)
  have run: "bptree_insert h root key row =
      (if length kvs < BPTREE_MAX_KEYS
       then do { (h', st) \<leftarrow> bptree_insert_into_leaf h (Some a) key row; Some (h', root, st) }
       else bptree_split_leaf h root (Some a) key row)"
    using search_inv [OF inv, of key] new leaf nd kc
    by (simp add: bptree_insert_def r del: bptree_find_leaf.simps)
  show ?thesis
  proof (cases "length kvs < BPTREE_MAX_KEYS")
    case True
    then show ?thesis using insert_fits [OF inv [unfolded t] site True nd cell path] by (simp add: run t)
  next
    case False
    then have "length kvs = 31" using len by (simp add: BPTREE_MAX_KEYS_def)
    then show ?thesis
      using insert_splits [OF inv [unfolded t] site _ nd cell path mem dep sh] False by (simp add: run t)
  qed
qed

lemma insert_first:
  assumes "calloc_ok h (fresh h)"
  shows "\<exists>h' t'. bptree_insert h None key row = Some (h', Some (addr_of t'), SUCCESS) \<and>
     bp_inv h' (Some (addr_of t')) t' \<and> map_of (entries t') = [key \<mapsto> row] \<and>
     only_changes [] h h' \<and> set (addrs t') = {fresh h ..< fresh h'}"
proof -
  let ?nd = "(zero_node True)\<lparr>keys := (replicate 31 0)[0 := key],
      row_indices := (replicate 31 0)[0 := row], key_count := 1\<rparr>"
  let ?h = "h\<lparr>cells := (cells h)(fresh h \<mapsto> ?nd), fresh := Suc (fresh h)\<rparr>"
  let ?t = "Lf (fresh h) [(key, row)]"
  have "bptree_insert h None key row = Some (?h, Some (fresh h), SUCCESS)"
    using assms by (simp add: bptree_insert_def bptree_create_node_def zero_node_def BPTREE_MAX_KEYS_def
        array_simps put_def)
  moreover have "leaf_cell None [(key, row)] ?nd"
    by (simp add: leaf_cell_def wf_arrays_def zero_node_def BPTREE_MAX_KEYS_def numeral_eq_Suc)
  then have "bp_inv ?h (Some (addr_of ?t)) ?t"
    by (simp add: bp_inv_def ordered_def node_sets_ok_def BPTREE_MAX_KEYS_def zero_node_def)
  moreover have "only_changes [] h ?h" by (auto simp: only_changes_def)
  ultimately show ?thesis by (intro exI [of _ ?h] exI [of _ ?t]) auto
qed

lemma insert_duplicate:
  assumes "bp_inv h root t" "map_of (entries t) key \<noteq> None"
  shows "bptree_insert h root key row = Some (h, root, FAILURE)"
  using search_inv [OF assms(1), of key] assms by (auto simp: bptree_insert_def bp_inv_def)

section \<open>Release\<close>

definition clear :: "bp_heap \<Rightarrow> addr list \<Rightarrow> bp_heap" where
  "clear h as = h\<lparr>cells := (\<lambda>x. if x \<in> set as then None else cells h x)\<rparr>"

lemma clear_simps [simp]:
  "cells (clear h as) x = (if x \<in> set as then None else cells h x)"
  "clear (clear h as) bs = clear h (as @ bs)" "fresh (clear h as) = fresh h" "clear h [] = h"
  by (auto simp: clear_def fun_eq_iff intro: arg_cong [of _ _ "\<lambda>m. h\<lparr>cells := m\<rparr>"])

lemma clear_last: "(clear h as)\<lparr>cells := (cells (clear h as))(a := None)\<rparr> = clear h (a # as)"
  by (auto simp: clear_def fun_eq_iff intro: arg_cong [of _ _ "\<lambda>m. h\<lparr>cells := m\<rparr>"])

lemma free_children_step:
  assumes IH: "\<And>t h fuel. t \<in> set ts \<Longrightarrow> rep (cells h) (Some a) t \<Longrightarrow> distinct (addrs t) \<Longrightarrow>
      2 * length (addrs t) \<le> fuel \<Longrightarrow> bptree_free fuel h (Some (addr_of t)) = Some (clear h (addrs t))"
    and cell: "inner_cell p ks (map addr_of ts) nd"
    and "cells h a = Some nd" "ts = pre @ us" "\<forall>t \<in> set us. rep (cells h) (Some a) t"
    and "distinct (a # concat (map addrs us))" "2 * length (concat (map addrs us)) < fuel"
  shows "bptree_free_children fuel h a (length pre) = Some (clear h (concat (map addrs us)))"
  using assms(3-)
proof (induction us arbitrary: h pre fuel)
  case Nil
  then show ?case using cell by (cases fuel) (auto simp: inner_cell_def)
next
  case (Cons t us)
  then obtain fuel' where fuel: "fuel = Suc fuel'" by (cases fuel) auto
  have ac: "aget (children nd) (length pre) = Some (Some (addr_of t))"
  proof -
    have "take (Suc (length ks)) (children nd) = map Some (map addr_of ts)" "length ts = Suc (length ks)"
      "length (children nd) = 32" "length ks \<le> 31"
      using cell by (auto simp: inner_cell_def wf_arrays_def BPTREE_MAX_KEYS_def)
    then show ?thesis
      using Cons.prems(2) by (auto simp: aget_def nth_append dest!: arg_cong [of _ _ "\<lambda>xs. xs ! length pre"])
  qed
  have le: "length pre \<le> key_count nd" using cell Cons.prems(2) by (auto simp: inner_cell_def)
  have f: "bptree_free fuel' h (Some (addr_of t)) = Some (clear h (addrs t))"
    using Cons.prems fuel by (intro IH) auto
  have pos: "1 \<le> length (addrs t)" by (cases t) auto
  have rest: "\<forall>u \<in> set us. rep (cells (clear h (addrs t))) (Some a) u"
  proof
    fix u assume u: "u \<in> set us"
    show "rep (cells (clear h (addrs t))) (Some a) u"
      by (rule rep_cong [of u _ "cells h"]) (use Cons.prems u in auto)
  qed
  have "bptree_free_children fuel' (clear h (addrs t)) a (length (pre @ [t])) =
      Some (clear (clear h (addrs t)) (concat (map addrs us)))"
    by (rule Cons.IH [OF _ _ rest]) (use Cons.prems fuel pos in auto)
  then show ?case using f ac le Cons.prems(1) by (simp add: fuel)
qed

lemma free_rep:
  "rep (cells h) p t \<Longrightarrow> distinct (addrs t) \<Longrightarrow> 2 * length (addrs t) \<le> fuel \<Longrightarrow>
   bptree_free fuel h (Some (addr_of t)) = Some (clear h (addrs t))"
proof (induction t arbitrary: h p fuel)
  case (Lf a kvs)
  then obtain fuel' where "fuel = Suc fuel'" by (cases fuel) auto
  then show ?case using Lf clear_last [of h "[]" a] by (auto simp: leaf_cell_def)
next
  case (Nd a ks ts)
  then obtain fuel' where fuel: "fuel = Suc fuel'" by (cases fuel) auto
  from Nd.prems obtain nd where nd: "cells h a = Some nd" "inner_cell p ks (map addr_of ts) nd" by auto
  have "bptree_free_children fuel' h a (length ([] :: bpt list)) = Some (clear h (concat (map addrs ts)))"
    by (rule free_children_step [OF _ nd(2,1)]) (use Nd fuel in auto)
  moreover have "\<not> is_leaf nd" using nd by (simp add: inner_cell_def)
  moreover have "cells (clear h (concat (map addrs ts))) a = Some nd" using nd(1) Nd.prems(2) by simp
  ultimately show ?case
    using nd(1) clear_last [of h "concat (map addrs ts)" a] by (simp add: fuel)
qed

section \<open>The heap tree is an id index\<close>

lemma rep_doms: "rep m p t \<Longrightarrow> set (addrs t) \<subseteq> dom m"
  using rep_dom by blast

lemma only_changes_dom:
  assumes "only_changes (addrs t) h h'" "dom (cells h) = set (addrs t)" "node_sets_ok h (addrs t)"
    and "set (addrs t') = set (addrs t) \<union> {fresh h ..< fresh h'}" "rep (cells h') p t'"
  shows "dom (cells h') = set (addrs t')"
proof
  show "set (addrs t') \<subseteq> dom (cells h')" by (rule rep_doms [OF assms(5)])
  show "dom (cells h') \<subseteq> set (addrs t')"
  proof
    fix x assume x: "x \<in> dom (cells h')"
    show "x \<in> set (addrs t')"
    proof (rule ccontr)
      assume "x \<notin> set (addrs t')"
      then have "cells h' x = cells h x" "x \<notin> set (addrs t)"
        using assms(1,4) by (auto simp: only_changes_def)
      then have "x \<in> dom (cells h)" using x by (simp add: dom_def)
      then show False using \<open>x \<notin> set (addrs t)\<close> assms(2) by simp
    qed
  qed
qed

lemma owns_insert_new:
  assumes "bp_owns h root m" "bp_memory h" "m key = None"
  shows "\<exists>h' root'. bptree_insert h root key row = Some (h', root', SUCCESS) \<and>
     bp_owns h' root' (m(key \<mapsto> row)) \<and> bp_memory h'"
proof (cases root)
  case None
  then have m: "m = Map.empty" "cells h = Map.empty" using assms(1) by (auto simp: bp_owns_def)
  obtain h' t' where ins: "bptree_insert h None key row = Some (h', Some (addr_of t'), SUCCESS)"
    "bp_inv h' (Some (addr_of t')) t'" "map_of (entries t') = [key \<mapsto> row]"
    "only_changes [] h h'" "set (addrs t') = {fresh h ..< fresh h'}"
    using insert_first [of h key row] assms(2) by (auto simp: bp_memory_def)
  have "dom (cells h') = set (addrs t')"
  proof
    show "set (addrs t') \<subseteq> dom (cells h')" using ins(2) rep_doms [of "cells h'" None t'] by (simp add: bp_inv_def)
    show "dom (cells h') \<subseteq> set (addrs t')"
      using ins(4,5) m(2) by (auto simp: only_changes_def) (metis leI option.distinct(1))+
  qed
  then have "bp_owns h' (Some (addr_of t')) [key \<mapsto> row]" using ins(2,3) by (auto simp: bp_owns_def)
  moreover have "bp_memory h'" using ins(4) assms(2) by (auto simp: bp_memory_def only_changes_def)
  ultimately show ?thesis using ins(1) None m by auto
next
  case (Some r)
  then obtain t where t: "bp_inv h root t" "dom (cells h) = set (addrs t)" "m = map_of (entries t)"
    using assms(1) by (auto simp: bp_owns_def)
  obtain h' t' where ins: "bptree_insert h root key row = Some (h', Some (addr_of t'), SUCCESS)"
    "bp_inv h' (Some (addr_of t')) t'" "map_of (entries t') = m(key \<mapsto> row)"
    "only_changes (addrs t) h h'" "set (addrs t') = set (addrs t) \<union> {fresh h ..< fresh h'}"
    using insert_new [OF t(1), of key row] assms(2,3) t(3) unfolding inserted_def bp_memory_def by auto
  have "dom (cells h') = set (addrs t')"
    using only_changes_dom [OF ins(4) t(2) _ ins(5)] t(1) ins(2) by (auto simp: bp_inv_def)
  then have "bp_owns h' (Some (addr_of t')) (m(key \<mapsto> row))" using ins(2,3) by (auto simp: bp_owns_def)
  moreover have "bp_memory h'" using ins(4) assms(2) by (auto simp: bp_memory_def only_changes_def)
  ultimately show ?thesis using ins(1) by auto
qed

lemma owns_insert_present:
  assumes "bp_owns h root m" "m key \<noteq> None"
  shows "bptree_insert h root key row = Some (h, root, FAILURE)"
  using assms insert_duplicate by (auto simp: bp_owns_def split: if_splits)

lemma owns_search:
  assumes "bp_owns h root m"
  shows "bptree_search h root key = Some (m key)"
proof (cases root)
  case None
  then show ?thesis using assms by (simp add: bp_owns_def bptree_search_def)
next
  case (Some r)
  then show ?thesis using assms search_inv by (auto simp: bp_owns_def)
qed

lemma owns_free:
  assumes "bp_owns h root m"
  shows "\<exists>h'. bptree_free (Suc (2 * fresh h)) h root = Some h' \<and> cells h' = Map.empty \<and>
     fresh h' = fresh h \<and> calloc_ok h' = calloc_ok h"
proof (cases root)
  case None
  then show ?thesis using assms by (simp add: bp_owns_def)
next
  case (Some r)
  then obtain t where t: "bp_inv h root t" "dom (cells h) = set (addrs t)"
    using assms by (auto simp: bp_owns_def)
  have "length (addrs t) \<le> fresh h"
    using t(1) distinct_below [of "addrs t" "fresh h"] by (simp add: bp_inv_def node_sets_ok_def)
  then have "bptree_free (Suc (2 * fresh h)) h root = Some (clear h (addrs t))"
    using t(1) free_rep [of h None t "Suc (2 * fresh h)"] by (simp add: bp_inv_def node_sets_ok_def)
  moreover have "cells (clear h (addrs t)) = Map.empty" using t(2) by (auto simp: fun_eq_iff)
  ultimately show ?thesis by (simp add: clear_def)
qed

interpretation bp: id_index bptree_insert bptree_search bp_owns bp_memory
  by unfold_locales (auto dest: owns_search owns_insert_present owns_insert_new)

section \<open>Height and leaf chain\<close>

lemma owns_tree:
  assumes "bp_owns h (Some r) m"
  obtains t n where "bp_inv h (Some r) t" "shape n t" "m = map_of (entries t)" "card (dom m) = length (entries t)"
proof -
  obtain t n where t: "bp_inv h (Some r) t" "m = map_of (entries t)" "shape n t"
    using assms by (auto simp: bp_owns_def bp_inv_def)
  then have "distinct (map fst (entries t))" using ordered_distinct by (auto simp: bp_inv_def)
  then have "card (dom m) = length (entries t)"
    by (metis distinct_card dom_map_of_conv_image_fst length_map list.set_map t(2))
  then show thesis using that t by blast
qed

lemma height_bound:
  assumes "shape n t" "root_full_enough t" "length (entries t) < 2 ^ 31"
  shows "n < 8"
proof (rule ccontr)
  assume "\<not> n < 8"
  then obtain k where n: "n = Suc k" "7 \<le> k" by (cases n) auto
  have "(16::nat) ^ 8 \<le> 16 ^ Suc k" using n(2) by (intro power_increasing) auto
  moreover have "2 * 16 ^ Suc k \<le> length (entries t)" using root_height assms n(1) by blast
  ultimately show False using assms(3) by simp
qed

lemma owns_height:
  assumes "bp_owns h (Some r) m" "card (dom m) < 2 ^ 31"
  shows "\<exists>a. bptree_find_leaf 8 h (Some r) key = Some (Some a)"
proof -
  obtain t n where t: "bp_inv h (Some r) t" "shape n t" "card (dom m) = length (entries t)"
    using owns_tree [OF assms(1)] by metis
  have "n < 8" using height_bound t assms(2) by (auto simp: bp_inv_def)
  then show ?thesis using find_leaf_rep [of h None t n 8 key "[]"] t by (auto simp: bp_inv_def)
qed

text \<open>Reading the entries along the \<open>next_leaf\<close> pointers.\<close>

definition node_entries :: "bp_node \<Rightarrow> (int \<times> int) list" where
  "node_entries nd = zip (take (key_count nd) (keys nd)) (take (key_count nd) (row_indices nd))"

fun scan_leaves :: "nat \<Rightarrow> bp_heap \<Rightarrow> addr option \<Rightarrow> (int \<times> int) list option" where
  "scan_leaves 0 h a = None"
| "scan_leaves (Suc fuel) h None = Some []"
| "scan_leaves (Suc fuel) h (Some a) = do {
     nd \<leftarrow> cells h a;
     rest \<leftarrow> scan_leaves fuel h (next_leaf nd);
     Some (node_entries nd @ rest)
   }"

definition entries_at :: "(addr \<rightharpoonup> bp_node) \<Rightarrow> addr \<Rightarrow> (int \<times> int) list" where
  "entries_at m a = (case m a of None \<Rightarrow> [] | Some nd \<Rightarrow> node_entries nd)"

lemma leaf_cell_entries: "leaf_cell p kvs nd \<Longrightarrow> node_entries nd = kvs"
  by (auto simp: leaf_cell_def node_entries_def zip_map_fst_snd)

lemma entries_at_leaves: "rep m p t \<Longrightarrow> concat (map (entries_at m) (leaf_addrs t)) = entries t"
proof (induction t arbitrary: p)
  case (Nd a ks ts)
  have "concat (map (entries_at m) (leaf_addrs t)) = entries t" if "t \<in> set ts" for t
    using Nd.IH [OF that] Nd.prems that by auto
  then have "\<forall>t \<in> set ts. concat (map (entries_at m) (leaf_addrs t)) = entries t" by blast
  then have "concat (map (entries_at m) (concat (map leaf_addrs ts))) = concat (map entries ts)"
    by (induction ts) auto
  then show ?case by simp
qed (auto simp: entries_at_def leaf_cell_entries)

lemma scan_chained:
  "chained (cells h) (a # as) \<Longrightarrow> length as < fuel \<Longrightarrow>
   scan_leaves (Suc fuel) h (Some a) = Some (concat (map (entries_at (cells h)) (a # as)))"
proof (induction as arbitrary: a fuel)
  case Nil
  then show ?case by (cases fuel) (auto simp: entries_at_def)
next
  case (Cons b as)
  then obtain fuel' where fuel: "fuel = Suc fuel'" "length as < fuel'" by (cases fuel) auto
  have "scan_leaves fuel h (Some b) = Some (concat (map (entries_at (cells h)) (b # as)))"
    using Cons fuel by (simp del: scan_leaves.simps)
  moreover obtain nd where "cells h a = Some nd" "next_leaf nd = Some b" using Cons.prems by auto
  moreover from this have "entries_at (cells h) a = node_entries nd" by (simp add: entries_at_def)
  ultimately show ?case by simp
qed

lemma leaf_addrs_length: "length (leaf_addrs t) \<le> length (addrs t)"
proof (induction t)
  case (Nd a ks ts)
  then have "sum_list (map (\<lambda>t. length (leaf_addrs t)) ts) \<le> sum_list (map (\<lambda>t. length (addrs t)) ts)"
    by (intro sum_list_mono)
  then show ?case by (simp add: length_concat comp_def)
qed simp

lemma leaf_addrs_ne: "shape n t \<Longrightarrow> leaf_addrs t \<noteq> []"
proof (induction t arbitrary: n)
  case (Nd a ks ts)
  then show ?case by (cases ts) auto
qed simp

lemma owns_leaf_chain:
  assumes "bp_owns h (Some r) m"
  shows "\<exists>first kvs. scan_leaves (Suc (fresh h)) h (Some first) = Some kvs \<and>
     sorted_wrt (<) (map fst kvs) \<and> map_of kvs = m"
proof -
  obtain t n where t: "bp_inv h (Some r) t" "shape n t" "m = map_of (entries t)"
    using owns_tree [OF assms] by metis
  obtain a as where as: "leaf_addrs t = a # as" using leaf_addrs_ne [OF t(2)] by (cases "leaf_addrs t") auto
  have "length as < fresh h"
    using leaf_addrs_length [of t] distinct_below [of "addrs t" "fresh h"] t(1) as
    by (auto simp: bp_inv_def node_sets_ok_def)
  then have "scan_leaves (Suc (fresh h)) h (Some a) = Some (entries t)"
    using scan_chained [of h a as "fresh h"] entries_at_leaves [of "cells h" None t] t(1) as
    by (simp add: bp_inv_def del: scan_leaves.simps)
  moreover have "sorted_wrt (<) (map fst (entries t))" using t(1) ordered_keys by (simp add: bp_inv_def)
  ultimately show ?thesis using t(3) by blast
qed

section \<open>Properties\<close>

definition empty_heap :: "(nat \<Rightarrow> bool) \<Rightarrow> bp_heap" where
  "empty_heap ok = \<lparr>cells = Map.empty, fresh = 0, calloc_ok = ok\<rparr>"

lemma owns_empty: "bp_owns (empty_heap ok) None Map.empty"
  by (simp add: bp_owns_def empty_heap_def)

lemma memory_empty: "bp_memory (empty_heap (\<lambda>i. True))"
  by (simp add: bp_memory_def empty_heap_def)

text \<open>
  C7: building the index from any sequence of entries with distinct ids succeeds (every
  pointer dereference and array access is in bounds, every loop ends), and afterwards a
  search returns exactly the stored row slot, or \<^verbatim>\<open>FAILURE\<close> for an absent id.
\<close>

theorem bptree_load_then_search:
  assumes "distinct (map fst kvs)"
  shows "\<exists>h root. insert_all bptree_insert (empty_heap (\<lambda>i. True)) None kvs = Some (h, root, SUCCESS) \<and>
     (\<forall>key. bptree_search h root key = Some (map_of kvs key))"
  by (rule bp.load_then_find [OF owns_empty memory_empty assms])

theorem bptree_load_then_search_witness:
  "\<exists>h root. insert_all bptree_insert (empty_heap (\<lambda>i. True)) None [(2, 0), (1, 1)] = Some (h, root, SUCCESS) \<and>
     (\<forall>key. bptree_search h root key = Some (map_of [(2, 0), (1, 1)] key))"
  using bptree_load_then_search [of "[(2, 0), (1, 1)]"] by simp

text \<open>
  C8: on a well-formed tree that owns its heap, inserting an absent id succeeds, updates
  the represented map at that id only, and keeps the invariant: order, balance, occupancy,
  parent pointers, leaf chain, and no node outside the tree.
\<close>

theorem bptree_insert_refines_update:
  assumes "bp_owns h root m" "bp_memory h" "m key = None"
  shows "\<exists>h' root'. bptree_insert h root key row = Some (h', root', SUCCESS) \<and>
     bp_owns h' root' (m(key \<mapsto> row)) \<and> bp_memory h'"
  by (rule owns_insert_new [OF assms])

theorem bptree_insert_refines_update_witness:
  "\<exists>h' root'. bptree_insert (empty_heap (\<lambda>i. True)) None 7 0 = Some (h', root', SUCCESS) \<and>
     bp_owns h' root' (Map.empty(7 \<mapsto> 0)) \<and> bp_memory h'"
  using bptree_insert_refines_update [OF owns_empty memory_empty, of 7 0] by simp

text \<open>
  Inserting an id that is present returns \<^verbatim>\<open>FAILURE\<close> and leaves heap and root
  as they were.
\<close>

theorem bptree_insert_rejects_duplicate:
  assumes "bp_owns h root m" "m key \<noteq> None"
  shows "bptree_insert h root key row = Some (h, root, FAILURE)"
  by (rule owns_insert_present [OF assms])

definition one_leaf_heap :: bp_heap where
  "one_leaf_heap = \<lparr>cells = [0 \<mapsto> (zero_node True)\<lparr>keys := (replicate 31 0)[0 := 7], key_count := 1\<rparr>],
     fresh = 1, calloc_ok = (\<lambda>i. True)\<rparr>"

lemma one_leaf_owns: "bp_owns one_leaf_heap (Some 0) [7 \<mapsto> 0]"
  unfolding bp_owns_def
  by (simp add: one_leaf_heap_def bp_inv_def ordered_def node_sets_ok_def leaf_cell_def wf_arrays_def
      zero_node_def BPTREE_MAX_KEYS_def numeral_eq_Suc exI [of _ "Lf 0 [(7, 0)]"])

theorem bptree_insert_rejects_duplicate_witness:
  "bptree_insert one_leaf_heap (Some 0) 7 5 = Some (one_leaf_heap, Some 0, FAILURE)"
  using bptree_insert_rejects_duplicate [OF one_leaf_owns, of 7 5] by simp

text \<open>
  \<^verbatim>\<open>bptree_free\<close> on an owned tree releases every node exactly once: no node is
  read after it was freed, and no node stays allocated.
\<close>

theorem bptree_free_releases_all:
  assumes "bp_owns h root m"
  shows "\<exists>h'. bptree_free (Suc (2 * fresh h)) h root = Some h' \<and> cells h' = Map.empty"
  using owns_free [OF assms] by blast

theorem bptree_free_releases_all_witness:
  "\<exists>h'. bptree_free (Suc (2 * fresh one_leaf_heap)) one_leaf_heap (Some 0) = Some h' \<and> cells h' = Map.empty"
  using bptree_free_releases_all [OF one_leaf_owns] .

text \<open>
  C40: a lookup descends through at most eight nodes, whatever the up to \<open>2\<^sup>3\<^sup>1 - 1\<close> rows the
  table can number: the walk of \<^verbatim>\<open>bptree_find_leaf\<close> ends within eight steps.
\<close>

theorem bptree_lookup_depth:
  assumes "bp_owns h (Some r) m" "card (dom m) < 2 ^ 31"
  shows "\<exists>a. bptree_find_leaf 8 h (Some r) key = Some (Some a)"
  by (rule owns_height [OF assms])

theorem bptree_lookup_depth_witness: "\<exists>a. bptree_find_leaf 8 one_leaf_heap (Some 0) 3 = Some (Some a)"
  by (rule bptree_lookup_depth [OF one_leaf_owns]) simp

text \<open>
  C39: following the \<^verbatim>\<open>next\<close> pointers from the first leaf enumerates all entries of the
  index in ascending id order.
\<close>

theorem bptree_leaf_chain_sorted:
  assumes "bp_owns h (Some r) m"
  shows "\<exists>first kvs. scan_leaves (Suc (fresh h)) h (Some first) = Some kvs \<and>
     sorted_wrt (<) (map fst kvs) \<and> map_of kvs = m"
  by (rule owns_leaf_chain [OF assms])

theorem bptree_leaf_chain_sorted_witness:
  "\<exists>first kvs. scan_leaves (Suc (fresh one_leaf_heap)) one_leaf_heap (Some first) = Some kvs \<and>
     sorted_wrt (<) (map fst kvs) \<and> map_of kvs = [7 \<mapsto> 0]"
  by (rule bptree_leaf_chain_sorted [OF one_leaf_owns])

text \<open>
  When the allocation of a new root fails, \<^verbatim>\<open>bptree_split_leaf\<close> has already moved the
  upper half of the leaf to a sibling that nothing points to from above: the insertion
  reports \<^verbatim>\<open>FAILURE\<close>, and ids that were stored before (17 of the ids 1 to 31) are no longer
  found, although 16 still is.
\<close>

definition failed_split :: "(status \<times> status \<times> int option \<times> int option) option" where
  "failed_split = do {
     (h, r, st) \<leftarrow> insert_all bptree_insert (empty_heap (\<lambda>i. i < 2)) None
        (map (\<lambda>i. (int (Suc i), int i)) [0..<31]);
     (h', r', st') \<leftarrow> bptree_insert h r 32 31;
     kept \<leftarrow> bptree_search h' r' 16;
     lost \<leftarrow> bptree_search h' r' 17;
     Some (st, st', kept, lost)
   }"

theorem bptree_split_out_of_memory_loses_ids:
  "failed_split = Some (SUCCESS, FAILURE, Some 15, None)"
  by code_simp

end
