(* ===== verification/Utils.thy ===== *)
theory Utils
  imports Prelude "HOL-Library.Word"
begin

text \<open>
  The helpers of \<^verbatim>\<open>src/common/utils.c\<close> and the functions of the C library they and
  their callers use (C locale).  A C string is the list of its characters before the
  terminating NUL; a pointer into a string is the suffix it points at, so reading one
  character past the last one is reading the NUL, the empty suffix.  The early returns
  for NULL arguments have no counterpart, because a \<open>string\<close> is never NULL; where NULL
  is a result it is \<open>None\<close>.  The bytes of a string are \<open>char\<close>s, with \<open>byte_of\<close> their
  unsigned value.
\<close>

section \<open>Character classes\<close>

abbreviation byte_of :: "char \<Rightarrow> nat" where
  "byte_of c \<equiv> of_char c"

abbreviation QUOTE :: char where "QUOTE \<equiv> CHR 0x27"
abbreviation DQUOTE :: char where "DQUOTE \<equiv> CHR 0x22"
abbreviation BACKSLASH :: char where "BACKSLASH \<equiv> CHR 0x5C"
abbreviation NL :: char where "NL \<equiv> CHR 0x0A"
abbreviation CR :: char where "CR \<equiv> CHR 0x0D"
abbreviation TAB :: char where "TAB \<equiv> CHR 0x09"
abbreviation NUL :: char where "NUL \<equiv> CHR 0x00"

definition is_space :: "char \<Rightarrow> bool" where
  "is_space c \<longleftrightarrow> byte_of c = 32 \<or> 9 \<le> byte_of c \<and> byte_of c \<le> 13"

definition is_digit :: "char \<Rightarrow> bool" where
  "is_digit c \<longleftrightarrow> 48 \<le> byte_of c \<and> byte_of c \<le> 57"

definition is_lower :: "char \<Rightarrow> bool" where
  "is_lower c \<longleftrightarrow> 97 \<le> byte_of c \<and> byte_of c \<le> 122"

definition is_upper :: "char \<Rightarrow> bool" where
  "is_upper c \<longleftrightarrow> 65 \<le> byte_of c \<and> byte_of c \<le> 90"

definition is_alpha :: "char \<Rightarrow> bool" where
  "is_alpha c \<longleftrightarrow> is_upper c \<or> is_lower c"

definition is_alnum :: "char \<Rightarrow> bool" where
  "is_alnum c \<longleftrightarrow> is_alpha c \<or> is_digit c"

definition to_upper :: "char \<Rightarrow> char" where
  "to_upper c = (if is_lower c then char_of (byte_of c - 32) else c)"

lemmas ctype_defs = is_space_def is_digit_def is_lower_def is_upper_def is_alpha_def is_alnum_def

section \<open>String functions of the C library\<close>

text \<open>\<^verbatim>\<open>strcmp\<close>, reduced to the sign of its result, which is all its callers use.\<close>

fun strcmp :: "string \<Rightarrow> string \<Rightarrow> int" where
  "strcmp [] [] = 0"
| "strcmp [] (d # ds) = -1"
| "strcmp (c # cs) [] = 1"
| "strcmp (c # cs) (d # ds) =
     (if byte_of c < byte_of d then -1 else if byte_of d < byte_of c then 1 else strcmp cs ds)"

definition LLONG_MAX :: int where "LLONG_MAX = 2 ^ 63 - 1"
definition LLONG_MIN :: int where "LLONG_MIN = - (2 ^ 63)"

fun digits_value :: "int \<Rightarrow> string \<Rightarrow> int" where
  "digits_value acc [] = acc"
| "digits_value acc (c # cs) =
     (if is_digit c then digits_value (10 * acc + int (byte_of c - 48)) cs else acc)"

definition clamp :: "int \<Rightarrow> int" where
  "clamp n = (if n < LLONG_MIN then LLONG_MIN else if LLONG_MAX < n then LLONG_MAX else n)"

text \<open>\<^verbatim>\<open>strtoll(text, NULL, 10)\<close>: leading white space, a sign, digits, saturating.\<close>

definition strtoll :: "string \<Rightarrow> int" where
  "strtoll text =
     (case dropWhile is_space text of
        [] \<Rightarrow> 0
      | c # cs \<Rightarrow> clamp (if c = CHR ''-'' then - digits_value 0 cs
                        else if c = CHR ''+'' then digits_value 0 cs
                        else digits_value 0 (c # cs)))"

text \<open>\<^verbatim>\<open>strstr\<close>: the suffix at the first occurrence.\<close>

fun prefix_of :: "string \<Rightarrow> string \<Rightarrow> bool" where
  "prefix_of [] ys = True"
| "prefix_of (x # xs) [] = False"
| "prefix_of (x # xs) (y # ys) \<longleftrightarrow> x = y \<and> prefix_of xs ys"

fun strstr :: "string \<Rightarrow> string \<Rightarrow> string option" where
  "strstr [] pat = (if pat = [] then Some [] else None)"
| "strstr (c # cs) pat = (if prefix_of pat (c # cs) then Some (c # cs) else strstr cs pat)"

text \<open>The bytes before the first NUL are what the string functions see.\<close>

definition c_string :: "string \<Rightarrow> string" where
  "c_string bytes = takeWhile (\<lambda>c. c \<noteq> NUL) bytes"

text \<open>\<^verbatim>\<open>snprintf\<close> into a buffer of \<open>n\<close> bytes.\<close>

definition snprintf :: "nat \<Rightarrow> string \<Rightarrow> string" where
  "snprintf n text = take (n - 1) text"

section \<open>utils.c\<close>

text \<open>
  \<^verbatim>\<open>utils_safe_strcpy\<close> returns the new contents of the destination buffer together with
  the status; \<^verbatim>\<open>snprintf\<close> cuts what does not fit.
\<close>

definition utils_safe_strcpy :: "string \<Rightarrow> nat \<Rightarrow> string \<Rightarrow> string \<times> status" where
  "utils_safe_strcpy dest dest_size src =
     (if dest_size = 0 then (dest, FAILURE)
      else (take (dest_size - 1) src, if dest_size \<le> length src then FAILURE else SUCCESS))"

fun trim_end :: "string \<Rightarrow> nat \<Rightarrow> string" where
  "trim_end text 0 = text"
| "trim_end text (Suc n) = (if is_space (text ! n) then trim_end (take n text) n else text)"

fun trim_start :: "string \<Rightarrow> string" where
  "trim_start [] = []"
| "trim_start (c # cs) = (if is_space c then trim_start cs else c # cs)"

definition utils_trim :: "string \<Rightarrow> string" where
  "utils_trim text = trim_start (trim_end text (length text))"

text \<open>\<^verbatim>\<open>utils_to_upper_copy\<close>; \<open>None\<close> is \<^verbatim>\<open>FAILURE\<close>, with an unusable destination.\<close>

fun upper_loop :: "nat \<Rightarrow> nat \<Rightarrow> string \<Rightarrow> string option" where
  "upper_loop dest_size i [] = Some []"
| "upper_loop dest_size i (c # cs) =
     (if dest_size \<le> i + 1 then None
      else do { rest \<leftarrow> upper_loop dest_size (i + 1) cs; Some (to_upper c # rest) })"

definition utils_to_upper_copy :: "string \<Rightarrow> nat \<Rightarrow> string option" where
  "utils_to_upper_copy src dest_size = (if dest_size = 0 then None else upper_loop dest_size 0 src)"

fun utils_equals_ignore_case :: "string \<Rightarrow> string \<Rightarrow> bool" where
  "utils_equals_ignore_case (c # cs) (d # ds) \<longleftrightarrow>
     to_upper c = to_upper d \<and> utils_equals_ignore_case cs ds"
| "utils_equals_ignore_case lhs rhs \<longleftrightarrow> lhs = [] \<and> rhs = []"

definition sql_keywords :: "string list" where
  "sql_keywords = [''INSERT'', ''SELECT'', ''DELETE'', ''INTO'', ''FROM'', ''WHERE'', ''VALUES'']"

definition utils_is_sql_keyword :: "string \<Rightarrow> bool" where
  "utils_is_sql_keyword text \<longleftrightarrow> list_ex (utils_equals_ignore_case text) sql_keywords"

definition utils_is_integer :: "string \<Rightarrow> bool" where
  "utils_is_integer text =
     (case text of
        [] \<Rightarrow> False
      | c # cs \<Rightarrow> if c = CHR ''-'' \<or> c = CHR ''+'' then cs \<noteq> [] \<and> list_all is_digit cs
                 else list_all is_digit (c # cs))"

definition utils_parse_integer :: "string \<Rightarrow> int" where
  "utils_parse_integer text = strtoll text"

definition utils_compare_values :: "string \<Rightarrow> string \<Rightarrow> int" where
  "utils_compare_values lhs rhs =
     (if utils_is_integer lhs \<and> utils_is_integer rhs
      then (let l = utils_parse_integer lhs; r = utils_parse_integer rhs in
            if l < r then -1 else if r < l then 1 else 0)
      else strcmp lhs rhs)"

text \<open>
  \<^verbatim>\<open>utils_find_statement_terminator\<close>, reading the suffix at \<^verbatim>\<open>start_index\<close>; the result
  is the index counted from the start of the text, \<open>None\<close> is \<^verbatim>\<open>FAILURE\<close>.
\<close>

fun terminator_loop :: "bool \<Rightarrow> nat \<Rightarrow> string \<Rightarrow> nat option" where
  "terminator_loop in_quotes i [] = None"
| "terminator_loop in_quotes i [c] =
     (if c = QUOTE then None else if \<not> in_quotes \<and> c = CHR '';'' then Some i else None)"
| "terminator_loop in_quotes i (c # d # cs) =
     (if c = QUOTE
      then (if in_quotes \<and> d = QUOTE then terminator_loop in_quotes (i + 2) cs
            else terminator_loop (\<not> in_quotes) (i + 1) (d # cs))
      else if \<not> in_quotes \<and> c = CHR '';'' then Some i
      else terminator_loop in_quotes (i + 1) (d # cs))"

definition utils_find_statement_terminator :: "string \<Rightarrow> nat \<Rightarrow> nat option" where
  "utils_find_statement_terminator text start_index = terminator_loop False start_index (drop start_index text)"

definition utils_has_statement_terminator :: "string \<Rightarrow> bool" where
  "utils_has_statement_terminator text \<longleftrightarrow> utils_find_statement_terminator text 0 \<noteq> None"

text \<open>\<^verbatim>\<open>utils_substring\<close>; copying beyond the end of the text is undefined.\<close>

definition utils_substring :: "string \<Rightarrow> nat \<Rightarrow> nat \<Rightarrow> string option" where
  "utils_substring text start len =
     (if start + len \<le> length text then Some (take len (drop start text)) else None)"

text \<open>
  The growing buffer of \<^verbatim>\<open>utils_append_buffer\<close>: the contents (\<open>None\<close> for the NULL
  pointer) and the capacity; the length is the length of the contents.  The doubling loop
  never ends on a capacity of 0, which is the result \<open>None\<close>.
\<close>

function grow_capacity :: "nat \<Rightarrow> nat \<Rightarrow> nat option" where
  "grow_capacity required cap =
     (if cap < required then (if cap = 0 then None else grow_capacity required (cap * 2)) else Some cap)"
  by pat_completeness auto
termination
  by (relation "measure (\<lambda>(required, cap). required - cap)") auto

declare grow_capacity.simps [simp del]

type_synonym text_buffer = "string option \<times> nat"

definition utils_append_buffer :: "text_buffer \<Rightarrow> string \<Rightarrow> text_buffer option" where
  "utils_append_buffer b suffix =
     (let (content, cap) = (case b of (None, cap) \<Rightarrow> ([], length suffix + 64) | (Some s, cap) \<Rightarrow> (s, cap));
          required = length content + length suffix + 1 in
      do {
        cap' \<leftarrow> (if cap < required then grow_capacity required cap else Some cap);
        Some (Some (content @ suffix), cap')
      })"

lemma snprintf_fits: "length s < n \<Longrightarrow> snprintf n s = s"
  by (simp add: snprintf_def)

section \<open>Trimming\<close>

lemma trim_end_eq: "n \<le> length text \<Longrightarrow> trim_end (take n text) n = rev (dropWhile is_space (rev (take n text)))"
proof (induction n)
  case (Suc n)
  have "take (Suc n) text = take n text @ [text ! n]" using Suc.prems by (simp add: take_Suc_conv_app_nth)
  then show ?case using Suc by (simp add: nth_append)
qed simp

lemma trim_start_eq: "trim_start text = dropWhile is_space text"
  by (induction "text") auto

lemma utils_trim_eq: "utils_trim text = dropWhile is_space (rev (dropWhile is_space (rev text)))"
  using trim_end_eq [of "length text" "text"] by (simp add: utils_trim_def trim_start_eq)

lemma dropWhile_hd: "dropWhile P xs = y # ys \<Longrightarrow> \<not> P y"
  using hd_dropWhile [of P xs] by simp

lemma trim_starts: "utils_trim text = c # cs \<Longrightarrow> \<not> is_space c"
  unfolding utils_trim_eq by (rule dropWhile_hd)

lemma trim_ends: "utils_trim text \<noteq> [] \<Longrightarrow> \<not> is_space (last (utils_trim text))"
proof -
  assume ne: "utils_trim text \<noteq> []"
  let ?r = "rev (dropWhile is_space (rev text))"
  have eq: "utils_trim text = dropWhile is_space ?r" by (simp add: utils_trim_eq)
  have "last (utils_trim text) = last ?r"
    using ne unfolding eq by (metis append_is_Nil_conv last_appendR takeWhile_dropWhile_id)
  moreover have ne': "dropWhile is_space (rev text) \<noteq> []" using ne unfolding eq by (metis dropWhile.simps(1) rev.simps(1))
  ultimately show ?thesis using hd_dropWhile [OF ne'] by (simp add: last_rev)
qed

lemma trim_fixed:
  assumes "text = [] \<or> \<not> is_space (hd text) \<and> \<not> is_space (last text)"
  shows "utils_trim text = text"
proof (cases "text = []")
  case False
  then have "dropWhile is_space (rev text) = rev text"
    using assms by (cases "rev text") (auto simp: hd_rev [symmetric])
  moreover have "dropWhile is_space text = text" using False assms by (cases "text") auto
  ultimately show ?thesis by (simp add: utils_trim_eq)
qed (simp add: utils_trim_eq)

lemma trim_idem: "utils_trim (utils_trim text) = utils_trim text"
proof (rule trim_fixed)
  show "utils_trim text = [] \<or> \<not> is_space (hd (utils_trim text)) \<and> \<not> is_space (last (utils_trim text))"
    using trim_starts [of "text"] trim_ends [of "text"] by (cases "utils_trim text") auto
qed

section \<open>Case folding and keywords\<close>

lemma to_upper_idem [simp]: "to_upper (to_upper c) = to_upper c"
proof (cases "is_lower c")
  case True
  then have "byte_of c - 32 < 256" by (auto simp: is_lower_def)
  then have "byte_of (char_of (byte_of c - 32)) = byte_of c - 32" by (simp only: of_char_of mod_less)
  then show ?thesis using True by (auto simp: to_upper_def is_lower_def)
qed (simp add: to_upper_def)

lemma equals_ignore_case_iff: "utils_equals_ignore_case lhs rhs \<longleftrightarrow> map to_upper lhs = map to_upper rhs"
  by (induction lhs rhs rule: utils_equals_ignore_case.induct) auto

lemma to_upper_plain: "\<not> is_alpha c \<Longrightarrow> to_upper d = c \<longleftrightarrow> d = c"
proof
  assume c: "\<not> is_alpha c" and up: "to_upper d = c"
  have "\<not> is_lower d"
  proof
    assume low: "is_lower d"
    then have "byte_of (to_upper d) = byte_of d - 32" by (auto simp: to_upper_def is_lower_def)
    then have "is_upper c" using low up by (auto simp: is_lower_def is_upper_def)
    then show False using c by (simp add: is_alpha_def)
  qed
  then show "d = c" using up by (simp add: to_upper_def)
qed (simp add: to_upper_def is_alpha_def)

text \<open>The comparison only folds letters, so a line break or a space has to be in both texts.\<close>

lemma equals_ignore_plain:
  assumes "utils_equals_ignore_case a b" "c \<in> set a" "\<not> is_alpha c"
  shows "c \<in> set b"
proof -
  have "to_upper c \<in> to_upper ` set b" using assms(1,2) unfolding equals_ignore_case_iff by (metis imageI set_map)
  then show ?thesis using to_upper_plain [OF assms(3)] by (metis imageE)
qed

lemma upper_loop_eq: "i + length src < dest_size \<Longrightarrow> upper_loop dest_size i src = Some (map to_upper src)"
  by (induction src arbitrary: i) auto

lemma upper_copy_eq: "length src < dest_size \<Longrightarrow> utils_to_upper_copy src dest_size = Some (map to_upper src)"
  by (simp add: utils_to_upper_copy_def upper_loop_eq)

lemma upper_loop_length: "upper_loop dest_size i src = Some u \<Longrightarrow> u = map to_upper src"
  by (induction src arbitrary: i u) (auto split: if_splits simp: bind_eq_Some_conv)

lemma keyword_iff: "utils_is_sql_keyword text \<longleftrightarrow> map to_upper text \<in> set sql_keywords"
proof -
  have up: "map to_upper k = k" if "k \<in> set sql_keywords" for k
    using that by (auto simp: sql_keywords_def to_upper_def is_lower_def)
  have "utils_is_sql_keyword text \<longleftrightarrow> (\<exists>k \<in> set sql_keywords. map to_upper text = map to_upper k)"
    by (simp add: utils_is_sql_keyword_def list_ex_iff equals_ignore_case_iff)
  also have "\<dots> \<longleftrightarrow> map to_upper text \<in> set sql_keywords" using up by auto
  finally show ?thesis .
qed

section \<open>Comparison of values\<close>

lemma strcmp_range: "strcmp a b \<in> {-1, 0, 1}"
  by (induction a b rule: strcmp.induct) auto

lemma strcmp_zero: "strcmp a b = 0 \<longleftrightarrow> a = b"
  by (induction a b rule: strcmp.induct) auto

lemma strcmp_flip: "strcmp b a = - strcmp a b"
  by (induction a b rule: strcmp.induct) auto

lemma strcmp_trans: "strcmp a b < 0 \<Longrightarrow> strcmp b c < 0 \<Longrightarrow> strcmp a c < 0"
proof (induction a c arbitrary: b rule: strcmp.induct)
  case (1 b)
  then show ?case by (cases b) auto
next
  case (3 c cs)
  then show ?case by (cases b) auto
next
  case (4 c cs d ds)
  then obtain e es where "b = e # es" by (cases b) auto
  with 4 show ?case by (auto split: if_splits)
qed simp

lemma compare_values_flip: "utils_compare_values b a = - utils_compare_values a b"
  using strcmp_flip [of b a] by (auto simp: utils_compare_values_def Let_def)

lemma compare_values_refl [simp]: "utils_compare_values a a = 0"
  using strcmp_zero [of a a] by (simp add: utils_compare_values_def)

section \<open>The statement terminator\<close>

text \<open>
  A reference: the first semicolon with an even number of quotes before it.  A doubled
  quote inside a literal toggles twice, so the scanner needs no look-ahead.
\<close>

fun first_outside :: "bool \<Rightarrow> nat \<Rightarrow> string \<Rightarrow> nat option" where
  "first_outside q i [] = None"
| "first_outside q i (c # cs) =
     (if \<not> q \<and> c = CHR '';'' then Some i else first_outside (if c = QUOTE then \<not> q else q) (Suc i) cs)"

lemma terminator_loop_eq: "terminator_loop q i cs = first_outside q i cs"
  by (induction q i cs rule: terminator_loop.induct) auto

definition quotes :: "string \<Rightarrow> nat" where
  "quotes cs = length (filter (\<lambda>c. c = QUOTE) cs)"

text \<open>A semicolon at distance \<open>n - i\<close> is the first one outside quotes.\<close>

definition outside_at :: "bool \<Rightarrow> nat \<Rightarrow> string \<Rightarrow> nat \<Rightarrow> bool" where
  "outside_at q i cs n \<longleftrightarrow>
     (\<exists>pre post. cs = pre @ CHR '';'' # post \<and> n = i + length pre \<and> (even (quotes pre) \<longleftrightarrow> \<not> q) \<and>
        (\<forall>p r. pre = p @ CHR '';'' # r \<longrightarrow> (even (quotes p) \<longleftrightarrow> q)))"

lemma outside_here: "outside_at False i (CHR '';'' # cs) n \<longleftrightarrow> n = i"
proof
  assume "outside_at False i (CHR '';'' # cs) n"
  then obtain pre post where pre: "CHR '';'' # cs = pre @ CHR '';'' # post" "n = i + length pre"
    "\<forall>p r. pre = p @ CHR '';'' # r \<longrightarrow> odd (quotes p)" by (auto simp: outside_at_def)
  show "n = i"
  proof (cases pre)
    case (Cons d ds)
    then have "pre = [] @ CHR '';'' # ds" using pre(1) by simp
    then show ?thesis using pre(3) by (force simp: quotes_def)
  qed (use pre in simp)
next
  assume "n = i"
  then show "outside_at False i (CHR '';'' # cs) n"
    unfolding outside_at_def by (intro exI [of _ "[]"] exI [of _ cs]) (simp add: quotes_def)
qed

lemma quotes_parity: "even (quotes (c # xs)) \<longleftrightarrow> (if c = QUOTE then odd (quotes xs) else even (quotes xs))"
  by (simp add: quotes_def)

lemma outside_later:
  assumes "q \<or> c \<noteq> CHR '';''"
  shows "outside_at q i (c # cs) n \<longleftrightarrow> outside_at (if c = QUOTE then \<not> q else q) (Suc i) cs n" (is "?A \<longleftrightarrow> ?B")
proof
  let ?q = "if c = QUOTE then \<not> q else q"
  assume ?A
  then obtain pre post where pre: "c # cs = pre @ CHR '';'' # post" "n = i + length pre"
    "even (quotes pre) \<longleftrightarrow> \<not> q" "\<And>p r. pre = p @ CHR '';'' # r \<Longrightarrow> even (quotes p) \<longleftrightarrow> q"
    unfolding outside_at_def by blast
  obtain ds where ds: "pre = c # ds" using pre(1,3) assms by (cases pre) (auto simp: quotes_def)
  have "even (quotes p) \<longleftrightarrow> ?q" if "ds = p @ CHR '';'' # r" for p r
    using pre(4) [of "c # p" r] that quotes_parity [of c p] ds by auto
  then show ?B unfolding outside_at_def using pre ds quotes_parity [of c ds] by (intro exI [of _ ds] exI [of _ post]) auto
next
  let ?q = "if c = QUOTE then \<not> q else q"
  assume ?B
  then obtain pre post where pre: "cs = pre @ CHR '';'' # post" "n = Suc i + length pre"
    "even (quotes pre) \<longleftrightarrow> \<not> ?q" "\<And>p r. pre = p @ CHR '';'' # r \<Longrightarrow> even (quotes p) \<longleftrightarrow> ?q"
    unfolding outside_at_def by blast
  have "even (quotes p) \<longleftrightarrow> q" if p: "c # pre = p @ CHR '';'' # r" for p r
  proof (cases p)
    case Nil
    then show ?thesis using p assms by (simp add: quotes_def)
  next
    case (Cons d ds)
    then show ?thesis using p pre(4) [of ds r] quotes_parity [of c ds] by (auto split: if_splits)
  qed
  then show ?A unfolding outside_at_def using pre quotes_parity [of c pre]
    by (intro exI [of _ "c # pre"] exI [of _ post]) (auto split: if_splits)
qed

lemma first_outside_at: "first_outside q i cs = Some n \<longleftrightarrow> outside_at q i cs n"
proof (induction q i cs rule: first_outside.induct)
  case (1 q i)
  then show ?case by (simp add: outside_at_def)
next
  case (2 q i c cs)
  then show ?case using outside_here [of i cs n] outside_later [of q c i cs n] by (cases "\<not> q \<and> c = CHR '';''") auto
qed

lemmas first_outside_Some = first_outside_at [unfolded outside_at_def]

lemma find_terminator_iff:
  "utils_find_statement_terminator text start = Some n \<longleftrightarrow>
     (\<exists>pre post. drop start text = pre @ CHR '';'' # post \<and> n = start + length pre \<and> even (quotes pre) \<and>
        (\<forall>p r. pre = p @ CHR '';'' # r \<longrightarrow> odd (quotes p)))"
  by (simp add: utils_find_statement_terminator_def terminator_loop_eq first_outside_Some)

section \<open>The growing buffer\<close>

lemma grow_capacity_ok:
  assumes "0 < cap"
  shows "\<exists>cap'. grow_capacity required cap = Some cap' \<and> required \<le> cap' \<and> cap \<le> cap'"
  using assms
proof (induction required cap rule: grow_capacity.induct)
  case (1 required cap)
  show ?case
  proof (cases "cap < required")
    case True
    then obtain cap' where "grow_capacity required (cap * 2) = Some cap'" "required \<le> cap'" "cap * 2 \<le> cap'"
      using 1 by auto
    then show ?thesis using True 1 by (subst grow_capacity.simps) auto
  qed (simp add: grow_capacity.simps)
qed

definition buffer_text :: "text_buffer \<Rightarrow> string" where
  "buffer_text b = (case fst b of None \<Rightarrow> [] | Some s \<Rightarrow> s)"

definition buffer_ok :: "text_buffer \<Rightarrow> bool" where
  "buffer_ok b \<longleftrightarrow> (case fst b of None \<Rightarrow> True | Some s \<Rightarrow> length s < snd b)"

lemma append_buffer_ok:
  assumes "buffer_ok b"
  shows "\<exists>b'. utils_append_buffer b suffix = Some b' \<and> buffer_ok b' \<and> buffer_text b' = buffer_text b @ suffix \<and>
     fst b' \<noteq> None"
proof (cases "fst b")
  case None
  then obtain cap where "b = (None, cap)" by (cases b) auto
  then show ?thesis by (simp add: utils_append_buffer_def buffer_ok_def buffer_text_def)
next
  case (Some s)
  then obtain cap where b: "b = (Some s, cap)" by (cases b) auto
  then have "0 < cap" using assms by (auto simp: buffer_ok_def)
  then obtain cap' where "grow_capacity (length s + length suffix + 1) cap = Some cap'"
    "length s + length suffix + 1 \<le> cap'"
    using grow_capacity_ok by blast
  then show ?thesis by (auto simp: b utils_append_buffer_def buffer_ok_def buffer_text_def)
qed

section \<open>Properties\<close>

text \<open>
  The terminator found is the first semicolon at or after the start position with an even
  number of quotes between the start and it, so a semicolon inside a literal never ends a statement.
\<close>

theorem terminator_outside_quotes:
  "utils_find_statement_terminator txt start = Some n \<longleftrightarrow>
     (\<exists>pre post. drop start txt = pre @ CHR '';'' # post \<and> n = start + length pre \<and> even (quotes pre) \<and>
        (\<nexists>p r. pre = p @ CHR '';'' # r \<and> even (quotes p)))"
  unfolding find_terminator_iff by blast

text \<open>
  The comparison of values is not an order: integers are compared as numbers and anything
  else as text, so "9" is below "10", "10" below "1a" and "1a" below "9".  The sort and
  the binary search of the range index rely on an order.
\<close>

theorem compare_values_cycle:
  "utils_compare_values ''9'' ''10'' < 0 \<and> utils_compare_values ''10'' ''1a'' < 0 \<and> utils_compare_values ''1a'' ''9'' < 0"
  by code_simp

end
