(* ===== verification/Tokenizer.thy ===== *)
theory Tokenizer
  imports Utils
begin

text \<open>
  The tokenizer of \<^verbatim>\<open>src/db/tokenizer.c\<close>: the scanner over the SQL text and the
  cache of token arrays in front of it.  The scanner's index into the text is the suffix
  that remains; \<open>None\<close> is the NULL it returns on an error.  Token arrays handed out are
  copies, so they are values; the cache is the linked list of its entries, head first.
\<close>

section \<open>Tokens\<close>

datatype token_type = TOKEN_KEYWORD | TOKEN_IDENTIFIER | TOKEN_INT_LITERAL | TOKEN_STR_LITERAL
  | TOKEN_OPERATOR | TOKEN_LPAREN | TOKEN_RPAREN | TOKEN_COMMA | TOKEN_SEMICOLON | TOKEN_UNKNOWN

record token =
  tok_type :: token_type
  tok_value :: string

abbreviation mk_token :: "token_type \<Rightarrow> string \<Rightarrow> token" where
  "mk_token ty v \<equiv> \<lparr>tok_type = ty, tok_value = v\<rparr>"

definition tokenizer_token_type_name :: "token_type \<Rightarrow> string" where
  "tokenizer_token_type_name ty =
     (case ty of
        TOKEN_KEYWORD \<Rightarrow> ''KEYWORD''
      | TOKEN_IDENTIFIER \<Rightarrow> ''IDENTIFIER''
      | TOKEN_INT_LITERAL \<Rightarrow> ''INT_LITERAL''
      | TOKEN_STR_LITERAL \<Rightarrow> ''STR_LITERAL''
      | TOKEN_OPERATOR \<Rightarrow> ''OPERATOR''
      | TOKEN_LPAREN \<Rightarrow> ''LPAREN''
      | TOKEN_RPAREN \<Rightarrow> ''RPAREN''
      | TOKEN_COMMA \<Rightarrow> ''COMMA''
      | TOKEN_SEMICOLON \<Rightarrow> ''SEMICOLON''
      | TOKEN_UNKNOWN \<Rightarrow> ''UNKNOWN'')"

section \<open>Scanning\<close>

definition tokenizer_append_token :: "token list \<Rightarrow> token_type \<Rightarrow> string \<Rightarrow> token list option" where
  "tokenizer_append_token tokens ty value =
     (case utils_safe_strcpy [] MAX_TOKEN_VALUE value of
        (v, SUCCESS) \<Rightarrow> Some (tokens @ [mk_token ty v])
      | (v, FAILURE) \<Rightarrow> None)"

fun tokenizer_read_word :: "nat \<Rightarrow> string \<Rightarrow> string \<Rightarrow> (string \<times> string) option" where
  "tokenizer_read_word buffer_size buffer [] = Some (buffer, [])"
| "tokenizer_read_word buffer_size buffer (c # cs) =
     (if is_alnum c \<or> c = CHR ''_''
      then (if buffer_size \<le> length buffer + 1 then None
            else tokenizer_read_word buffer_size (buffer @ [c]) cs)
      else Some (buffer, c # cs))"

text \<open>The loop of \<^verbatim>\<open>tokenizer_read_string\<close>, entered behind the opening quote.\<close>

fun read_string_loop :: "nat \<Rightarrow> string \<Rightarrow> string \<Rightarrow> (string \<times> string) option" where
  "read_string_loop buffer_size buffer [] = None"
| "read_string_loop buffer_size buffer [c] =
     (if c = QUOTE then Some (buffer, []) else None)"
| "read_string_loop buffer_size buffer (c # d # cs) =
     (if c = QUOTE
      then (if d = QUOTE
            then (if buffer_size \<le> length buffer + 1 then None
                  else read_string_loop buffer_size (buffer @ [QUOTE]) cs)
            else Some (buffer, d # cs))
      else if buffer_size \<le> length buffer + 1 then None
      else read_string_loop buffer_size (buffer @ [c]) (d # cs))"

definition tokenizer_read_string :: "nat \<Rightarrow> string \<Rightarrow> (string \<times> string) option" where
  "tokenizer_read_string buffer_size sql = read_string_loop buffer_size [] (tl sql)"

fun read_digits :: "nat \<Rightarrow> string \<Rightarrow> string \<Rightarrow> (string \<times> string) option" where
  "read_digits buffer_size buffer [] = Some (buffer, [])"
| "read_digits buffer_size buffer (c # cs) =
     (if is_digit c
      then (if buffer_size \<le> length buffer + 1 then None
            else read_digits buffer_size (buffer @ [c]) cs)
      else Some (buffer, c # cs))"

definition tokenizer_read_number :: "nat \<Rightarrow> string \<Rightarrow> (string \<times> string) option" where
  "tokenizer_read_number buffer_size sql =
     (case sql of
        [] \<Rightarrow> read_digits buffer_size [] []
      | c # cs \<Rightarrow>
          if c = CHR ''-'' \<or> c = CHR ''+''
          then (if buffer_size \<le> 1 then None else read_digits buffer_size [c] cs)
          else read_digits buffer_size [] (c # cs))"

definition tokenizer_is_numeric_start :: "string \<Rightarrow> bool" where
  "tokenizer_is_numeric_start sql =
     (case sql of
        [] \<Rightarrow> False
      | c # cs \<Rightarrow> is_digit c \<or>
          (c = CHR ''-'' \<or> c = CHR ''+'') \<and> (case cs of [] \<Rightarrow> False | d # ds \<Rightarrow> is_digit d))"

definition is_operator_char :: "char \<Rightarrow> bool" where
  "is_operator_char c \<longleftrightarrow> c = CHR ''!'' \<or> c = CHR ''<'' \<or> c = CHR ''>'' \<or> c = CHR ''=''"

definition read_operator :: "string \<Rightarrow> string \<times> string" where
  "read_operator sql =
     (case sql of
        c # d # cs \<Rightarrow>
          if (c = CHR ''!'' \<or> c = CHR ''<'' \<or> c = CHR ''>'') \<and> d = CHR ''=''
          then ([c, CHR ''=''], cs) else ([c], d # cs)
      | cs \<Rightarrow> (cs, []))"

lemma read_word_rest: "tokenizer_read_word n b cs = Some (w, rest) \<Longrightarrow> length rest \<le> length cs"
  by (induction n b cs rule: tokenizer_read_word.induct) (auto split: if_splits)

lemma read_word_shrinks:
  "tokenizer_read_word n b (c # cs) = Some (w, rest) \<Longrightarrow> is_alpha c \<or> c = CHR ''_'' \<Longrightarrow>
   length rest < Suc (length cs)"
  using read_word_rest by (fastforce simp: is_alnum_def split: if_splits)

lemma read_string_rest: "read_string_loop n b cs = Some (w, rest) \<Longrightarrow> length rest \<le> length cs"
  by (induction n b cs rule: read_string_loop.induct) (auto split: if_splits)

lemma read_string_shrinks:
  "tokenizer_read_string n (c # cs) = Some (w, rest) \<Longrightarrow> length rest < Suc (length cs)"
  using read_string_rest [of n "[]" cs w rest] by (simp add: tokenizer_read_string_def)

lemma read_digits_rest: "read_digits n b cs = Some (w, rest) \<Longrightarrow> length rest \<le> length cs"
  by (induction n b cs rule: read_digits.induct) (auto split: if_splits)

lemma read_number_shrinks:
  "tokenizer_read_number n (c # cs) = Some (w, rest) \<Longrightarrow> tokenizer_is_numeric_start (c # cs) \<Longrightarrow>
   length rest < Suc (length cs)"
  using read_digits_rest
  by (fastforce simp: tokenizer_read_number_def tokenizer_is_numeric_start_def split: if_splits list.splits)

lemma read_operator_shrinks: "(v, rest) = read_operator (c # cs) \<Longrightarrow> length rest < Suc (length cs)"
  by (auto simp: read_operator_def split: list.splits if_splits)

text \<open>
  The loop of \<^verbatim>\<open>tokenizer_tokenize_sql\<close>: the tokens so far and the text that is left.
\<close>

function tokenize_loop :: "token list \<Rightarrow> string \<Rightarrow> token list option" where
  "tokenize_loop tokens [] = Some tokens"
| "tokenize_loop tokens (c # cs) =
     (if is_space c then tokenize_loop tokens cs
      else if c = CHR ''('' then do {
        ts \<leftarrow> tokenizer_append_token tokens TOKEN_LPAREN ''(''; tokenize_loop ts cs }
      else if c = CHR '')'' then do {
        ts \<leftarrow> tokenizer_append_token tokens TOKEN_RPAREN '')''; tokenize_loop ts cs }
      else if c = CHR '','' then do {
        ts \<leftarrow> tokenizer_append_token tokens TOKEN_COMMA '',''; tokenize_loop ts cs }
      else if c = CHR '';'' then do {
        ts \<leftarrow> tokenizer_append_token tokens TOKEN_SEMICOLON '';''; tokenize_loop ts cs }
      else if c = CHR ''*'' then do {
        ts \<leftarrow> tokenizer_append_token tokens TOKEN_IDENTIFIER ''*''; tokenize_loop ts cs }
      else if c = QUOTE then
        (case tokenizer_read_string MAX_TOKEN_VALUE (c # cs) of
           None \<Rightarrow> None
         | Some (value, rest) \<Rightarrow> do {
             ts \<leftarrow> tokenizer_append_token tokens TOKEN_STR_LITERAL value; tokenize_loop ts rest })
      else if is_operator_char c then
        (case read_operator (c # cs) of
           (value, rest) \<Rightarrow> do {
             ts \<leftarrow> tokenizer_append_token tokens TOKEN_OPERATOR value; tokenize_loop ts rest })
      else if tokenizer_is_numeric_start (c # cs) then
        (case tokenizer_read_number MAX_TOKEN_VALUE (c # cs) of
           None \<Rightarrow> None
         | Some (value, rest) \<Rightarrow> do {
             ts \<leftarrow> tokenizer_append_token tokens TOKEN_INT_LITERAL value; tokenize_loop ts rest })
      else if is_alpha c \<or> c = CHR ''_'' then
        (case tokenizer_read_word MAX_TOKEN_VALUE [] (c # cs) of
           None \<Rightarrow> None
         | Some (value, rest) \<Rightarrow>
             if utils_is_sql_keyword value then do {
               upper \<leftarrow> utils_to_upper_copy value MAX_TOKEN_VALUE;
               ts \<leftarrow> tokenizer_append_token tokens TOKEN_KEYWORD upper;
               tokenize_loop ts rest }
             else do {
               ts \<leftarrow> tokenizer_append_token tokens TOKEN_IDENTIFIER value; tokenize_loop ts rest })
      else do {
        ts \<leftarrow> tokenizer_append_token tokens TOKEN_UNKNOWN [c]; tokenize_loop ts cs })"
  by pat_completeness auto
termination
  by (relation "measure (\<lambda>(tokens, sql). length sql)")
    (simp_all del: tokenizer_read_word.simps,
      (metis read_string_shrinks read_operator_shrinks read_number_shrinks read_word_shrinks)+)

declare tokenize_loop.simps [simp del]

definition tokenizer_tokenize_sql :: "string \<Rightarrow> token list option" where
  "tokenizer_tokenize_sql sql =
     (case tokenize_loop [] sql of
        Some (t # ts) \<Rightarrow> Some (t # ts)
      | _ \<Rightarrow> None)"

section \<open>The cache\<close>

definition SOFT_PARSER_CACHE_LIMIT :: int where "SOFT_PARSER_CACHE_LIMIT = 64"

type_synonym cache_entry = "string \<times> token list"

record tokenizer_state =
  cache_head :: "cache_entry list"
  cache_entry_count :: int
  cache_hit_count :: int

definition tokenizer_initial :: tokenizer_state where
  "tokenizer_initial = \<lparr>cache_head = [], cache_entry_count = 0, cache_hit_count = 0\<rparr>"

definition tokenizer_clone_tokens :: "token list \<Rightarrow> token list option" where
  "tokenizer_clone_tokens tokens = (if tokens = [] then None else Some tokens)"

definition tokenizer_evict_oldest_cache_entry :: "tokenizer_state \<Rightarrow> tokenizer_state" where
  "tokenizer_evict_oldest_cache_entry st =
     (if cache_head st = [] then st
      else st\<lparr>cache_head := butlast (cache_head st), cache_entry_count := cache_entry_count st - 1\<rparr>)"

text \<open>The walk along the list: the entries passed, and the match with what follows it.\<close>

fun find_entry :: "cache_entry list \<Rightarrow> cache_entry list \<Rightarrow> string \<Rightarrow>
    (cache_entry list \<times> cache_entry \<times> cache_entry list) option" where
  "find_entry previous [] sql = None"
| "find_entry previous (e # es) sql =
     (if strcmp (fst e) sql = 0 then Some (previous, e, es) else find_entry (previous @ [e]) es sql)"

definition tokenizer_lookup_cache :: "tokenizer_state \<Rightarrow> string \<Rightarrow> tokenizer_state \<times> token list option" where
  "tokenizer_lookup_cache st sql =
     (case find_entry [] (cache_head st) sql of
        None \<Rightarrow> (st, None)
      | Some (previous, e, next) \<Rightarrow>
          let st' = st\<lparr>cache_head := e # previous @ next\<rparr> in
          case tokenizer_clone_tokens (snd e) of
            None \<Rightarrow> (st', None)
          | Some copy \<Rightarrow> (st'\<lparr>cache_hit_count := cache_hit_count st' + 1\<rparr>, Some copy))"

definition tokenizer_store_cache :: "tokenizer_state \<Rightarrow> string \<Rightarrow> token list \<Rightarrow> tokenizer_state \<times> status" where
  "tokenizer_store_cache st sql tokens =
     (case tokenizer_clone_tokens tokens of
        None \<Rightarrow> (st, FAILURE)
      | Some copy \<Rightarrow>
          let st' = st\<lparr>cache_head := (sql, copy) # cache_head st, cache_entry_count := cache_entry_count st + 1\<rparr> in
          (if SOFT_PARSER_CACHE_LIMIT < cache_entry_count st' then tokenizer_evict_oldest_cache_entry st' else st',
           SUCCESS))"

definition tokenizer_tokenize :: "tokenizer_state \<Rightarrow> string \<Rightarrow> tokenizer_state \<times> token list option" where
  "tokenizer_tokenize st sql =
     (let working_sql = utils_trim sql in
      if working_sql = [] then (st, None)
      else case tokenizer_lookup_cache st working_sql of
        (st1, Some tokens) \<Rightarrow> (st1, Some tokens)
      | (st1, None) \<Rightarrow>
          (case tokenizer_tokenize_sql working_sql of
             None \<Rightarrow> (st1, None)
           | Some tokens \<Rightarrow> (fst (tokenizer_store_cache st1 working_sql tokens), Some tokens)))"

definition tokenizer_cleanup_cache :: "tokenizer_state \<Rightarrow> tokenizer_state" where
  "tokenizer_cleanup_cache st = \<lparr>cache_head = [], cache_entry_count = 0, cache_hit_count = 0\<rparr>"

definition tokenizer_get_cache_entry_count :: "tokenizer_state \<Rightarrow> int" where
  "tokenizer_get_cache_entry_count st = cache_entry_count st"

definition tokenizer_get_cache_hit_count :: "tokenizer_state \<Rightarrow> int" where
  "tokenizer_get_cache_hit_count st = cache_hit_count st"

end
