(* ===== verification/Transitions.thy ===== *)
theory Transitions
  imports Main
begin

text \<open>
  The contract of the step relations that model concurrent code: a step keeps an invariant, and
  where a run has to end, it uses up a measure.  The clients get reachable states, bounds on
  the length of runs and the existence of a final state from the two laws.
\<close>

locale invariant_steps =
  fixes step :: "'s \<Rightarrow> 's \<Rightarrow> bool" and inv :: "'s \<Rightarrow> bool"
  assumes step_inv: "step s s' \<Longrightarrow> inv s \<Longrightarrow> inv s'"
begin

lemma steps_inv: "step\<^sup>*\<^sup>* s s' \<Longrightarrow> inv s \<Longrightarrow> inv s'"
  by (induction rule: rtranclp_induct) (auto intro: step_inv)

lemma run_inv: "(step ^^ k) s s' \<Longrightarrow> inv s \<Longrightarrow> inv s'"
  by (rule steps_inv [OF relpowp_imp_rtranclp])

end

locale terminating_steps = invariant_steps +
  fixes left :: "'s \<Rightarrow> nat"
  assumes step_left: "step s s' \<Longrightarrow> inv s \<Longrightarrow> left s' < left s"
begin

lemma run_bounded: "(step ^^ k) s s' \<Longrightarrow> inv s \<Longrightarrow> k + left s' \<le> left s"
proof (induction k arbitrary: s')
  case (Suc k)
  then obtain s1 where "(step ^^ k) s s1" "step s1 s'" by auto
  then show ?case using Suc.IH [of s1] Suc.prems(2) step_left [of s1 s'] run_inv [of k s s1] by simp
qed simp

lemma run_ends: "inv s \<Longrightarrow> \<exists>s'. step\<^sup>*\<^sup>* s s' \<and> inv s' \<and> (\<nexists>s''. step s' s'')"
proof (induction "left s" arbitrary: s rule: less_induct)
  case less
  show ?case
  proof (cases "\<exists>s1. step s s1")
    case True
    then obtain s1 where s1: "step s s1" by blast
    then obtain s' where "step\<^sup>*\<^sup>* s1 s'" "inv s'" "\<nexists>s''. step s' s''"
      using less.hyps [OF step_left step_inv] less.prems by blast
    then show ?thesis using s1 by (meson converse_rtranclp_into_rtranclp)
  qed (use less.prems in blast)
qed

end

end
