(* ===== verification/Tokenizer_Correct.thy ===== *)
theory Tokenizer_Correct
  imports Tokenizer Transitions
begin

text \<open>
  What the tokenizer guarantees: the form of the tokens it produces, the round trip from
  tokens to SQL text and back, and the cache: it never changes a result, whatever the
  order in which threads look up and store.
\<close>

section \<open>Well-formed tokens\<close>

definition word_char :: "char \<Rightarrow> bool" where
  "word_char c \<longleftrightarrow> is_alnum c \<or> c = CHR ''_''"

definition is_word :: "string \<Rightarrow> bool" where
  "is_word v \<longleftrightarrow> (case v of [] \<Rightarrow> False | c # cs \<Rightarrow> (is_alpha c \<or> c = CHR ''_'') \<and> list_all word_char cs)"

definition other_char :: "char \<Rightarrow> bool" where
  "other_char c \<longleftrightarrow> \<not> is_space c \<and> c \<notin> set ''(),;*'' \<and> c \<noteq> QUOTE \<and> \<not> is_operator_char c \<and>
     \<not> is_digit c \<and> \<not> is_alpha c \<and> c \<noteq> CHR ''_''"

definition valid_token :: "token \<Rightarrow> bool" where
  "valid_token t \<longleftrightarrow> length (tok_value t) < MAX_TOKEN_VALUE \<and>
     (case tok_type t of
        TOKEN_KEYWORD \<Rightarrow> tok_value t \<in> set sql_keywords
      | TOKEN_IDENTIFIER \<Rightarrow> tok_value t = ''*'' \<or> is_word (tok_value t) \<and> \<not> utils_is_sql_keyword (tok_value t)
      | TOKEN_INT_LITERAL \<Rightarrow> utils_is_integer (tok_value t)
      | TOKEN_STR_LITERAL \<Rightarrow> True
      | TOKEN_OPERATOR \<Rightarrow> tok_value t \<in> {''='', ''!='', ''<='', ''>='', ''<'', ''>'', ''!''}
      | TOKEN_LPAREN \<Rightarrow> tok_value t = ''(''
      | TOKEN_RPAREN \<Rightarrow> tok_value t = '')''
      | TOKEN_COMMA \<Rightarrow> tok_value t = '',''
      | TOKEN_SEMICOLON \<Rightarrow> tok_value t = '';''
      | TOKEN_UNKNOWN \<Rightarrow> (\<exists>c. tok_value t = [c] \<and> other_char c))"

section \<open>The readers\<close>

lemma read_word_Some:
  "tokenizer_read_word n b cs = Some (v, rest) \<Longrightarrow>
   \<exists>w. v = b @ w \<and> cs = w @ rest \<and> list_all word_char w \<and> (w = [] \<or> length v < n)"
proof (induction n b cs rule: tokenizer_read_word.induct)
  case (2 n b c cs)
  then show ?case by (cases "word_char c") (auto simp: word_char_def split: if_splits intro: exI [of _ "[]"])
qed auto

lemma read_word_eq:
  "list_all word_char w \<Longrightarrow> length b + length w < n \<Longrightarrow> rest = [] \<or> \<not> word_char (hd rest) \<Longrightarrow>
   tokenizer_read_word n b (w @ rest) = Some (b @ w, rest)"
proof (induction w arbitrary: b)
  case Nil
  then show ?case by (cases rest) (auto simp: word_char_def)
next
  case (Cons c w)
  then show ?case by (auto simp: word_char_def)
qed

lemma read_digits_Some:
  "read_digits n b cs = Some (v, rest) \<Longrightarrow>
   \<exists>w. v = b @ w \<and> cs = w @ rest \<and> list_all is_digit w \<and> (w = [] \<or> length v < n) \<and>
     (rest = [] \<or> \<not> is_digit (hd rest))"
proof (induction n b cs rule: read_digits.induct)
  case (2 n b c cs)
  then show ?case by (cases "is_digit c") (auto split: if_splits intro: exI [of _ "[]"])
qed auto

lemma read_digits_eq:
  "list_all is_digit w \<Longrightarrow> length b + length w < n \<Longrightarrow> rest = [] \<or> \<not> is_digit (hd rest) \<Longrightarrow>
   read_digits n b (w @ rest) = Some (b @ w, rest)"
proof (induction w arbitrary: b)
  case Nil
  then show ?case by (cases rest) auto
qed auto

fun escape_quotes :: "string \<Rightarrow> string" where
  "escape_quotes [] = []"
| "escape_quotes (c # cs) = (if c = QUOTE then [QUOTE, QUOTE] else [c]) @ escape_quotes cs"

lemma read_string_length: "read_string_loop n b cs = Some (v, rest) \<Longrightarrow> length b < n \<Longrightarrow> length v < n"
  by (induction n b cs rule: read_string_loop.induct) (auto split: if_splits)

lemma read_string_eq:
  "length b + length v < n \<Longrightarrow> rest = [] \<or> hd rest \<noteq> QUOTE \<Longrightarrow>
   read_string_loop n b (escape_quotes v @ QUOTE # rest) = Some (b @ v, rest)"
proof (induction v arbitrary: b)
  case Nil
  then show ?case by (cases rest) auto
next
  case (Cons c v)
  have step: "read_string_loop n (b @ [c]) (escape_quotes v @ QUOTE # rest) = Some (b @ c # v, rest)"
    using Cons.IH [of "b @ [c]"] Cons.prems by simp
  obtain d ds where "escape_quotes v @ QUOTE # rest = d # ds" by (cases "escape_quotes v") auto
  then show ?case using step Cons.prems by auto
qed

section \<open>One token at a time\<close>

lemma append_token_Some:
  "tokenizer_append_token ts ty v = Some ts' \<longleftrightarrow>
     length v < MAX_TOKEN_VALUE \<and> ts' = ts @ [mk_token ty v]"
  by (auto simp: tokenizer_append_token_def utils_safe_strcpy_def MAX_TOKEN_VALUE_def)

lemma append_token_None: "MAX_TOKEN_VALUE \<le> length v \<longleftrightarrow> tokenizer_append_token ts ty v = None"
  by (simp add: tokenizer_append_token_def utils_safe_strcpy_def MAX_TOKEN_VALUE_def)

text \<open>
  \<open>scan_token\<close> is the body of the loop for one token, behind white space: the token and
  the rest of the text.  The loop is an iteration of it.
\<close>

definition scan_token :: "char \<Rightarrow> string \<Rightarrow> (token_type \<times> string \<times> string) option" where
  "scan_token c cs =
     (if c = CHR ''('' then Some (TOKEN_LPAREN, ''('', cs)
      else if c = CHR '')'' then Some (TOKEN_RPAREN, '')'', cs)
      else if c = CHR '','' then Some (TOKEN_COMMA, '','', cs)
      else if c = CHR '';'' then Some (TOKEN_SEMICOLON, '';'', cs)
      else if c = CHR ''*'' then Some (TOKEN_IDENTIFIER, ''*'', cs)
      else if c = QUOTE then
        map_option (\<lambda>(v, rest). (TOKEN_STR_LITERAL, v, rest)) (tokenizer_read_string MAX_TOKEN_VALUE (c # cs))
      else if is_operator_char c then
        Some (TOKEN_OPERATOR, read_operator (c # cs))
      else if tokenizer_is_numeric_start (c # cs) then
        map_option (\<lambda>(v, rest). (TOKEN_INT_LITERAL, v, rest)) (tokenizer_read_number MAX_TOKEN_VALUE (c # cs))
      else if is_alpha c \<or> c = CHR ''_'' then
        map_option (\<lambda>(v, rest). if utils_is_sql_keyword v then (TOKEN_KEYWORD, map to_upper v, rest)
            else (TOKEN_IDENTIFIER, v, rest)) (tokenizer_read_word MAX_TOKEN_VALUE [] (c # cs))
      else Some (TOKEN_UNKNOWN, [c], cs))"

lemma read_word_length:
  "tokenizer_read_word n [] cs = Some (v, rest) \<Longrightarrow> 0 < n \<Longrightarrow> length v < n"
  using read_word_Some [of n "[]" cs v rest] by auto

lemma tokenize_loop_step:
  "tokenize_loop ts (c # cs) =
     (if is_space c then tokenize_loop ts cs
      else case scan_token c cs of
        None \<Rightarrow> None
      | Some (ty, v, rest) \<Rightarrow> do { ts' \<leftarrow> tokenizer_append_token ts ty v; tokenize_loop ts' rest })"
proof -
  have up: "utils_to_upper_copy v MAX_TOKEN_VALUE = Some (map to_upper v)"
    if "tokenizer_read_word MAX_TOKEN_VALUE [] (c # cs) = Some (v, rest)" for v rest
    using read_word_length [OF that] by (intro upper_copy_eq) (simp add: MAX_TOKEN_VALUE_def)
  show ?thesis
    by (subst tokenize_loop.simps)
      (simp add: scan_token_def up del: tokenizer_read_word.simps split: option.splits prod.splits if_splits)
qed

lemma scan_token_cases:
  assumes "scan_token c cs = Some (ty, v, rest)"
  obtains (single) "(ty, v) \<in> {(TOKEN_LPAREN, ''(''), (TOKEN_RPAREN, '')''), (TOKEN_COMMA, '',''),
        (TOKEN_SEMICOLON, '';''), (TOKEN_IDENTIFIER, ''*'')}" "rest = cs"
  | (str) "ty = TOKEN_STR_LITERAL" "tokenizer_read_string MAX_TOKEN_VALUE (c # cs) = Some (v, rest)"
  | (op) "ty = TOKEN_OPERATOR" "is_operator_char c" "read_operator (c # cs) = (v, rest)"
  | (num) "ty = TOKEN_INT_LITERAL" "tokenizer_is_numeric_start (c # cs)"
      "tokenizer_read_number MAX_TOKEN_VALUE (c # cs) = Some (v, rest)"
  | (kw) w where "ty = TOKEN_KEYWORD" "v = map to_upper w" "utils_is_sql_keyword w"
      "is_alpha c \<or> c = CHR ''_''" "tokenizer_read_word MAX_TOKEN_VALUE [] (c # cs) = Some (w, rest)"
  | (ident) "ty = TOKEN_IDENTIFIER" "\<not> utils_is_sql_keyword v"
      "is_alpha c \<or> c = CHR ''_''" "tokenizer_read_word MAX_TOKEN_VALUE [] (c # cs) = Some (v, rest)"
  | (unknown) "ty = TOKEN_UNKNOWN" "v = [c]" "rest = cs" "c \<notin> set ''(),;*''" "c \<noteq> QUOTE"
      "\<not> is_operator_char c" "\<not> is_digit c" "\<not> is_alpha c" "c \<noteq> CHR ''_''"
proof (cases "c \<in> set ''(),;*''")
  case True
  then show ?thesis using assms that(1) by (auto simp: scan_token_def)
next
  case ns: False
  show ?thesis
  proof (cases "c = QUOTE")
    case True
    then show ?thesis using assms that(2) by (auto simp: scan_token_def)
  next
    case nq: False
    consider (op) "is_operator_char c" | (num) "\<not> is_operator_char c" "tokenizer_is_numeric_start (c # cs)"
      | (word) "\<not> is_operator_char c" "\<not> tokenizer_is_numeric_start (c # cs)" "is_alpha c \<or> c = CHR ''_''"
      | (other) "\<not> is_operator_char c" "\<not> tokenizer_is_numeric_start (c # cs)" "\<not> (is_alpha c \<or> c = CHR ''_'')"
      by blast
    then show ?thesis
    proof cases
      case op
      then show ?thesis using assms that(3) ns nq by (simp add: scan_token_def)
    next
      case num
      then show ?thesis using assms that(4) ns nq by (auto simp: scan_token_def)
    next
      case word
      let ?kind = "\<lambda>(w, rest). if utils_is_sql_keyword w then (TOKEN_KEYWORD, map to_upper w, rest)
          else (TOKEN_IDENTIFIER, w, rest)"
      have "map_option ?kind (tokenizer_read_word MAX_TOKEN_VALUE [] (c # cs)) = Some (ty, v, rest)"
        using assms word ns nq by (simp add: scan_token_def del: tokenizer_read_word.simps)
      then obtain w rest' where w: "tokenizer_read_word MAX_TOKEN_VALUE [] (c # cs) = Some (w, rest')"
        "?kind (w, rest') = (ty, v, rest)"
        by (metis (no_types, lifting) map_option_eq_Some surj_pair)
      then show ?thesis using that(5) [of w] that(6) word(3)
        by (cases "utils_is_sql_keyword w") (simp_all del: tokenizer_read_word.simps)
    next
      case other
      then have "\<not> is_digit c" by (simp add: tokenizer_is_numeric_start_def)
      then show ?thesis using assms that(7) ns nq other by (simp add: scan_token_def)
    qed
  qed
qed

lemma scan_token_shrinks:
  assumes "scan_token c cs = Some (ty, v, rest)"
  shows "length rest \<le> length cs"
  using assms
proof (cases rule: scan_token_cases)
  case str
  then show ?thesis using read_string_shrinks by fastforce
next
  case op
  then show ?thesis using read_operator_shrinks [of v rest c cs] by simp
next
  case num
  then show ?thesis using read_number_shrinks by fastforce
next
  case (kw w)
  then show ?thesis using read_word_shrinks by fastforce
next
  case ident
  then show ?thesis using read_word_shrinks by fastforce
qed simp_all

lemma number_valid:
  assumes "tokenizer_read_number n (c # cs) = Some (v, rest)" "tokenizer_is_numeric_start (c # cs)"
  shows "utils_is_integer v"
proof (cases "c = CHR ''-'' \<or> c = CHR ''+''")
  case True
  have nd: "\<not> is_digit c" using True by (auto simp: is_digit_def)
  obtain d ds where cs: "cs = d # ds" "is_digit d"
    using assms(2) nd by (cases cs) (auto simp: tokenizer_is_numeric_start_def)
  have "read_digits n [c] (d # ds) = Some (v, rest)"
    using assms(1) True cs by (simp add: tokenizer_read_number_def del: read_digits.simps split: if_splits)
  then obtain w where w: "v = [c] @ w" "d # ds = w @ rest" "list_all is_digit w" "rest = [] \<or> \<not> is_digit (hd rest)"
    using read_digits_Some by blast
  then have "w \<noteq> []" using cs(2) by (cases w) auto
  then show ?thesis using True w by (simp add: utils_is_integer_def)
next
  case False
  then have rd: "read_digits n [] (c # cs) = Some (v, rest)" and d: "is_digit c"
    using assms by (simp_all add: tokenizer_read_number_def tokenizer_is_numeric_start_def del: read_digits.simps)
  obtain w where w: "v = w" "c # cs = w @ rest" "list_all is_digit w" "rest = [] \<or> \<not> is_digit (hd rest)"
    using read_digits_Some [OF rd] by auto
  then obtain w' where "w = c # w'" using d by (cases w) auto
  then show ?thesis using False w by (simp add: utils_is_integer_def)
qed

lemma word_valid:
  assumes "tokenizer_read_word n [] (c # cs) = Some (v, rest)" "is_alpha c \<or> c = CHR ''_''"
  shows "is_word v"
proof -
  obtain w where w: "v = w" "c # cs = w @ rest" "list_all word_char w"
    using read_word_Some [OF assms(1)] by auto
  have "w \<noteq> []" using w(2) read_word_shrinks [OF assms] by auto
  then show ?thesis using w assms(2) by (cases w) (auto simp: is_word_def)
qed

lemma operator_valid:
  "is_operator_char c \<Longrightarrow> read_operator (c # cs) = (v, rest) \<Longrightarrow>
   v \<in> {''='', ''!='', ''<='', ''>='', ''<'', ''>'', ''!''}"
  by (auto simp: is_operator_char_def read_operator_def split: list.splits if_splits)

lemma scan_token_valid:
  assumes "scan_token c cs = Some (ty, v, rest)" "\<not> is_space c" "length v < MAX_TOKEN_VALUE"
  shows "valid_token (mk_token ty v)"
  using assms(1)
proof (cases rule: scan_token_cases)
  case single
  then show ?thesis using assms(3) by (auto simp: valid_token_def)
next
  case op
  then show ?thesis using operator_valid [OF op(2,3)] assms(3) by (simp add: valid_token_def)
next
  case num
  then show ?thesis using number_valid assms(3) by (simp add: valid_token_def)
next
  case (kw w)
  then show ?thesis using assms(3) by (simp add: valid_token_def keyword_iff)
next
  case ident
  then show ?thesis using word_valid [OF ident(4,3)] assms(3) by (simp add: valid_token_def)
next
  case unknown
  then show ?thesis using assms by (simp add: valid_token_def other_char_def)
qed (use assms(3) in \<open>simp add: valid_token_def\<close>)

lemma tokenize_loop_valid:
  "tokenize_loop ts sql = Some ts' \<Longrightarrow> \<exists>new. ts' = ts @ new \<and> list_all valid_token new"
proof (induction "length sql" arbitrary: ts sql rule: less_induct)
  case less
  show ?case
  proof (cases sql)
    case Nil
    then show ?thesis using less.prems by (simp add: tokenize_loop.simps)
  next
    case (Cons c cs)
    show ?thesis
    proof (cases "is_space c")
      case True
      then show ?thesis using less Cons by (auto simp: tokenize_loop_step)
    next
      case False
      then obtain ty v rest where sc: "scan_token c cs = Some (ty, v, rest)" "length v < MAX_TOKEN_VALUE"
        "tokenize_loop (ts @ [mk_token ty v]) rest = Some ts'"
        using less.prems Cons
        by (auto simp: tokenize_loop_step append_token_Some bind_eq_Some_conv split: option.splits)
      have "length rest < length sql" using scan_token_shrinks [OF sc(1)] Cons by simp
      then obtain new where "ts' = (ts @ [mk_token ty v]) @ new" "list_all valid_token new"
        using less.hyps sc(3) by blast
      then show ?thesis using scan_token_valid [OF sc(1) False sc(2)] by (intro exI [of _ "mk_token ty v # new"]) auto
    qed
  qed
qed

lemma tokenize_sql_valid: "tokenizer_tokenize_sql sql = Some ts \<Longrightarrow> ts \<noteq> [] \<and> list_all valid_token ts"
  using tokenize_loop_valid [of "[]" sql] by (auto simp: tokenizer_tokenize_sql_def split: option.splits list.splits)

section \<open>Round trip\<close>

definition render_token :: "token \<Rightarrow> string" where
  "render_token t = (if tok_type t = TOKEN_STR_LITERAL then QUOTE # escape_quotes (tok_value t) @ [QUOTE]
     else tok_value t)"

fun render_tokens :: "token list \<Rightarrow> string" where
  "render_tokens [] = []"
| "render_tokens [t] = render_token t"
| "render_tokens (t # ts) = render_token t @ CHR '' '' # render_tokens ts"

lemma space_not_word [simp]: "\<not> word_char (CHR '' '')" "is_space (CHR '' '')" "\<not> is_digit (CHR '' '')"
  by (simp_all add: word_char_def ctype_defs)

definition separated :: "string \<Rightarrow> bool" where
  "separated rest \<longleftrightarrow> rest = [] \<or> hd rest = CHR '' ''"

lemma separated_stops:
  "separated rest \<Longrightarrow> rest = [] \<or> \<not> word_char (hd rest)" "separated rest \<Longrightarrow> rest = [] \<or> \<not> is_digit (hd rest)"
  "separated rest \<Longrightarrow> rest = [] \<or> hd rest \<noteq> QUOTE" "separated rest \<Longrightarrow> rest = [] \<or> hd rest \<noteq> CHR ''=''"
  by (auto simp: separated_def)

definition scans :: "string \<Rightarrow> token \<Rightarrow> string \<Rightarrow> bool" where
  "scans text t rest \<longleftrightarrow> (\<exists>c cs. text = c # cs \<and> \<not> is_space c \<and>
     scan_token c cs = Some (tok_type t, tok_value t, rest))"

lemma alpha_not_special:
  assumes "is_alpha c \<or> c = CHR ''_''"
  shows "\<not> is_space c" "c \<notin> set ''(),;*''" "c \<noteq> QUOTE" "\<not> is_operator_char c" "\<not> is_digit c"
    "c \<noteq> CHR ''-''" "c \<noteq> CHR ''+''"
  using assms by (auto simp: ctype_defs is_operator_char_def)

lemma scans_word:
  assumes "is_word v" "length v < MAX_TOKEN_VALUE" "separated rest"
    and "t = (if utils_is_sql_keyword v then mk_token TOKEN_KEYWORD (map to_upper v) else mk_token TOKEN_IDENTIFIER v)"
  shows "scans (v @ rest) t rest"
proof -
  obtain c cs where v: "v = c # cs" "is_alpha c \<or> c = CHR ''_''" "list_all word_char cs"
    using assms(1) by (auto simp: is_word_def split: list.splits)
  then have w: "list_all word_char v" by (auto simp: word_char_def is_alnum_def)
  note ns = alpha_not_special [OF v(2)]
  have rd: "tokenizer_read_word MAX_TOKEN_VALUE [] (c # cs @ rest) = Some (v, rest)"
    using read_word_eq [OF w, of "[]" MAX_TOKEN_VALUE rest] assms(2) separated_stops(1) [OF assms(3)] v(1) by simp
  have nn: "\<not> tokenizer_is_numeric_start (c # cs @ rest)" using ns by (simp add: tokenizer_is_numeric_start_def)
  have "scan_token c (cs @ rest) = Some (tok_type t, tok_value t, rest)"
    unfolding scan_token_def using ns nn v(2) rd assms(4)
    by (simp del: tokenizer_read_word.simps)
  then show ?thesis using v(1) ns(1) by (simp add: scans_def)
qed

lemma scans_number:
  assumes "utils_is_integer v" "length v < MAX_TOKEN_VALUE" "separated rest"
  shows "scans (v @ rest) (mk_token TOKEN_INT_LITERAL v) rest"
proof -
  obtain c cs where v: "v = c # cs" using assms(1) by (cases v) (auto simp: utils_is_integer_def)
  have dig: "(c = CHR ''-'' \<or> c = CHR ''+'') \<and> cs \<noteq> [] \<and> list_all is_digit cs \<or> is_digit c \<and> list_all is_digit cs"
    using assms(1) by (auto simp: v utils_is_integer_def split: if_splits)
  then have ns: "\<not> is_space c" "c \<notin> set ''(),;*''" "c \<noteq> QUOTE" "\<not> is_operator_char c"
    by (auto simp: ctype_defs is_operator_char_def)
  have nn: "tokenizer_is_numeric_start (c # cs @ rest)"
    using dig by (cases cs) (auto simp: tokenizer_is_numeric_start_def)
  have rd: "tokenizer_read_number MAX_TOKEN_VALUE (c # cs @ rest) = Some (v, rest)"
  proof (cases "c = CHR ''-'' \<or> c = CHR ''+''")
    case True
    then have "list_all is_digit cs" "\<not> MAX_TOKEN_VALUE \<le> 1" using dig by (auto simp: MAX_TOKEN_VALUE_def)
    then show ?thesis
      using True read_digits_eq [of cs "[c]" MAX_TOKEN_VALUE rest] assms(2) separated_stops(2) [OF assms(3)]
      by (simp add: tokenizer_read_number_def v)
  next
    case False
    then have "list_all is_digit v" using dig v by auto
    then show ?thesis
      using False read_digits_eq [of v "[]" MAX_TOKEN_VALUE rest] assms(2) separated_stops(2) [OF assms(3)]
      by (simp add: tokenizer_read_number_def v del: read_digits.simps)
  qed
  have "scan_token c (cs @ rest) = Some (TOKEN_INT_LITERAL, v, rest)"
    unfolding scan_token_def using ns nn rd by simp
  then show ?thesis using v ns(1) by (simp add: scans_def)
qed

lemma scans_operator:
  assumes "v \<in> {''='', ''!='', ''<='', ''>='', ''<'', ''>'', ''!''}" "separated rest"
  shows "scans (v @ rest) (mk_token TOKEN_OPERATOR v) rest"
proof -
  obtain c cs where v: "v = c # cs" "is_operator_char c" using assms(1) by (auto simp: is_operator_char_def)
  have ns: "\<not> is_space c" "c \<notin> set ''(),;*''" "c \<noteq> QUOTE" using v(2) by (auto simp: is_operator_char_def ctype_defs)
  have "read_operator (c # cs @ rest) = (v, rest)"
    using assms(1) separated_stops(4) [OF assms(2)] v(1)
    by (cases rest) (auto simp: read_operator_def)
  then have "scan_token c (cs @ rest) = Some (TOKEN_OPERATOR, v, rest)"
    unfolding scan_token_def using ns v(2) by simp
  then show ?thesis using v ns(1) by (simp add: scans_def)
qed

lemma scans_string:
  assumes "length v < MAX_TOKEN_VALUE" "separated rest"
  shows "scans (QUOTE # escape_quotes v @ QUOTE # rest) (mk_token TOKEN_STR_LITERAL v) rest"
proof -
  have "tokenizer_read_string MAX_TOKEN_VALUE (QUOTE # escape_quotes v @ QUOTE # rest) = Some (v, rest)"
    using read_string_eq [of "[]" v MAX_TOKEN_VALUE rest] assms separated_stops(3) [OF assms(2)]
    by (simp add: tokenizer_read_string_def)
  then have "scan_token QUOTE (escape_quotes v @ QUOTE # rest) = Some (TOKEN_STR_LITERAL, v, rest)"
    by (simp add: scan_token_def)
  moreover have "\<not> is_space QUOTE" by (simp add: is_space_def)
  ultimately show ?thesis by (simp add: scans_def)
qed

lemma scans_unknown:
  assumes "other_char c" "separated rest"
  shows "scans (c # rest) (mk_token TOKEN_UNKNOWN [c]) rest"
proof -
  have "\<not> tokenizer_is_numeric_start (c # rest)"
    using assms separated_stops(2) [OF assms(2)]
    by (cases rest) (auto simp: tokenizer_is_numeric_start_def other_char_def)
  then have "scan_token c rest = Some (TOKEN_UNKNOWN, [c], rest)"
    using assms(1) by (simp add: scan_token_def other_char_def)
  then show ?thesis using assms(1) by (simp add: scans_def other_char_def)
qed

lemma keyword_word: "v \<in> set sql_keywords \<Longrightarrow> is_word v \<and> utils_is_sql_keyword v \<and> map to_upper v = v"
  by (auto simp: sql_keywords_def is_word_def word_char_def ctype_defs utils_is_sql_keyword_def to_upper_def)

lemma scans_render:
  assumes "valid_token t" "separated rest"
  shows "scans (render_token t @ rest) t rest"
proof (cases "tok_type t")
  case TOKEN_KEYWORD
  then have "tok_value t \<in> set sql_keywords" "length (tok_value t) < MAX_TOKEN_VALUE"
    using assms(1) by (simp_all add: valid_token_def)
  then show ?thesis
    using scans_word [OF _ _ assms(2) refl, of "tok_value t"] keyword_word [of "tok_value t"] TOKEN_KEYWORD
    by (cases t) (simp add: render_token_def)
next
  case TOKEN_IDENTIFIER
  show ?thesis
  proof (cases "tok_value t = ''*''")
    case True
    then show ?thesis using TOKEN_IDENTIFIER
      by (simp add: render_token_def scans_def scan_token_def is_space_def)
  next
    case False
    then show ?thesis
      using scans_word [OF _ _ assms(2) refl, of "tok_value t"] assms(1) TOKEN_IDENTIFIER
      by (cases t) (simp add: render_token_def valid_token_def)
  qed
next
  case TOKEN_INT_LITERAL
  then show ?thesis using scans_number [OF _ _ assms(2), of "tok_value t"] assms(1)
    by (cases t) (simp add: render_token_def valid_token_def)
next
  case TOKEN_STR_LITERAL
  then show ?thesis using scans_string [OF _ assms(2), of "tok_value t"] assms(1)
    by (cases t) (simp add: render_token_def valid_token_def)
next
  case TOKEN_OPERATOR
  then show ?thesis using scans_operator [OF _ assms(2), of "tok_value t"] assms(1)
    by (cases t) (simp add: render_token_def valid_token_def)
next
  case TOKEN_UNKNOWN
  then obtain c where "tok_value t = [c]" "other_char c" using assms(1) by (auto simp: valid_token_def)
  then show ?thesis using scans_unknown [OF _ assms(2), of c] TOKEN_UNKNOWN
    by (cases t) (simp add: render_token_def)
qed (use assms in \<open>simp_all add: valid_token_def render_token_def scans_def scan_token_def is_space_def\<close>)

lemma scans_loop:
  "scans sql t rest \<Longrightarrow> valid_token t \<Longrightarrow> tokenize_loop ts sql = tokenize_loop (ts @ [t]) rest"
  by (cases t) (auto simp: scans_def tokenize_loop_step tokenizer_append_token_def utils_safe_strcpy_def valid_token_def)

lemma tokenize_render:
  "list_all valid_token new \<Longrightarrow> tokenize_loop ts (render_tokens new) = Some (ts @ new)"
proof (induction new arbitrary: ts rule: render_tokens.induct)
  case 1
  then show ?case by (simp add: tokenize_loop.simps)
next
  case (2 t)
  then have "tokenize_loop ts (render_token t) = tokenize_loop (ts @ [t]) []"
    using scans_loop [OF scans_render [of t "[]"]] by (simp add: separated_def)
  then show ?case by (simp add: tokenize_loop.simps)
next
  case (3 t u us)
  let ?rest = "CHR '' '' # render_tokens (u # us)"
  have "tokenize_loop ts (render_token t @ ?rest) = tokenize_loop (ts @ [t]) ?rest"
    using "3.prems" scans_loop [OF scans_render [of t ?rest]] by (simp add: separated_def)
  also have "\<dots> = tokenize_loop (ts @ [t]) (render_tokens (u # us))"
    by (simp add: tokenize_loop_step)
  finally show ?case using 3 by simp
qed

lemma tokenize_sql_render:
  "list_all valid_token ts \<Longrightarrow> ts \<noteq> [] \<Longrightarrow> tokenizer_tokenize_sql (render_tokens ts) = Some ts"
  by (cases ts) (simp_all add: tokenizer_tokenize_sql_def tokenize_render)

lemma scans_hd: "scans text t rest \<Longrightarrow> text \<noteq> [] \<and> \<not> is_space (hd text)"
  by (auto simp: scans_def)

lemma number_last: "utils_is_integer v \<Longrightarrow> v \<noteq> [] \<and> is_digit (last v)"
  by (auto simp: utils_is_integer_def list_all_iff split: list.splits if_splits)

lemma word_last: "is_word v \<Longrightarrow> v \<noteq> [] \<and> word_char (last v)"
  by (auto simp: is_word_def list_all_iff word_char_def is_alnum_def split: list.splits)

lemma not_space:
  "is_digit c \<Longrightarrow> \<not> is_space c" "word_char c \<Longrightarrow> \<not> is_space c"
  by (auto simp: word_char_def ctype_defs)

lemma render_token_last:
  assumes "valid_token t"
  shows "render_token t \<noteq> [] \<and> \<not> is_space (last (render_token t))"
proof (cases "tok_type t")
  case TOKEN_KEYWORD
  then show ?thesis using assms keyword_word [of "tok_value t"] word_last [of "tok_value t"] not_space(2)
    by (auto simp: render_token_def valid_token_def)
next
  case TOKEN_IDENTIFIER
  then show ?thesis using assms word_last [of "tok_value t"] not_space(2)
    by (auto simp: render_token_def valid_token_def is_space_def)
next
  case TOKEN_INT_LITERAL
  then show ?thesis using assms number_last [of "tok_value t"] not_space(1)
    by (auto simp: render_token_def valid_token_def)
qed (use assms in \<open>auto simp: render_token_def valid_token_def is_space_def other_char_def\<close>)

lemma render_tokens_last:
  "list_all valid_token ts \<Longrightarrow> ts \<noteq> [] \<Longrightarrow>
   render_tokens ts \<noteq> [] \<and> \<not> is_space (last (render_tokens ts))"
  by (induction ts rule: render_tokens.induct) (use render_token_last in auto)

lemma render_tokens_hd:
  assumes "list_all valid_token ts" "ts \<noteq> []"
  shows "\<not> is_space (hd (render_tokens ts))"
proof -
  obtain t us where ts: "ts = t # us" using assms(2) by (cases ts) auto
  obtain rest where "render_tokens ts = render_token t @ rest" "separated rest"
    by (cases us) (auto simp: ts separated_def)
  then show ?thesis using scans_hd [OF scans_render [of t rest]] assms(1) by (simp add: ts)
qed

lemma render_tokens_trim: "list_all valid_token ts \<Longrightarrow> utils_trim (render_tokens ts) = render_tokens ts"
  using render_tokens_last [of ts] render_tokens_hd [of ts] by (intro trim_fixed) (cases ts, auto)

section \<open>The cache is transparent\<close>

definition cache_inv :: "tokenizer_state \<Rightarrow> bool" where
  "cache_inv st \<longleftrightarrow> cache_entry_count st = int (length (cache_head st)) \<and>
     cache_entry_count st \<le> SOFT_PARSER_CACHE_LIMIT \<and> 0 \<le> cache_hit_count st \<and>
     (\<forall>(sql, tokens) \<in> set (cache_head st). tokenizer_tokenize_sql sql = Some tokens)"

definition tokens_of :: "string \<Rightarrow> token list option" where
  "tokens_of sql = (if utils_trim sql = [] then None else tokenizer_tokenize_sql (utils_trim sql))"

lemma find_entry_Some:
  "find_entry previous es sql = Some (pre, e, post) \<Longrightarrow> previous @ es = pre @ e # post \<and> fst e = sql"
  by (induction previous es sql rule: find_entry.induct) (auto simp: strcmp_zero split: if_splits)

lemma cache_inv_initial: "cache_inv tokenizer_initial"
  by (simp add: cache_inv_def tokenizer_initial_def SOFT_PARSER_CACHE_LIMIT_def)

lemma cache_inv_cleanup: "cache_inv (tokenizer_cleanup_cache st)"
  by (simp add: cache_inv_def tokenizer_cleanup_cache_def SOFT_PARSER_CACHE_LIMIT_def)

lemma lookup_cache_inv:
  assumes "cache_inv st" "tokenizer_lookup_cache st sql = (st', res)"
  shows "cache_inv st' \<and> (\<forall>tokens. res = Some tokens \<longrightarrow> tokenizer_tokenize_sql sql = Some tokens)"
proof (cases "find_entry [] (cache_head st) sql")
  case None
  then show ?thesis using assms by (simp add: tokenizer_lookup_cache_def)
next
  case (Some r)
  obtain pre e post where r: "r = (pre, e, post)" by (cases r)
  have split: "cache_head st = pre @ e # post" "fst e = sql" using find_entry_Some [OF Some [unfolded r]] by simp_all
  then have toks: "tokenizer_tokenize_sql sql = Some (snd e)" "snd e \<noteq> []"
    using assms(1) tokenize_sql_valid [of sql "snd e"] by (cases e; auto simp: cache_inv_def)+
  then have "st' = st\<lparr>cache_head := e # pre @ post, cache_hit_count := cache_hit_count st + 1\<rparr>" "res = Some (snd e)"
    using assms(2) by (auto simp: tokenizer_lookup_cache_def Some r tokenizer_clone_tokens_def Let_def)
  moreover have "\<forall>(q, ts) \<in> set (e # pre @ post). tokenizer_tokenize_sql q = Some ts"
    using assms(1) by (auto simp: cache_inv_def split(1))
  ultimately show ?thesis using assms(1) split(1) toks by (auto simp: cache_inv_def)
qed

lemma store_cache_inv:
  assumes "cache_inv st" "tokenizer_tokenize_sql sql = Some tokens"
  shows "cache_inv (fst (tokenizer_store_cache st sql tokens))"
proof -
  have ne: "tokens \<noteq> []" using tokenize_sql_valid [OF assms(2)] by simp
  have "set (butlast ((sql, tokens) # cache_head st)) \<subseteq> set ((sql, tokens) # cache_head st)"
    by (meson in_set_butlastD subsetI)
  then show ?thesis
    using assms ne
    by (auto simp: tokenizer_store_cache_def tokenizer_clone_tokens_def tokenizer_evict_oldest_cache_entry_def
        cache_inv_def SOFT_PARSER_CACHE_LIMIT_def Let_def)
qed

lemma tokenize_transparent:
  assumes "cache_inv st"
  shows "snd (tokenizer_tokenize st sql) = tokens_of sql \<and> cache_inv (fst (tokenizer_tokenize st sql))"
proof (cases "utils_trim sql = []")
  case False
  obtain st1 res where lk: "tokenizer_lookup_cache st (utils_trim sql) = (st1, res)" by fastforce
  note inv = lookup_cache_inv [OF assms lk]
  show ?thesis
  proof (cases res)
    case None
    then show ?thesis using lk inv False store_cache_inv [of st1 "utils_trim sql"]
      by (auto simp: tokenizer_tokenize_def tokens_of_def Let_def split: option.splits)
  next
    case (Some tokens)
    then show ?thesis using lk inv False by (simp add: tokenizer_tokenize_def tokens_of_def Let_def)
  qed
qed (use assms in \<open>simp add: tokenizer_tokenize_def tokens_of_def\<close>)

section \<open>Interleaved calls\<close>

text \<open>
  The cache lock protects a lookup and a store, not the whole call: between them another
  thread may store the same statement or evict entries.  A call is therefore three steps,
  and the steps of different threads interleave.
\<close>

datatype tok_call =
    Calling string
  | Missed string
  | Returned "token list option"

inductive tok_step :: "tokenizer_state \<times> (nat \<Rightarrow> tok_call) \<Rightarrow> tokenizer_state \<times> (nat \<Rightarrow> tok_call) \<Rightarrow> bool" where
  blank: "calls i = Calling sql \<Longrightarrow> utils_trim sql = [] \<Longrightarrow>
    tok_step (st, calls) (st, calls(i := Returned None))"
| hit: "calls i = Calling sql \<Longrightarrow> utils_trim sql \<noteq> [] \<Longrightarrow>
    tokenizer_lookup_cache st (utils_trim sql) = (st', Some tokens) \<Longrightarrow>
    tok_step (st, calls) (st', calls(i := Returned (Some tokens)))"
| miss: "calls i = Calling sql \<Longrightarrow> utils_trim sql \<noteq> [] \<Longrightarrow>
    tokenizer_lookup_cache st (utils_trim sql) = (st', None) \<Longrightarrow>
    tok_step (st, calls) (st', calls(i := Missed sql))"
| scan_error: "calls i = Missed sql \<Longrightarrow> tokenizer_tokenize_sql (utils_trim sql) = None \<Longrightarrow>
    tok_step (st, calls) (st, calls(i := Returned None))"
| store: "calls i = Missed sql \<Longrightarrow> tokenizer_tokenize_sql (utils_trim sql) = Some tokens \<Longrightarrow>
    tok_step (st, calls) (fst (tokenizer_store_cache st (utils_trim sql) tokens), calls(i := Returned (Some tokens)))"
| cleanup: "tok_step (st, calls) (tokenizer_cleanup_cache st, calls)"

definition call_ok :: "string \<Rightarrow> tok_call \<Rightarrow> bool" where
  "call_ok sql c \<longleftrightarrow> (case c of Calling s \<Rightarrow> s = sql | Missed s \<Rightarrow> s = sql \<and> utils_trim sql \<noteq> []
     | Returned r \<Rightarrow> r = tokens_of sql)"

lemma call_ok_sql:
  assumes "\<forall>i. call_ok (sqls i) (calls i)"
  shows "calls i = Calling sql \<Longrightarrow> sqls i = sql" "calls i = Missed sql \<Longrightarrow> sqls i = sql \<and> utils_trim sql \<noteq> []"
  using spec [OF assms, of i] by (auto simp: call_ok_def)

lemma tok_step_inv:
  assumes "tok_step (st, calls) (st', calls')" "cache_inv st" "\<forall>i. call_ok (sqls i) (calls i)"
  shows "cache_inv st' \<and> (\<forall>i. call_ok (sqls i) (calls' i))"
  using assms(1)
proof cases
  case (blank i sql)
  have "sqls i = sql" using call_ok_sql(1) [OF assms(3)] blank by blast
  then show ?thesis using assms blank by (simp add: call_ok_def tokens_of_def)
next
  case (hit i sql tokens)
  then have "cache_inv st'" "tokenizer_tokenize_sql (utils_trim sql) = Some tokens"
    using lookup_cache_inv [OF assms(2)] by blast+
  moreover have "sqls i = sql" using call_ok_sql(1) [OF assms(3)] hit by blast
  ultimately show ?thesis using assms(3) hit by (simp add: call_ok_def tokens_of_def)
next
  case (miss i sql)
  then have "cache_inv st'" using lookup_cache_inv [OF assms(2)] by blast
  moreover have "sqls i = sql" using call_ok_sql(1) [OF assms(3)] miss by blast
  ultimately show ?thesis using assms(3) miss by (auto simp: call_ok_def)
next
  case (scan_error i sql)
  have "sqls i = sql \<and> utils_trim sql \<noteq> []" using call_ok_sql(2) [OF assms(3)] scan_error by blast
  then show ?thesis using assms scan_error by (auto simp: call_ok_def tokens_of_def)
next
  case (store i sql tokens)
  have "sqls i = sql \<and> utils_trim sql \<noteq> []" using call_ok_sql(2) [OF assms(3)] store by blast
  then show ?thesis using assms store store_cache_inv [OF assms(2) store(4)] by (auto simp: call_ok_def tokens_of_def)
next
  case cleanup
  then show ?thesis using assms cache_inv_cleanup by simp
qed

interpretation tok: invariant_steps tok_step "\<lambda>(st, calls). cache_inv st \<and> (\<forall>i. call_ok (sqls i) (calls i))" for sqls
  by unfold_locales (auto dest: tok_step_inv)

lemma tok_steps_inv:
  "tok_step\<^sup>*\<^sup>* (st, calls) (st', calls') \<Longrightarrow> cache_inv st \<Longrightarrow> \<forall>i. call_ok (sqls i) (calls i) \<Longrightarrow>
   cache_inv st' \<and> (\<forall>i. call_ok (sqls i) (calls' i))"
  using tok.steps_inv [of "(st, calls)" "(st', calls')" sqls] by simp

section \<open>Properties\<close>

text \<open>
  C33: the token cache does not show: with any contents the cache can have, a call returns what
  scanning the trimmed text returns, and the cache keeps its invariant (the counter is the
  number of entries, at most 64, every entry holds the tokens of its text).
\<close>

theorem tokenizer_cache_transparent:
  assumes "cache_inv st"
  shows "snd (tokenizer_tokenize st sql) = (if utils_trim sql = [] then None else tokenizer_tokenize_sql (utils_trim sql)) \<and>
     cache_inv (fst (tokenizer_tokenize st sql))"
  using tokenize_transparent [OF assms, of sql] by (simp add: tokens_of_def)

theorem tokenizer_cache_transparent_witness:
  "snd (tokenizer_tokenize tokenizer_initial ''DELETE'') =
     (if utils_trim ''DELETE'' = [] then None else tokenizer_tokenize_sql (utils_trim ''DELETE'')) \<and>
   cache_inv (fst (tokenizer_tokenize tokenizer_initial ''DELETE''))"
  by (rule tokenizer_cache_transparent [OF cache_inv_initial])

text \<open>
  C34: threads that tokenize at the same time, with lookups, stores, evictions and cleanups
  interleaved in any way, each get the tokens of their own text, and the shared cache stays valid.
\<close>

theorem tokenizer_interleaving_safe:
  assumes "tok_step\<^sup>*\<^sup>* (tokenizer_initial, \<lambda>i. Calling (sqls i)) (st, calls)" "calls i = Returned res"
  shows "res = (if utils_trim (sqls i) = [] then None else tokenizer_tokenize_sql (utils_trim (sqls i))) \<and> cache_inv st"
proof -
  have "cache_inv st \<and> (\<forall>i. call_ok (sqls i) (calls i))"
    by (rule tok_steps_inv [OF assms(1) cache_inv_initial]) (simp add: call_ok_def)
  then show ?thesis using assms(2) spec [of "\<lambda>i. call_ok (sqls i) (calls i)" i] by (simp add: call_ok_def tokens_of_def)
qed

theorem tokenizer_interleaving_safe_witness:
  "(None :: token list option) = (if utils_trim '' '' = [] then None else tokenizer_tokenize_sql (utils_trim '' '')) \<and>
   cache_inv tokenizer_initial"
proof -
  have "tok_step (tokenizer_initial, \<lambda>i. Calling '' '') (tokenizer_initial, (\<lambda>i. Calling '' '')(0 := Returned None))"
    by (rule tok_step.blank [of _ _ "'' ''"]) (simp, code_simp)
  then have "tok_step\<^sup>*\<^sup>* (tokenizer_initial, \<lambda>i. Calling '' '') (tokenizer_initial, (\<lambda>i. Calling '' '')(0 := Returned None))"
    by (rule r_into_rtranclp)
  then show ?thesis by (rule tokenizer_interleaving_safe [where i = 0 and sqls = "\<lambda>i. '' ''"]) simp
qed

text \<open>
  C35: every token a text yields fits the token struct and has a value of its type: keywords are
  in upper case, identifiers are words that are no keywords, integer literals are integers,
  operators are one of the seven.
\<close>

theorem tokens_well_typed:
  assumes "tokenizer_tokenize_sql sql = Some ts"
  shows "ts \<noteq> [] \<and> (\<forall>t \<in> set ts. valid_token t)"
  using tokenize_sql_valid [OF assms] by (simp add: list_all_iff)

theorem tokens_well_typed_witness: "valid_token (mk_token TOKEN_KEYWORD ''SELECT'')"
proof -
  have "tokenizer_tokenize_sql ''select'' = Some [mk_token TOKEN_KEYWORD ''SELECT'']" by code_simp
  then show ?thesis using tokens_well_typed [of "''select''"] by simp
qed

end
