(* ===== verification/Parser.thy ===== *)
theory Parser
  imports Tokenizer_Correct
begin

text \<open>
  The recursive-descent parser of \<^verbatim>\<open>src/db/parser.c\<close>.  The parser's index into the token
  array is the list of tokens that remain; a fixed-size array of the statement structs with
  its count is a list; a \<^verbatim>\<open>has_where\<close> flag with its clause is an option.  \<open>Inl e\<close> is
  \<^verbatim>\<open>FAILURE\<close> with the message \<open>e\<close> printed.
\<close>

section \<open>Statements\<close>

record where_clause =
  wh_column :: string
  wh_op :: string
  wh_value :: string

record insert_statement =
  ins_table :: string
  ins_columns :: "string list"
  ins_values :: "string list"

record select_statement =
  sel_table :: string
  sel_columns :: "string list"
  sel_where :: "where_clause option"

record delete_statement =
  del_table :: string
  del_where :: "where_clause option"

datatype sql_statement =
    SQL_INSERT insert_statement
  | SQL_SELECT select_statement
  | SQL_DELETE delete_statement

datatype parse_error =
    Unexpected_syntax
  | Expected_identifier
  | Identifier_too_long
  | Expected_literal
  | Literal_too_long
  | Trailing_tokens
  | Expected_lparen_after_table
  | Too_many_columns
  | Expected_rparen_after_columns
  | Expected_lparen_before_values
  | Too_many_values
  | Expected_rparen_after_values
  | Count_mismatch
  | Expected_operator
  | Invalid_operator
  | Empty_statement
  | Unsupported_statement

section \<open>Consuming tokens\<close>

definition parser_is_token :: "token list \<Rightarrow> token_type \<Rightarrow> string option \<Rightarrow> bool" where
  "parser_is_token tokens ty value =
     (case tokens of
        [] \<Rightarrow> False
      | t # ts \<Rightarrow> tok_type t = ty \<and>
          (case value of None \<Rightarrow> True | Some v \<Rightarrow> strcmp (tok_value t) v = 0))"

definition parser_expect_keyword :: "token list \<Rightarrow> string \<Rightarrow> parse_error + token list" where
  "parser_expect_keyword tokens keyword =
     (if parser_is_token tokens TOKEN_KEYWORD (Some keyword) then Inr (tl tokens) else Inl Unexpected_syntax)"

definition parser_expect_identifier :: "token list \<Rightarrow> nat \<Rightarrow> parse_error + string \<times> token list" where
  "parser_expect_identifier tokens dest_size =
     (if \<not> parser_is_token tokens TOKEN_IDENTIFIER None then Inl Expected_identifier
      else case utils_safe_strcpy [] dest_size (tok_value (hd tokens)) of
        (v, SUCCESS) \<Rightarrow> Inr (v, tl tokens)
      | (v, FAILURE) \<Rightarrow> Inl Identifier_too_long)"

definition parser_expect_literal :: "token list \<Rightarrow> nat \<Rightarrow> parse_error + string \<times> token list" where
  "parser_expect_literal tokens dest_size =
     (case tokens of
        [] \<Rightarrow> Inl Expected_literal
      | t # ts \<Rightarrow>
          if tok_type t \<noteq> TOKEN_INT_LITERAL \<and> tok_type t \<noteq> TOKEN_STR_LITERAL then Inl Expected_literal
          else case utils_safe_strcpy [] dest_size (tok_value t) of
            (v, SUCCESS) \<Rightarrow> Inr (v, ts)
          | (v, FAILURE) \<Rightarrow> Inl Literal_too_long)"

definition parser_consume_optional_semicolon :: "token list \<Rightarrow> parse_error + unit" where
  "parser_consume_optional_semicolon tokens =
     (let rest = (if parser_is_token tokens TOKEN_SEMICOLON (Some '';'') then tl tokens else tokens) in
      if rest \<noteq> [] then Inl Trailing_tokens else Inr ())"

section \<open>Statements\<close>

text \<open>
  The comma-separated loops of the column lists and the value list: \<open>item\<close> reads one
  element, \<open>acc\<close> holds the elements read so far.
\<close>

function list_loop :: "(token list \<Rightarrow> parse_error + string \<times> token list) \<Rightarrow> parse_error \<Rightarrow>
    string list \<Rightarrow> token list \<Rightarrow> parse_error + string list \<times> token list" where
  "list_loop item too_many acc tokens =
     (if tokens = [] then Inr (acc, tokens)
      else if MAX_COLUMNS \<le> length acc then Inl too_many
      else case item tokens of
        Inl e \<Rightarrow> Inl e
      | Inr (v, ts) \<Rightarrow>
          if parser_is_token ts TOKEN_COMMA (Some '','')
          then list_loop item too_many (acc @ [v]) (tl ts)
          else Inr (acc @ [v], ts))"
  by pat_completeness auto
termination
  by (relation "measure (\<lambda>(item, e, acc, ts). MAX_COLUMNS - length acc)") auto

declare list_loop.simps [simp del]

definition parser_parse_insert :: "token list \<Rightarrow> parse_error + sql_statement" where
  "parser_parse_insert tokens =
     (case parser_expect_keyword tokens ''INSERT'' of Inl e \<Rightarrow> Inl e | Inr ts0 \<Rightarrow>
      case parser_expect_keyword ts0 ''INTO'' of Inl e \<Rightarrow> Inl e | Inr ts1 \<Rightarrow>
      case parser_expect_identifier ts1 MAX_IDENTIFIER_LEN of Inl e \<Rightarrow> Inl e | Inr (table, ts2) \<Rightarrow>
      if \<not> parser_is_token ts2 TOKEN_LPAREN (Some ''('') then Inl Expected_lparen_after_table else
      case list_loop (\<lambda>ts. parser_expect_identifier ts MAX_IDENTIFIER_LEN) Too_many_columns [] (tl ts2) of
        Inl e \<Rightarrow> Inl e | Inr (columns, ts3) \<Rightarrow>
      if \<not> parser_is_token ts3 TOKEN_RPAREN (Some '')'') then Inl Expected_rparen_after_columns else
      case parser_expect_keyword (tl ts3) ''VALUES'' of Inl e \<Rightarrow> Inl e | Inr ts4 \<Rightarrow>
      if \<not> parser_is_token ts4 TOKEN_LPAREN (Some ''('') then Inl Expected_lparen_before_values else
      case list_loop (\<lambda>ts. parser_expect_literal ts MAX_VALUE_LEN) Too_many_values [] (tl ts4) of
        Inl e \<Rightarrow> Inl e | Inr (values, ts5) \<Rightarrow>
      if \<not> parser_is_token ts5 TOKEN_RPAREN (Some '')'') then Inl Expected_rparen_after_values else
      if length columns \<noteq> length values then Inl Count_mismatch else
      case parser_consume_optional_semicolon (tl ts5) of Inl e \<Rightarrow> Inl e | Inr _ \<Rightarrow>
      Inr (SQL_INSERT \<lparr>ins_table = table, ins_columns = columns, ins_values = values\<rparr>))"

definition parser_parse_select_columns :: "token list \<Rightarrow> parse_error + string list \<times> token list" where
  "parser_parse_select_columns tokens =
     (if parser_is_token tokens TOKEN_IDENTIFIER (Some ''*'') then Inr ([], tl tokens)
      else list_loop (\<lambda>ts. parser_expect_identifier ts MAX_IDENTIFIER_LEN) Too_many_columns [] tokens)"

definition parser_parse_where :: "token list \<Rightarrow> parse_error + where_clause \<times> token list" where
  "parser_parse_where tokens =
     (case parser_expect_identifier tokens MAX_IDENTIFIER_LEN of Inl e \<Rightarrow> Inl e | Inr (column, ts1) \<Rightarrow>
      if \<not> parser_is_token ts1 TOKEN_OPERATOR None then Inl Expected_operator else
      case utils_safe_strcpy [] 4 (tok_value (hd ts1)) of
        (op, FAILURE) \<Rightarrow> Inl Invalid_operator
      | (op, SUCCESS) \<Rightarrow>
      case parser_expect_literal (tl ts1) MAX_VALUE_LEN of Inl e \<Rightarrow> Inl e | Inr (value, ts2) \<Rightarrow>
      Inr (\<lparr>wh_column = column, wh_op = op, wh_value = value\<rparr>, ts2))"

text \<open>The optional clause \<^verbatim>\<open>WHERE ...\<close> behind the table name.\<close>

definition optional_where :: "token list \<Rightarrow> parse_error + where_clause option \<times> token list" where
  "optional_where tokens =
     (if parser_is_token tokens TOKEN_KEYWORD (Some ''WHERE'')
      then (case parser_parse_where (tl tokens) of Inl e \<Rightarrow> Inl e | Inr (w, ts) \<Rightarrow> Inr (Some w, ts))
      else Inr (None, tokens))"

definition parser_parse_select :: "token list \<Rightarrow> parse_error + sql_statement" where
  "parser_parse_select tokens =
     (case parser_expect_keyword tokens ''SELECT'' of Inl e \<Rightarrow> Inl e | Inr ts0 \<Rightarrow>
      case parser_parse_select_columns ts0 of Inl e \<Rightarrow> Inl e | Inr (columns, ts1) \<Rightarrow>
      case parser_expect_keyword ts1 ''FROM'' of Inl e \<Rightarrow> Inl e | Inr ts2 \<Rightarrow>
      case parser_expect_identifier ts2 MAX_IDENTIFIER_LEN of Inl e \<Rightarrow> Inl e | Inr (table, ts3) \<Rightarrow>
      case optional_where ts3 of Inl e \<Rightarrow> Inl e | Inr (wh, ts4) \<Rightarrow>
      case parser_consume_optional_semicolon ts4 of Inl e \<Rightarrow> Inl e | Inr _ \<Rightarrow>
      Inr (SQL_SELECT \<lparr>sel_table = table, sel_columns = columns, sel_where = wh\<rparr>))"

definition parser_parse_delete :: "token list \<Rightarrow> parse_error + sql_statement" where
  "parser_parse_delete tokens =
     (case parser_expect_keyword tokens ''DELETE'' of Inl e \<Rightarrow> Inl e | Inr ts0 \<Rightarrow>
      case parser_expect_keyword ts0 ''FROM'' of Inl e \<Rightarrow> Inl e | Inr ts1 \<Rightarrow>
      case parser_expect_identifier ts1 MAX_IDENTIFIER_LEN of Inl e \<Rightarrow> Inl e | Inr (table, ts2) \<Rightarrow>
      case optional_where ts2 of Inl e \<Rightarrow> Inl e | Inr (wh, ts3) \<Rightarrow>
      case parser_consume_optional_semicolon ts3 of Inl e \<Rightarrow> Inl e | Inr _ \<Rightarrow>
      Inr (SQL_DELETE \<lparr>del_table = table, del_where = wh\<rparr>))"

definition parser_parse :: "token list \<Rightarrow> parse_error + sql_statement" where
  "parser_parse tokens =
     (if tokens = [] then Inl Empty_statement
      else if parser_is_token tokens TOKEN_KEYWORD (Some ''INSERT'') then parser_parse_insert tokens
      else if parser_is_token tokens TOKEN_KEYWORD (Some ''SELECT'') then parser_parse_select tokens
      else if parser_is_token tokens TOKEN_KEYWORD (Some ''DELETE'') then parser_parse_delete tokens
      else Inl Unsupported_statement)"

end
