(* ===== verification/Parser_Correct.thy ===== *)
theory Parser_Correct
  imports Parser
begin

text \<open>
  The parser accepts exactly the grammar of the supported statements, stays within the
  sizes of the statement structs, and inverts the printing of statements as SQL text.
\<close>

section \<open>Grammar\<close>

abbreviation kw :: "string \<Rightarrow> token" where "kw v \<equiv> mk_token TOKEN_KEYWORD v"
abbreviation lparen :: token where "lparen \<equiv> mk_token TOKEN_LPAREN ''(''"
abbreviation rparen :: token where "rparen \<equiv> mk_token TOKEN_RPAREN '')''"
abbreviation comma :: token where "comma \<equiv> mk_token TOKEN_COMMA '',''"
abbreviation semicolon :: token where "semicolon \<equiv> mk_token TOKEN_SEMICOLON '';''"
abbreviation ident :: "string \<Rightarrow> token" where "ident v \<equiv> mk_token TOKEN_IDENTIFIER v"

definition is_ident :: "token \<Rightarrow> bool" where
  "is_ident t \<longleftrightarrow> tok_type t = TOKEN_IDENTIFIER \<and> length (tok_value t) < MAX_IDENTIFIER_LEN"

definition is_literal :: "token \<Rightarrow> bool" where
  "is_literal t \<longleftrightarrow> (tok_type t = TOKEN_INT_LITERAL \<or> tok_type t = TOKEN_STR_LITERAL) \<and>
     length (tok_value t) < MAX_VALUE_LEN"

definition is_where_op :: "token \<Rightarrow> bool" where
  "is_where_op t \<longleftrightarrow> tok_type t = TOKEN_OPERATOR \<and> length (tok_value t) < 4"

fun commas :: "token list \<Rightarrow> token list" where
  "commas [] = []"
| "commas [t] = [t]"
| "commas (t # ts) = t # comma # commas ts"

definition items :: "(token \<Rightarrow> bool) \<Rightarrow> token list \<Rightarrow> bool" where
  "items ok its \<longleftrightarrow> its \<noteq> [] \<and> length its \<le> MAX_COLUMNS \<and> list_all ok its"

inductive where_grammar :: "token list \<Rightarrow> where_clause option \<Rightarrow> bool" where
  no_where: "where_grammar [] None"
| with_where: "is_ident c \<Longrightarrow> is_where_op p \<Longrightarrow> is_literal v \<Longrightarrow>
    where_grammar [kw ''WHERE'', c, p, v]
      (Some \<lparr>wh_column = tok_value c, wh_op = tok_value p, wh_value = tok_value v\<rparr>)"

inductive sql_grammar :: "token list \<Rightarrow> sql_statement \<Rightarrow> bool" where
  insert: "is_ident t \<Longrightarrow> items is_ident cols \<Longrightarrow> items is_literal vals \<Longrightarrow> length cols = length vals \<Longrightarrow>
    semi = [] \<or> semi = [semicolon] \<Longrightarrow>
    sql_grammar ([kw ''INSERT'', kw ''INTO'', t, lparen] @ commas cols @
        [rparen, kw ''VALUES'', lparen] @ commas vals @ rparen # semi)
      (SQL_INSERT \<lparr>ins_table = tok_value t, ins_columns = map tok_value cols, ins_values = map tok_value vals\<rparr>)"
| select_star: "is_ident t \<Longrightarrow> where_grammar wts wh \<Longrightarrow> semi = [] \<or> semi = [semicolon] \<Longrightarrow>
    sql_grammar ([kw ''SELECT'', ident ''*'', kw ''FROM'', t] @ wts @ semi)
      (SQL_SELECT \<lparr>sel_table = tok_value t, sel_columns = [], sel_where = wh\<rparr>)"
| select_columns: "is_ident t \<Longrightarrow> items is_ident cols \<Longrightarrow> tok_value (hd cols) \<noteq> ''*'' \<Longrightarrow>
    where_grammar wts wh \<Longrightarrow> semi = [] \<or> semi = [semicolon] \<Longrightarrow>
    sql_grammar ([kw ''SELECT''] @ commas cols @ [kw ''FROM'', t] @ wts @ semi)
      (SQL_SELECT \<lparr>sel_table = tok_value t, sel_columns = map tok_value cols, sel_where = wh\<rparr>)"
| delete: "is_ident t \<Longrightarrow> where_grammar wts wh \<Longrightarrow> semi = [] \<or> semi = [semicolon] \<Longrightarrow>
    sql_grammar ([kw ''DELETE'', kw ''FROM'', t] @ wts @ semi)
      (SQL_DELETE \<lparr>del_table = tok_value t, del_where = wh\<rparr>)"

section \<open>Token tests\<close>

lemma is_token_Some: "parser_is_token ts ty (Some v) \<longleftrightarrow> (\<exists>ts'. ts = mk_token ty v # ts')"
proof (cases ts)
  case (Cons t ts')
  then show ?thesis by (cases t) (auto simp: parser_is_token_def strcmp_zero)
qed (simp add: parser_is_token_def)

lemma is_token_None: "parser_is_token ts ty None \<longleftrightarrow> (\<exists>t ts'. ts = t # ts' \<and> tok_type t = ty)"
  by (cases ts) (auto simp: parser_is_token_def)

lemma expect_keyword_Inr: "parser_expect_keyword ts k = Inr ts' \<longleftrightarrow> ts = kw k # ts'"
  by (auto simp: parser_expect_keyword_def is_token_Some)

lemma safe_strcpy_eq:
  "utils_safe_strcpy [] n v = (if length v < n then (v, SUCCESS) else (take (n - 1) v, FAILURE))"
  by (auto simp: utils_safe_strcpy_def)

lemma expect_identifier_Inr:
  "parser_expect_identifier ts MAX_IDENTIFIER_LEN = Inr (v, ts') \<longleftrightarrow> (\<exists>t. ts = t # ts' \<and> is_ident t \<and> v = tok_value t)"
  by (auto simp: parser_expect_identifier_def is_token_None is_ident_def safe_strcpy_eq split: if_splits)

lemma expect_literal_Inr:
  "parser_expect_literal ts MAX_VALUE_LEN = Inr (v, ts') \<longleftrightarrow> (\<exists>t. ts = t # ts' \<and> is_literal t \<and> v = tok_value t)"
  by (auto simp: parser_expect_literal_def is_literal_def safe_strcpy_eq split: if_splits list.splits)

lemma semicolon_Inr:
  "parser_consume_optional_semicolon ts = Inr u \<longleftrightarrow> ts = [] \<or> ts = [semicolon]"
proof (cases "\<exists>ts'. ts = semicolon # ts'")
  case True
  then show ?thesis by (auto simp: parser_consume_optional_semicolon_def is_token_Some)
next
  case False
  then show ?thesis by (auto simp: parser_consume_optional_semicolon_def is_token_Some Let_def)
qed

section \<open>Lists\<close>

definition reads :: "(token list \<Rightarrow> parse_error + string \<times> token list) \<Rightarrow> (token \<Rightarrow> bool) \<Rightarrow> bool" where
  "reads item ok \<longleftrightarrow> (\<forall>ts v ts'. item ts = Inr (v, ts') \<longleftrightarrow> (\<exists>t. ts = t # ts' \<and> ok t \<and> v = tok_value t))"

lemma reads_ident: "reads (\<lambda>ts. parser_expect_identifier ts MAX_IDENTIFIER_LEN) is_ident"
  by (simp add: reads_def expect_identifier_Inr)

lemma reads_literal: "reads (\<lambda>ts. parser_expect_literal ts MAX_VALUE_LEN) is_literal"
  by (simp add: reads_def expect_literal_Inr)

lemma list_loop_sound:
  assumes "reads item ok" "list_loop item e acc ts = Inr (vs, rest)" "rest \<noteq> []" "length acc \<le> MAX_COLUMNS"
  shows "\<exists>its. its \<noteq> [] \<and> ts = commas its @ rest \<and> list_all ok its \<and> vs = acc @ map tok_value its \<and>
     length vs \<le> MAX_COLUMNS \<and> \<not> parser_is_token rest TOKEN_COMMA (Some '','')"
  using assms(2,4)
proof (induction "MAX_COLUMNS - length acc" arbitrary: acc ts rule: less_induct)
  case less
  have ne: "ts \<noteq> []" "length acc < MAX_COLUMNS"
    using less.prems(1) assms(3) by (auto simp: list_loop.simps [of item e acc ts] split: if_splits)
  then obtain v ts' where it: "item ts = Inr (v, ts')"
    using less.prems(1) by (auto simp: list_loop.simps [of item e acc ts] split: sum.splits)
  then obtain t where t: "ts = t # ts'" "ok t" "v = tok_value t" using assms(1) by (auto simp: reads_def)
  show ?case
  proof (cases "parser_is_token ts' TOKEN_COMMA (Some '','')")
    case True
    then obtain ts2 where ts2: "ts' = comma # ts2" by (auto simp: is_token_Some)
    have "list_loop item e (acc @ [v]) ts2 = Inr (vs, rest)"
      using less.prems(1) ne it True ts2 by (simp add: list_loop.simps [of item e acc ts])
    then obtain its where its: "its \<noteq> []" "ts2 = commas its @ rest" "list_all ok its"
      "vs = (acc @ [v]) @ map tok_value its" "length vs \<le> MAX_COLUMNS" "\<not> parser_is_token rest TOKEN_COMMA (Some '','')"
      using less.hyps [of "acc @ [v]" ts2] ne by fastforce
    then have "commas (t # its) = t # comma # commas its" by (cases its) auto
    then show ?thesis using its t ts2 by (intro exI [of _ "t # its"]) auto
  next
    case False
    then have "vs = acc @ [v]" "rest = ts'"
      using less.prems(1) ne it by (auto simp: list_loop.simps [of item e acc ts])
    then show ?thesis using t ne False by (intro exI [of _ "[t]"]) auto
  qed
qed

lemma list_loop_complete:
  assumes "reads item ok" "its \<noteq> []" "list_all ok its" "length acc + length its \<le> MAX_COLUMNS"
    and "\<not> parser_is_token rest TOKEN_COMMA (Some '','')"
  shows "list_loop item e acc (commas its @ rest) = Inr (acc @ map tok_value its, rest)"
  using assms(2-4)
proof (induction its arbitrary: acc rule: commas.induct)
  case (2 t)
  then have "item (t # rest) = Inr (tok_value t, rest)" using assms(1) by (simp add: reads_def)
  then show ?case using 2 assms(5) by (subst list_loop.simps) simp
next
  case (3 t u us)
  have "item (t # comma # commas (u # us) @ rest) = Inr (tok_value t, comma # commas (u # us) @ rest)"
    using assms(1) 3 by (simp add: reads_def)
  then show ?case using 3 by (subst list_loop.simps) (simp add: is_token_Some)
qed simp

lemma list_loop_items:
  assumes "reads item ok" "\<not> parser_is_token rest TOKEN_COMMA (Some '','')" "rest \<noteq> []"
  shows "list_loop item e [] ts = Inr (vs, rest) \<longleftrightarrow>
     (\<exists>its. items ok its \<and> ts = commas its @ rest \<and> vs = map tok_value its)"
proof
  assume "list_loop item e [] ts = Inr (vs, rest)"
  then show "\<exists>its. items ok its \<and> ts = commas its @ rest \<and> vs = map tok_value its"
    using list_loop_sound [OF assms(1) _ assms(3), of e "[]" ts vs] by (auto simp: items_def)
next
  assume "\<exists>its. items ok its \<and> ts = commas its @ rest \<and> vs = map tok_value its"
  then show "list_loop item e [] ts = Inr (vs, rest)"
    using list_loop_complete [OF assms(1) _ _ _ assms(2), of _ "[]" e] by (auto simp: items_def)
qed

section \<open>Statements\<close>

lemma parse_where_Inr:
  "parser_parse_where ts = Inr (w, rest) \<longleftrightarrow>
     (\<exists>c p v. ts = c # p # v # rest \<and> is_ident c \<and> is_where_op p \<and> is_literal v \<and>
        w = \<lparr>wh_column = tok_value c, wh_op = tok_value p, wh_value = tok_value v\<rparr>)"
proof
  assume parse: "parser_parse_where ts = Inr (w, rest)"
  then obtain col ts1 where id: "parser_expect_identifier ts MAX_IDENTIFIER_LEN = Inr (col, ts1)"
    by (auto simp: parser_parse_where_def split: sum.splits)
  then obtain c where c: "ts = c # ts1" "is_ident c" "col = tok_value c" by (auto simp: expect_identifier_Inr)
  from parse id obtain p ts2 where p: "ts1 = p # ts2" "tok_type p = TOKEN_OPERATOR"
    by (auto simp: parser_parse_where_def is_token_None split: if_splits)
  with parse id have len: "length (tok_value p) < 4"
    by (auto simp: parser_parse_where_def is_token_None safe_strcpy_eq split: if_splits)
  with parse id p obtain val where lit: "parser_expect_literal ts2 MAX_VALUE_LEN = Inr (val, rest)"
    "w = \<lparr>wh_column = col, wh_op = tok_value p, wh_value = val\<rparr>"
    by (auto simp: parser_parse_where_def is_token_None safe_strcpy_eq split: sum.splits)
  then show "\<exists>c p v. ts = c # p # v # rest \<and> is_ident c \<and> is_where_op p \<and> is_literal v \<and>
      w = \<lparr>wh_column = tok_value c, wh_op = tok_value p, wh_value = tok_value v\<rparr>"
    using c p len by (auto simp: expect_literal_Inr is_where_op_def)
next
  assume "\<exists>c p v. ts = c # p # v # rest \<and> is_ident c \<and> is_where_op p \<and> is_literal v \<and>
      w = \<lparr>wh_column = tok_value c, wh_op = tok_value p, wh_value = tok_value v\<rparr>"
  then obtain c p v where g: "ts = c # p # v # rest" "is_ident c" "is_where_op p" "is_literal v"
    "w = \<lparr>wh_column = tok_value c, wh_op = tok_value p, wh_value = tok_value v\<rparr>" by blast
  have "parser_expect_identifier ts MAX_IDENTIFIER_LEN = Inr (tok_value c, p # v # rest)"
    "parser_expect_literal (v # rest) MAX_VALUE_LEN = Inr (tok_value v, rest)"
    using g by (simp_all add: expect_identifier_Inr expect_literal_Inr)
  then show "parser_parse_where ts = Inr (w, rest)"
    using g(3,5) by (simp add: parser_parse_where_def is_token_None safe_strcpy_eq is_where_op_def)
qed

lemma optional_where_sound:
  "optional_where ts = Inr (wh, rest) \<Longrightarrow> \<exists>wts. ts = wts @ rest \<and> where_grammar wts wh"
  by (auto simp: optional_where_def is_token_Some parse_where_Inr where_grammar.simps split: if_splits sum.splits)

lemma optional_where_complete:
  assumes "where_grammar wts wh" "\<not> parser_is_token rest TOKEN_KEYWORD (Some ''WHERE'')"
  shows "optional_where (wts @ rest) = Inr (wh, rest)"
  using assms(1)
proof cases
  case no_where
  then show ?thesis using assms(2) by (simp add: optional_where_def)
next
  case (with_where c p v)
  then have "parser_parse_where (c # p # v # rest) =
      Inr (\<lparr>wh_column = tok_value c, wh_op = tok_value p, wh_value = tok_value v\<rparr>, rest)"
    by (simp add: parse_where_Inr)
  then show ?thesis using with_where by (simp add: optional_where_def is_token_Some)
qed

lemma is_token_other [simp]:
  "parser_is_token (mk_token ty v # ts) ty' (Some v') \<longleftrightarrow> ty = ty' \<and> v = v'"
  by (simp add: is_token_Some)

lemma insert_sound:
  assumes "parser_parse_insert ts = Inr s"
  shows "sql_grammar ts s"
proof -
  obtain ts1 where k: "ts = kw ''INSERT'' # kw ''INTO'' # ts1"
    using assms by (auto simp: parser_parse_insert_def expect_keyword_Inr split: sum.splits)
  have e0: "parser_expect_keyword ts ''INSERT'' = Inr (kw ''INTO'' # ts1)"
    "parser_expect_keyword (kw ''INTO'' # ts1) ''INTO'' = Inr ts1" by (simp_all add: k expect_keyword_Inr)
  obtain tab ts2 where i: "parser_expect_identifier ts1 MAX_IDENTIFIER_LEN = Inr (tab, ts2)"
    using assms e0 by (auto simp: parser_parse_insert_def split: sum.splits)
  obtain ts3 where l: "ts2 = lparen # ts3"
    using assms e0 i by (auto simp: parser_parse_insert_def is_token_Some split: if_splits)
  let ?cols = "list_loop (\<lambda>ts. parser_expect_identifier ts MAX_IDENTIFIER_LEN) Too_many_columns []"
  let ?vals = "list_loop (\<lambda>ts. parser_expect_literal ts MAX_VALUE_LEN) Too_many_values []"
  obtain cols ts4 where c: "?cols ts3 = Inr (cols, ts4)"
    using assms e0 i l by (auto simp: parser_parse_insert_def split: sum.splits)
  obtain ts5 where r: "ts4 = rparen # kw ''VALUES'' # lparen # ts5"
    using assms e0 i l c by (auto simp: parser_parse_insert_def is_token_Some expect_keyword_Inr split: if_splits sum.splits)
  have e1: "parser_expect_keyword (kw ''VALUES'' # lparen # ts5) ''VALUES'' = Inr (lparen # ts5)"
    by (simp add: expect_keyword_Inr)
  obtain vals ts6 where v: "?vals ts5 = Inr (vals, ts6)"
    using assms e0 i l c r e1 by (auto simp: parser_parse_insert_def split: sum.splits)
  obtain semi where s: "ts6 = rparen # semi" "length cols = length vals" "semi = [] \<or> semi = [semicolon]"
    "s = SQL_INSERT \<lparr>ins_table = tab, ins_columns = cols, ins_values = vals\<rparr>"
    using assms e0 i l c r e1 v
    by (auto simp: parser_parse_insert_def is_token_Some semicolon_Inr split: if_splits sum.splits)
  obtain t where t: "ts1 = t # ts2" "is_ident t" "tab = tok_value t" using i by (auto simp: expect_identifier_Inr)
  obtain cts where cts: "items is_ident cts" "ts3 = commas cts @ ts4" "cols = map tok_value cts"
    using c list_loop_items [OF reads_ident, of ts4 Too_many_columns ts3 cols] by (auto simp: r)
  obtain vts where vts: "items is_literal vts" "ts5 = commas vts @ ts6" "vals = map tok_value vts"
    using v list_loop_items [OF reads_literal, of ts6 Too_many_values ts5 vals] by (auto simp: s)
  have "length cts = length vts" using s(2) cts(3) vts(3) by simp
  then show ?thesis
    using sql_grammar.insert [OF t(2) cts(1) vts(1) _ s(3)] k t l cts r vts s by simp
qed

lemma select_columns_sound:
  assumes "parser_parse_select_columns ts = Inr (cols, rest)" "rest = kw ''FROM'' # rest'"
  shows "ts = ident ''*'' # rest \<and> cols = [] \<or>
     (\<exists>cts. items is_ident cts \<and> tok_value (hd cts) \<noteq> ''*'' \<and> ts = commas cts @ rest \<and> cols = map tok_value cts)"
proof (cases "parser_is_token ts TOKEN_IDENTIFIER (Some ''*'')")
  case True
  then show ?thesis using assms by (auto simp: parser_parse_select_columns_def is_token_Some)
next
  case False
  then obtain cts where cts: "items is_ident cts" "ts = commas cts @ rest" "cols = map tok_value cts"
    using assms list_loop_items [OF reads_ident, of rest Too_many_columns ts cols]
    by (auto simp: parser_parse_select_columns_def)
  obtain t us where c: "cts = t # us" "is_ident t" using cts(1) by (cases cts) (auto simp: items_def)
  then have "tok_value t \<noteq> ''*''"
    using False cts(2) by (cases us; cases t) (auto simp: is_token_Some is_ident_def)
  then show ?thesis using cts c by auto
qed

lemma select_columns_complete:
  assumes "items is_ident cts" "tok_value (hd cts) \<noteq> ''*''" "\<not> parser_is_token rest TOKEN_COMMA (Some '','')" "rest \<noteq> []"
  shows "parser_parse_select_columns (commas cts @ rest) = Inr (map tok_value cts, rest)"
proof -
  obtain t us where c: "cts = t # us" using assms(1) by (cases cts) (auto simp: items_def)
  then have "\<not> parser_is_token (commas cts @ rest) TOKEN_IDENTIFIER (Some ''*'')"
    using assms(2) by (cases us; cases t) (auto simp: is_token_Some)
  then show ?thesis
    using assms list_loop_items [OF reads_ident, of rest Too_many_columns "commas cts @ rest" "map tok_value cts"]
    by (auto simp: parser_parse_select_columns_def)
qed

lemma select_sound:
  assumes "parser_parse_select ts = Inr s"
  shows "sql_grammar ts s"
proof -
  obtain ts1 where k: "ts = kw ''SELECT'' # ts1" and e0: "parser_expect_keyword ts ''SELECT'' = Inr ts1"
    using assms by (auto simp: parser_parse_select_def expect_keyword_Inr split: sum.splits)
  obtain cols ts2 where c: "parser_parse_select_columns ts1 = Inr (cols, kw ''FROM'' # ts2)"
    using assms e0 by (auto simp: parser_parse_select_def expect_keyword_Inr split: sum.splits)
  have e1: "parser_expect_keyword (kw ''FROM'' # ts2) ''FROM'' = Inr ts2" by (simp add: expect_keyword_Inr)
  obtain tab ts3 where i: "parser_expect_identifier ts2 MAX_IDENTIFIER_LEN = Inr (tab, ts3)"
    using assms e0 c e1 by (auto simp: parser_parse_select_def split: sum.splits)
  obtain wh semi where w: "optional_where ts3 = Inr (wh, semi)" "semi = [] \<or> semi = [semicolon]"
    "s = SQL_SELECT \<lparr>sel_table = tab, sel_columns = cols, sel_where = wh\<rparr>"
    using assms e0 c e1 i by (auto simp: parser_parse_select_def semicolon_Inr split: sum.splits)
  obtain t where t: "ts2 = t # ts3" "is_ident t" "tab = tok_value t" using i by (auto simp: expect_identifier_Inr)
  obtain wts where wts: "ts3 = wts @ semi" "where_grammar wts wh" using optional_where_sound [OF w(1)] by blast
  show ?thesis
    using select_columns_sound [OF c refl] sql_grammar.select_star [OF t(2) wts(2) w(2)]
      sql_grammar.select_columns [OF t(2) _ _ wts(2) w(2)] k t wts w(3) by fastforce
qed

lemma delete_sound:
  assumes "parser_parse_delete ts = Inr s"
  shows "sql_grammar ts s"
proof -
  obtain ts1 where k: "ts = kw ''DELETE'' # kw ''FROM'' # ts1"
    using assms by (auto simp: parser_parse_delete_def expect_keyword_Inr split: sum.splits)
  have e0: "parser_expect_keyword ts ''DELETE'' = Inr (kw ''FROM'' # ts1)"
    "parser_expect_keyword (kw ''FROM'' # ts1) ''FROM'' = Inr ts1" by (simp_all add: k expect_keyword_Inr)
  obtain tab ts3 where i: "parser_expect_identifier ts1 MAX_IDENTIFIER_LEN = Inr (tab, ts3)"
    using assms e0 by (auto simp: parser_parse_delete_def split: sum.splits)
  obtain wh semi where w: "optional_where ts3 = Inr (wh, semi)" "semi = [] \<or> semi = [semicolon]"
    "s = SQL_DELETE \<lparr>del_table = tab, del_where = wh\<rparr>"
    using assms e0 i by (auto simp: parser_parse_delete_def semicolon_Inr split: sum.splits)
  obtain t where t: "ts1 = t # ts3" "is_ident t" "tab = tok_value t" using i by (auto simp: expect_identifier_Inr)
  obtain wts where wts: "ts3 = wts @ semi" "where_grammar wts wh" using optional_where_sound [OF w(1)] by blast
  show ?thesis using sql_grammar.delete [OF t(2) wts(2) w(2)] k t wts w(3) by simp
qed

lemma expect_ident_token: "is_ident t \<Longrightarrow> parser_expect_identifier (t # ts) MAX_IDENTIFIER_LEN = Inr (tok_value t, ts)"
  by (simp add: expect_identifier_Inr)

lemma expect_kw_token: "parser_expect_keyword (kw k # ts) k = Inr ts"
  by (simp add: expect_keyword_Inr)

lemma semi_no_where: "semi = [] \<or> semi = [semicolon] \<Longrightarrow> \<not> parser_is_token semi TOKEN_KEYWORD (Some ''WHERE'')"
  by (auto simp: is_token_Some)

lemma semi_consumed: "semi = [] \<or> semi = [semicolon] \<Longrightarrow> parser_consume_optional_semicolon semi = Inr ()"
  by (simp add: semicolon_Inr)

lemma grammar_complete: "sql_grammar ts s \<Longrightarrow> parser_parse ts = Inr s"
proof (induction rule: sql_grammar.induct)
  case (insert t cols vals semi)
  let ?rest = "rparen # kw ''VALUES'' # lparen # commas vals @ rparen # semi"
  have "list_loop (\<lambda>ts. parser_expect_identifier ts MAX_IDENTIFIER_LEN) Too_many_columns [] (commas cols @ ?rest) =
      Inr (map tok_value cols, ?rest)"
    using list_loop_items [OF reads_ident, of ?rest] insert by auto
  moreover have "list_loop (\<lambda>ts. parser_expect_literal ts MAX_VALUE_LEN) Too_many_values [] (commas vals @ rparen # semi) =
      Inr (map tok_value vals, rparen # semi)"
    using list_loop_items [OF reads_literal, of "rparen # semi"] insert by auto
  ultimately show ?case
    using insert by (simp add: parser_parse_def parser_parse_insert_def expect_kw_token expect_ident_token semi_consumed)
next
  case (select_star t wts wh semi)
  then show ?case
    using optional_where_complete [OF select_star(2) semi_no_where [OF select_star(3)]]
    by (simp add: parser_parse_def parser_parse_select_def parser_parse_select_columns_def expect_kw_token
        expect_ident_token semi_consumed)
next
  case (select_columns t cols wts wh semi)
  then show ?case
    using optional_where_complete [OF select_columns(4) semi_no_where [OF select_columns(5)]]
      select_columns_complete [OF select_columns(2,3), of "kw ''FROM'' # t # wts @ semi"]
    by (simp add: parser_parse_def parser_parse_select_def expect_kw_token expect_ident_token semi_consumed)
next
  case (delete t wts wh semi)
  then show ?case
    using optional_where_complete [OF delete(2) semi_no_where [OF delete(3)]]
    by (simp add: parser_parse_def parser_parse_delete_def expect_kw_token expect_ident_token semi_consumed)
qed

lemma parse_sound: "parser_parse ts = Inr s \<Longrightarrow> sql_grammar ts s"
  by (auto simp: parser_parse_def intro: insert_sound select_sound delete_sound split: if_splits)

section \<open>Bounds\<close>

definition wf_name :: "string \<Rightarrow> bool" where
  "wf_name v \<longleftrightarrow> length v < MAX_IDENTIFIER_LEN"

definition wf_value :: "string \<Rightarrow> bool" where
  "wf_value v \<longleftrightarrow> length v < MAX_VALUE_LEN"

definition wf_where :: "where_clause option \<Rightarrow> bool" where
  "wf_where wh = (case wh of None \<Rightarrow> True
     | Some w \<Rightarrow> wf_name (wh_column w) \<and> length (wh_op w) < 4 \<and> wf_value (wh_value w))"

fun wf_statement :: "sql_statement \<Rightarrow> bool" where
  "wf_statement (SQL_INSERT s) \<longleftrightarrow> wf_name (ins_table s) \<and> ins_columns s \<noteq> [] \<and>
     length (ins_columns s) \<le> MAX_COLUMNS \<and> length (ins_values s) = length (ins_columns s) \<and>
     list_all wf_name (ins_columns s) \<and> list_all wf_value (ins_values s)"
| "wf_statement (SQL_SELECT s) \<longleftrightarrow> wf_name (sel_table s) \<and> length (sel_columns s) \<le> MAX_COLUMNS \<and>
     list_all wf_name (sel_columns s) \<and> wf_where (sel_where s)"
| "wf_statement (SQL_DELETE s) \<longleftrightarrow> wf_name (del_table s) \<and> wf_where (del_where s)"

lemma where_grammar_wf: "where_grammar wts wh \<Longrightarrow> wf_where wh"
  by (induction rule: where_grammar.induct)
    (auto simp: wf_where_def wf_name_def wf_value_def is_ident_def is_where_op_def is_literal_def)

lemma grammar_wf: "sql_grammar ts s \<Longrightarrow> wf_statement s"
  by (induction rule: sql_grammar.induct)
    (auto simp: where_grammar_wf items_def is_ident_def is_literal_def wf_name_def wf_value_def list_all_iff)

section \<open>Printing and parsing\<close>

definition printable_name :: "string \<Rightarrow> bool" where
  "printable_name v \<longleftrightarrow> is_word v \<and> \<not> utils_is_sql_keyword v"

definition printable_where :: "where_clause option \<Rightarrow> bool" where
  "printable_where wh = (case wh of None \<Rightarrow> True
     | Some w \<Rightarrow> printable_name (wh_column w) \<and> wh_op w \<in> {''='', ''!='', ''<='', ''>='', ''<'', ''>'', ''!''})"

fun printable :: "sql_statement \<Rightarrow> bool" where
  "printable (SQL_INSERT s) \<longleftrightarrow> printable_name (ins_table s) \<and> list_all printable_name (ins_columns s)"
| "printable (SQL_SELECT s) \<longleftrightarrow> printable_name (sel_table s) \<and> list_all printable_name (sel_columns s) \<and>
     printable_where (sel_where s)"
| "printable (SQL_DELETE s) \<longleftrightarrow> printable_name (del_table s) \<and> printable_where (del_where s)"

abbreviation str_lit :: "string \<Rightarrow> token" where "str_lit v \<equiv> mk_token TOKEN_STR_LITERAL v"

fun where_tokens :: "where_clause option \<Rightarrow> token list" where
  "where_tokens None = []"
| "where_tokens (Some w) =
     [kw ''WHERE'', ident (wh_column w), mk_token TOKEN_OPERATOR (wh_op w), str_lit (wh_value w)]"

fun statement_tokens :: "sql_statement \<Rightarrow> token list" where
  "statement_tokens (SQL_INSERT s) = [kw ''INSERT'', kw ''INTO'', ident (ins_table s), lparen] @
     commas (map ident (ins_columns s)) @ [rparen, kw ''VALUES'', lparen] @
     commas (map str_lit (ins_values s)) @ rparen # [semicolon]"
| "statement_tokens (SQL_SELECT s) =
     [kw ''SELECT''] @ (if sel_columns s = [] then [ident ''*''] else commas (map ident (sel_columns s))) @
     [kw ''FROM'', ident (sel_table s)] @ where_tokens (sel_where s) @ [semicolon]"
| "statement_tokens (SQL_DELETE s) =
     [kw ''DELETE'', kw ''FROM'', ident (del_table s)] @ where_tokens (del_where s) @ [semicolon]"

definition print_sql :: "sql_statement \<Rightarrow> string" where
  "print_sql s = render_tokens (statement_tokens s)"

lemma valid_ident: "printable_name v \<Longrightarrow> wf_name v \<Longrightarrow> valid_token (ident v)"
  by (simp add: printable_name_def wf_name_def valid_token_def limit_defs)

lemma valid_str: "wf_value v \<Longrightarrow> valid_token (str_lit v)"
  by (simp add: wf_value_def valid_token_def limit_defs)

lemma valid_kw: "k \<in> set sql_keywords \<Longrightarrow> valid_token (kw k)"
  by (auto simp: valid_token_def sql_keywords_def limit_defs)

lemma valid_punct: "valid_token lparen" "valid_token rparen" "valid_token comma" "valid_token semicolon"
  "valid_token (ident ''*'')"
  by (simp_all add: valid_token_def limit_defs)

lemma valid_op:
  "v \<in> {''='', ''!='', ''<='', ''>='', ''<'', ''>'', ''!''} \<Longrightarrow> valid_token (mk_token TOKEN_OPERATOR v)"
  by (auto simp: valid_token_def limit_defs)

lemma commas_valid: "list_all valid_token ts \<Longrightarrow> list_all valid_token (commas ts)"
  by (induction ts rule: commas.induct) (auto simp: valid_punct)

lemma where_valid: "wf_where wh \<Longrightarrow> printable_where wh \<Longrightarrow> list_all valid_token (where_tokens wh)"
  by (cases wh) (simp_all add: wf_where_def printable_where_def valid_ident valid_str valid_kw sql_keywords_def
      valid_op)

lemma statement_tokens_valid:
  assumes "wf_statement s" "printable s"
  shows "list_all valid_token (statement_tokens s)"
proof -
  have ids: "list_all valid_token (map ident vs)" if "list_all wf_name vs" "list_all printable_name vs" for vs
    using that by (auto simp: list_all_iff valid_ident)
  have strs: "list_all valid_token (map str_lit vs)" if "list_all wf_value vs" for vs
    using that by (auto simp: list_all_iff valid_str)
  show ?thesis
    using assms ids strs by (cases s)
      (auto simp: valid_punct valid_kw sql_keywords_def commas_valid where_valid valid_ident)
qed

lemma ident_item: "wf_name v \<Longrightarrow> is_ident (ident v)"
  by (simp add: is_ident_def wf_name_def)

lemma where_tokens_grammar:
  "wf_where wh \<Longrightarrow> where_grammar (where_tokens wh) wh"
  by (cases wh) (auto simp: where_grammar.simps wf_where_def wf_name_def wf_value_def is_ident_def is_where_op_def is_literal_def)

lemma items_map:
  "vs \<noteq> [] \<Longrightarrow> length vs \<le> MAX_COLUMNS \<Longrightarrow> \<forall>v \<in> set vs. ok (f v) \<Longrightarrow> items ok (map f vs)"
  by (simp add: items_def list_all_iff)

lemma word_not_star: "printable_name v \<Longrightarrow> v \<noteq> ''*''"
  by (auto simp: printable_name_def is_word_def ctype_defs)

lemma statement_tokens_grammar:
  assumes "wf_statement s" "printable s"
  shows "sql_grammar (statement_tokens s) s"
proof (cases s)
  case (SQL_INSERT i)
  have it: "items is_ident (map ident (ins_columns i))" "items is_literal (map str_lit (ins_values i))"
    using assms(1) SQL_INSERT
    by (auto intro!: items_map simp: ident_item list_all_iff is_literal_def wf_value_def)
  show ?thesis
    using sql_grammar.insert [OF _ it, of "ident (ins_table i)" "[semicolon]"] assms SQL_INSERT
    by (cases i) (simp add: ident_item comp_def)
next
  case (SQL_SELECT q)
  have t: "is_ident (ident (sel_table q))" and w: "where_grammar (where_tokens (sel_where q)) (sel_where q)"
    using assms(1) SQL_SELECT by (auto simp: ident_item where_tokens_grammar)
  show ?thesis
  proof (cases "sel_columns q")
    case Nil
    then show ?thesis using sql_grammar.select_star [OF t w, of "[semicolon]"] SQL_SELECT by (cases q) simp
  next
    case (Cons c cs)
    have "items is_ident (map ident (sel_columns q))"
      using assms(1) SQL_SELECT Cons by (intro items_map) (auto simp: ident_item list_all_iff)
    moreover have "c \<noteq> ''*''" using assms(2) SQL_SELECT Cons word_not_star by auto
    ultimately show ?thesis
      using sql_grammar.select_columns [OF t _ _ w, of "map ident (sel_columns q)" "[semicolon]"] SQL_SELECT Cons
      by (cases q) (simp add: comp_def)
  qed
next
  case (SQL_DELETE d)
  then show ?thesis
    using sql_grammar.delete [of "ident (del_table d)" _ _ "[semicolon]"] assms
    by (cases d) (simp add: ident_item where_tokens_grammar)
qed

lemma print_parse:
  assumes "wf_statement s" "printable s"
  shows "tokens_of (print_sql s) = Some (statement_tokens s) \<and> parser_parse (statement_tokens s) = Inr s"
proof -
  have v: "list_all valid_token (statement_tokens s)" by (rule statement_tokens_valid [OF assms])
  have ne: "statement_tokens s \<noteq> []" by (cases s) auto
  then have "print_sql s \<noteq> []" using render_tokens_last [OF v] by (simp add: print_sql_def)
  then have "tokens_of (print_sql s) = Some (statement_tokens s)"
    using tokenize_sql_render [OF v ne] render_tokens_trim [OF v] by (simp add: tokens_of_def print_sql_def)
  then show ?thesis using grammar_complete [OF statement_tokens_grammar [OF assms]] by simp
qed

section \<open>Properties\<close>

text \<open>
  C32: the parser accepts a token list as a statement exactly if the grammar derives it: INSERT
  with as many values as columns, SELECT of columns or of the star, DELETE, each with an optional
  condition and semicolon, and nothing after it.
\<close>

theorem parser_accepts_grammar: "parser_parse ts = Inr s \<longleftrightarrow> sql_grammar ts s"
  using parse_sound grammar_complete by blast

text \<open>
  C10: printing a statement as SQL text and sending the text through tokenizer and parser gives
  the statement back, for every statement whose names are words; literals may hold any
  characters, quotes included.
\<close>

theorem print_tokenize_parse:
  assumes "wf_statement s" "printable s"
  shows "\<exists>ts. tokenizer_tokenize_sql (print_sql s) = Some ts \<and> parser_parse ts = Inr s"
proof -
  have t: "tokens_of (print_sql s) = Some (statement_tokens s)" "parser_parse (statement_tokens s) = Inr s"
    using print_parse [OF assms] by simp_all
  have "list_all valid_token (statement_tokens s)" by (rule statement_tokens_valid [OF assms])
  then have "utils_trim (print_sql s) = print_sql s" using render_tokens_trim by (simp add: print_sql_def)
  then show ?thesis using t by (auto simp: tokens_of_def split: if_splits)
qed

theorem print_tokenize_parse_witness:
  "\<exists>ts. tokenizer_tokenize_sql (print_sql (SQL_INSERT \<lparr>ins_table = ''t'', ins_columns = [''a''], ins_values = [''it'' @ QUOTE # ''s'']\<rparr>)) = Some ts \<and>
     parser_parse ts = Inr (SQL_INSERT \<lparr>ins_table = ''t'', ins_columns = [''a''], ins_values = [''it'' @ QUOTE # ''s'']\<rparr>)"
  by (rule print_tokenize_parse) code_simp+

text \<open>
  C36: a parsed statement fits its struct: names below 64 bytes, values below 256, at most 32
  columns, operators below 4 bytes, and as many values as columns.
\<close>

theorem parsed_statement_fits:
  assumes "parser_parse ts = Inr s"
  shows "wf_statement s"
  by (rule grammar_wf [OF parse_sound [OF assms]])

theorem parsed_statement_fits_witness:
  "wf_statement (SQL_DELETE \<lparr>del_table = ''t'', del_where = None\<rparr>)"
  by (rule parsed_statement_fits [of "[kw ''DELETE'', kw ''FROM'', ident ''t'']"]) code_simp

end
