(* ===== verification/Storage.thy ===== *)
theory Storage
  imports Parser_Correct "HOL-Library.Code_Target_Nat"
begin

text \<open>
  The CSV storage of \<^verbatim>\<open>src/db/storage.c\<close> over a model of the files under \<^verbatim>\<open>data/\<close>.  A
  file is its contents; an open file read by \<^verbatim>\<open>fgets\<close> is the part not yet read.  System
  calls on an existing file succeed (no I/O errors, no failing \<^verbatim>\<open>flock\<close>); a missing file,
  a missing or unusable \<^verbatim>\<open>data\<close> directory and every check of the code itself are
  modelled.  Files are text without NUL bytes.  \<open>Inl e\<close> is \<^verbatim>\<open>FAILURE\<close> with the message
  \<open>e\<close> printed.
\<close>

section \<open>Files\<close>

datatype data_entry = Data_missing | Data_directory | Data_other

record file_system =
  data_dir :: data_entry
  files :: "string \<rightharpoonup> string"

datatype storage_error =
    Data_not_directory
  | Path_too_long
  | Table_not_found
  | Open_failed
  | Malformed_line
  | Header_too_long
  | Row_too_long
  | Too_many_header_columns
  | Column_name_too_long
  | Corrupted_row
  | Empty_primary_key
  | Duplicate_primary_key
  | Unsupported_operator
  | Column_not_found
  | Auto_id_needs_id
  | Auto_id_needs_integer
  | Auto_id_overflow
  | Too_many_columns_for_id
  | Schema_count_mismatch
  | Schema_column_missing

definition fopen_read :: "file_system \<Rightarrow> string \<Rightarrow> string option" where
  "fopen_read fs path = (if data_dir fs = Data_directory then files fs path else None)"

text \<open>
  \<^verbatim>\<open>fgets(line, size, fp)\<close>: at most \<^verbatim>\<open>size - 1\<close> characters up to and including a newline.
  The result is the line, the rest of the file, and whether the end of the file was met;
  \<open>None\<close> is NULL.
\<close>

fun fgets_loop :: "nat \<Rightarrow> string \<Rightarrow> string \<times> string \<times> bool" where
  "fgets_loop 0 s = ([], s, False)"
| "fgets_loop (Suc n) [] = ([], [], True)"
| "fgets_loop (Suc n) (c # cs) =
     (if c = NL then ([c], cs, False)
      else case fgets_loop n cs of (line, rest, eof) \<Rightarrow> (c # line, rest, eof))"

lemma fgets_loop_code [code]:
  "fgets_loop n s = (if n = 0 then ([], s, False) else case s of [] \<Rightarrow> ([], [], True)
     | c # cs \<Rightarrow> if c = NL then ([c], cs, False)
         else (case fgets_loop (n - 1) cs of (line, rest, eof) \<Rightarrow> (c # line, rest, eof)))"
  by (cases n; cases s) auto

definition fgets :: "nat \<Rightarrow> string \<Rightarrow> (string \<times> string \<times> bool) option" where
  "fgets bufsize s = (case fgets_loop (bufsize - 1) s of
     (line, rest, eof) \<Rightarrow> if line = [] then None else Some (line, rest, eof))"

definition storage_ensure_data_dir :: "file_system \<Rightarrow> file_system \<times> (storage_error + unit)" where
  "storage_ensure_data_dir fs =
     (case data_dir fs of
        Data_directory \<Rightarrow> (fs, Inr ())
      | Data_other \<Rightarrow> (fs, Inl Data_not_directory)
      | Data_missing \<Rightarrow> (fs\<lparr>data_dir := Data_directory\<rparr>, Inr ()))"

definition storage_build_path :: "string \<Rightarrow> string option" where
  "storage_build_path table_name =
     (let path = ''data/'' @ table_name @ ''.csv'' in
      if length path < MAX_PATH_LEN then Some path else None)"

section \<open>CSV lines\<close>

text \<open>
  The loop of \<^verbatim>\<open>storage_parse_csv_line\<close>: the fields read, the current field, whether it
  is inside quotes, and the rest of the line.
\<close>

fun parse_csv_loop :: "string list \<Rightarrow> string \<Rightarrow> bool \<Rightarrow> string \<Rightarrow> string list option" where
  "parse_csv_loop flds current True [] = None"
| "parse_csv_loop flds current False [] = Some (flds @ [current])"
| "parse_csv_loop flds current True [c] =
     (if c = DQUOTE then Some (flds @ [current]) else None)"
| "parse_csv_loop flds current True (c # d # cs) =
     (if c = DQUOTE
      then (if d = DQUOTE then parse_csv_loop flds (current @ [DQUOTE]) True cs
            else parse_csv_loop flds current False (d # cs))
      else if c = NL \<or> c = CR then None
      else parse_csv_loop flds (current @ [c]) True (d # cs))"
| "parse_csv_loop flds current False (c # cs) =
     (if c = DQUOTE then parse_csv_loop flds current True cs
      else if c = CHR '','' then parse_csv_loop (flds @ [current]) [] False cs
      else if c = NL \<or> c = CR then Some (flds @ [current])
      else parse_csv_loop flds (current @ [c]) False cs)"

definition storage_parse_csv_line :: "string \<Rightarrow> string list option" where
  "storage_parse_csv_line line = parse_csv_loop [] [] False line"

definition needs_quotes :: "string \<Rightarrow> bool" where
  "needs_quotes value = list_ex (\<lambda>c. c = CHR '','' \<or> c = DQUOTE \<or> c = NL \<or> c = CR) value"

fun quoted_chars :: "string \<Rightarrow> string" where
  "quoted_chars [] = []"
| "quoted_chars (c # cs) = (if c = DQUOTE then [DQUOTE, DQUOTE] else [c]) @ quoted_chars cs"

definition storage_write_csv_value :: "string \<Rightarrow> string" where
  "storage_write_csv_value value =
     (if needs_quotes value then DQUOTE # quoted_chars value @ [DQUOTE] else value)"

fun write_csv_loop :: "nat \<Rightarrow> string list \<Rightarrow> string" where
  "write_csv_loop i [] = [NL]"
| "write_csv_loop i (v # vs) =
     (if 0 < i then [CHR '',''] else []) @ storage_write_csv_value v @ write_csv_loop (Suc i) vs"

definition storage_write_csv_row :: "string list \<Rightarrow> string" where
  "storage_write_csv_row values = write_csv_loop 0 values"

definition storage_write_header :: "string list \<Rightarrow> string" where
  "storage_write_header columns = storage_write_csv_row columns"

section \<open>Columns and conditions\<close>

fun find_index_loop :: "nat \<Rightarrow> string list \<Rightarrow> string \<Rightarrow> nat option" where
  "find_index_loop i [] target = None"
| "find_index_loop i (c # cs) target =
     (if utils_equals_ignore_case c target then Some i else find_index_loop (Suc i) cs target)"

definition storage_find_column_index :: "string list \<Rightarrow> string \<Rightarrow> nat option" where
  "storage_find_column_index columns target = find_index_loop 0 columns target"

definition storage_copy_columns :: "string list \<Rightarrow> string list option" where
  "storage_copy_columns parsed =
     (if list_all (\<lambda>c. snd (utils_safe_strcpy [] MAX_IDENTIFIER_LEN c) = SUCCESS) parsed
      then Some (map (\<lambda>c. fst (utils_safe_strcpy [] MAX_IDENTIFIER_LEN c)) parsed) else None)"

definition storage_compare_with_operator :: "string \<Rightarrow> string \<Rightarrow> string \<Rightarrow> bool option" where
  "storage_compare_with_operator lhs op rhs =
     (let comparison = utils_compare_values lhs rhs in
      if strcmp op ''='' = 0 then Some (comparison = 0)
      else if strcmp op ''!='' = 0 then Some (comparison \<noteq> 0)
      else if strcmp op ''>'' = 0 then Some (0 < comparison)
      else if strcmp op ''<'' = 0 then Some (comparison < 0)
      else if strcmp op ''>='' = 0 then Some (0 \<le> comparison)
      else if strcmp op ''<='' = 0 then Some (comparison \<le> 0)
      else None)"

definition storage_row_matches_where ::
  "string list \<Rightarrow> string list \<Rightarrow> where_clause \<Rightarrow> storage_error + bool" where
  "storage_row_matches_where row columns w =
     (case storage_find_column_index columns (wh_column w) of
        None \<Rightarrow> Inl Column_not_found
      | Some i \<Rightarrow>
          (case storage_compare_with_operator (row ! i) (wh_op w) (wh_value w) of
             None \<Rightarrow> Inl Unsupported_operator
           | Some b \<Rightarrow> Inr b))"

section \<open>Reading tables\<close>

definition storage_read_header :: "string \<Rightarrow> storage_error + string list \<times> string" where
  "storage_read_header s =
     (case fgets MAX_CSV_LINE_LENGTH s of
        None \<Rightarrow> Inr ([], s)
      | Some (line, rest, eof) \<Rightarrow>
          if NL \<notin> set line \<and> \<not> eof then Inl Header_too_long
          else case storage_parse_csv_line line of
            None \<Rightarrow> Inl Malformed_line
          | Some parsed \<Rightarrow>
              if MAX_COLUMNS < length parsed then Inl Too_many_header_columns
              else case storage_copy_columns parsed of
                None \<Rightarrow> Inl Column_name_too_long
              | Some columns \<Rightarrow> Inr (columns, rest))"

text \<open>
  One round of the three loops over the data rows (in \<^verbatim>\<open>storage_validate_primary_key\<close>,
  \<^verbatim>\<open>storage_get_next_auto_id\<close> and \<^verbatim>\<open>storage_load_table_from_fp\<close>): read a line, refuse one
  that is too long, skip a blank one, parse it and check the number of flds.
\<close>

datatype row_read =
    End_of_file
  | Bad_row storage_error
  | Blank_line string
  | Data_row "string list" string

definition read_row_line :: "nat \<Rightarrow> string \<Rightarrow> row_read" where
  "read_row_line col_count s =
     (case fgets MAX_CSV_LINE_LENGTH s of
        None \<Rightarrow> End_of_file
      | Some (line, rest, eof) \<Rightarrow>
          if NL \<notin> set line \<and> \<not> eof then Bad_row Row_too_long
          else if hd line = NL \<or> hd line = CR then Blank_line rest
          else case storage_parse_csv_line line of
            None \<Rightarrow> Bad_row Malformed_line
          | Some flds \<Rightarrow> if length flds \<noteq> col_count then Bad_row Corrupted_row else Data_row flds rest)"

lemma fgets_loop_rest: "fgets_loop n s = (line, rest, eof) \<Longrightarrow> s = line @ rest"
  by (induction n s arbitrary: line rest eof rule: fgets_loop.induct) (auto split: if_splits prod.splits)

lemma fgets_shrinks: "fgets n s = Some (line, rest, eof) \<Longrightarrow> length rest < length s"
  using fgets_loop_rest by (fastforce simp: fgets_def split: prod.splits if_splits)

lemma read_row_shrinks:
  "read_row_line n s = Blank_line rest \<Longrightarrow> length rest < length s"
  "read_row_line n s = Data_row flds rest \<Longrightarrow> length rest < length s"
  by (auto simp: read_row_line_def split: option.splits if_splits prod.splits dest: fgets_shrinks)

function primary_key_loop :: "nat \<Rightarrow> nat \<Rightarrow> string \<Rightarrow> string \<Rightarrow> storage_error + unit" where
  "primary_key_loop col_count id_index new_id s =
     (case read_row_line col_count s of
        End_of_file \<Rightarrow> Inr ()
      | Bad_row e \<Rightarrow> Inl e
      | Blank_line rest \<Rightarrow> primary_key_loop col_count id_index new_id rest
      | Data_row flds rest \<Rightarrow>
          if strcmp (flds ! id_index) new_id = 0 then Inl Duplicate_primary_key
          else primary_key_loop col_count id_index new_id rest)"
  by pat_completeness auto
termination
  by (relation "measure (\<lambda>(n, i, v, s). length s)") (auto dest: read_row_shrinks)

definition storage_validate_primary_key ::
  "string list \<Rightarrow> string list \<Rightarrow> string \<Rightarrow> storage_error + unit" where
  "storage_validate_primary_key columns ordered_values s =
     (case storage_find_column_index columns ''id'' of
        None \<Rightarrow> Inr ()
      | Some id_index \<Rightarrow>
          if ordered_values ! id_index = [] then Inl Empty_primary_key
          else primary_key_loop (length columns) id_index (ordered_values ! id_index) s)"

function auto_id_loop :: "nat \<Rightarrow> nat \<Rightarrow> int \<Rightarrow> string \<Rightarrow> storage_error + int" where
  "auto_id_loop col_count id_index next_id s =
     (case read_row_line col_count s of
        End_of_file \<Rightarrow> Inr next_id
      | Bad_row e \<Rightarrow> Inl e
      | Blank_line rest \<Rightarrow> auto_id_loop col_count id_index next_id rest
      | Data_row flds rest \<Rightarrow>
          if \<not> utils_is_integer (flds ! id_index) then Inl Auto_id_needs_integer
          else let current_id = utils_parse_integer (flds ! id_index) in
            if next_id \<le> current_id
            then (if current_id = LLONG_MAX then Inl Auto_id_overflow
                  else auto_id_loop col_count id_index (current_id + 1) rest)
            else auto_id_loop col_count id_index next_id rest)"
  by pat_completeness auto
termination
  by (relation "measure (\<lambda>(n, i, v, s). length s)") (auto dest: read_row_shrinks)

text \<open>\<^verbatim>\<open>snprintf("%lld")\<close>\<close>

fun show_nat :: "nat \<Rightarrow> string" where
  "show_nat n = (if n < 10 then [char_of (48 + n)] else show_nat (n div 10) @ [char_of (48 + n mod 10)])"

declare show_nat.simps [simp del]

definition show_int :: "int \<Rightarrow> string" where
  "show_int i = (if i < 0 then CHR ''-'' # show_nat (nat (- i)) else show_nat (nat i))"

definition storage_get_next_auto_id :: "string list \<Rightarrow> string \<Rightarrow> storage_error + string" where
  "storage_get_next_auto_id columns s =
     (case storage_find_column_index columns ''id'' of
        None \<Rightarrow> Inl Auto_id_needs_id
      | Some id_index \<Rightarrow>
          (case auto_id_loop (length columns) id_index 1 s of
             Inl e \<Rightarrow> Inl e
           | Inr next_id \<Rightarrow> Inr (show_int next_id)))"

record table_data =
  td_columns :: "string list"
  td_rows :: "string list list"
  td_offsets :: "nat list"

function load_rows :: "nat \<Rightarrow> bool \<Rightarrow> nat \<Rightarrow> string list list \<Rightarrow> nat list \<Rightarrow> string \<Rightarrow>
    storage_error + string list list \<times> nat list" where
  "load_rows col_count include_offsets pos rows offsets s =
     (case read_row_line col_count s of
        End_of_file \<Rightarrow> Inr (rows, offsets)
      | Bad_row e \<Rightarrow> Inl e
      | Blank_line rest \<Rightarrow>
          load_rows col_count include_offsets (pos + (length s - length rest)) rows offsets rest
      | Data_row flds rest \<Rightarrow>
          load_rows col_count include_offsets (pos + (length s - length rest)) (rows @ [flds])
            (if include_offsets then offsets @ [pos] else offsets) rest)"
  by pat_completeness auto
termination
  by (relation "measure (\<lambda>(n, b, pos, rows, offsets, s). length s)") (auto dest: read_row_shrinks)

declare primary_key_loop.simps [simp del] auto_id_loop.simps [simp del] load_rows.simps [simp del]

definition storage_load_table_from_fp :: "string \<Rightarrow> bool \<Rightarrow> storage_error + table_data" where
  "storage_load_table_from_fp s include_offsets =
     (case storage_read_header s of
        Inl e \<Rightarrow> Inl e
      | Inr (columns, rest) \<Rightarrow>
          (case load_rows (length columns) include_offsets (length s - length rest) [] [] rest of
             Inl e \<Rightarrow> Inl e
           | Inr (rows, offsets) \<Rightarrow> Inr \<lparr>td_columns = columns, td_rows = rows, td_offsets = offsets\<rparr>))"

definition storage_load_table_internal :: "file_system \<Rightarrow> string \<Rightarrow> bool \<Rightarrow> storage_error + table_data" where
  "storage_load_table_internal fs table_name include_offsets =
     (case storage_build_path table_name of
        None \<Rightarrow> Inl Path_too_long
      | Some path \<Rightarrow>
          (case fopen_read fs path of
             None \<Rightarrow> Inl Table_not_found
           | Some s \<Rightarrow> storage_load_table_from_fp s include_offsets))"

definition storage_load_table :: "file_system \<Rightarrow> string \<Rightarrow> storage_error + table_data" where
  "storage_load_table fs table_name = storage_load_table_internal fs table_name True"

definition storage_select :: "file_system \<Rightarrow> string \<Rightarrow> (string list list \<times> nat) option" where
  "storage_select fs table_name =
     (case storage_load_table fs table_name of
        Inl e \<Rightarrow> None
      | Inr t \<Rightarrow> Some (td_rows t, length (td_columns t)))"

definition storage_get_columns :: "file_system \<Rightarrow> string \<Rightarrow> storage_error + string list" where
  "storage_get_columns fs table_name =
     (case storage_build_path table_name of
        None \<Rightarrow> Inl Path_too_long
      | Some path \<Rightarrow>
          (case fopen_read fs path of
             None \<Rightarrow> Inl Table_not_found
           | Some s \<Rightarrow> (case storage_read_header s of Inl e \<Rightarrow> Inl e | Inr (columns, rest) \<Rightarrow> Inr columns)))"

definition storage_table_exists :: "file_system \<Rightarrow> string \<Rightarrow> bool" where
  "storage_table_exists fs table_name =
     (case storage_build_path table_name of
        None \<Rightarrow> False
      | Some path \<Rightarrow> fopen_read fs path \<noteq> None)"

text \<open>\<^verbatim>\<open>storage_read_row_at_offset\<close>; seeking beyond the end reads nothing.\<close>

datatype offset_error = Offset_path | Offset_not_found | Offset_read | Offset_malformed | Offset_corrupted

definition storage_read_row_at_offset ::
  "file_system \<Rightarrow> string \<Rightarrow> nat \<Rightarrow> int \<Rightarrow> offset_error + string list" where
  "storage_read_row_at_offset fs table_name offset expected_col_count =
     (case storage_build_path table_name of
        None \<Rightarrow> Inl Offset_path
      | Some path \<Rightarrow>
          (case fopen_read fs path of
             None \<Rightarrow> Inl Offset_not_found
           | Some s \<Rightarrow>
               (case fgets MAX_CSV_LINE_LENGTH (drop offset s) of
                  None \<Rightarrow> Inl Offset_read
                | Some (line, rest, eof) \<Rightarrow>
                    (case storage_parse_csv_line line of
                       None \<Rightarrow> Inl Offset_malformed
                     | Some flds \<Rightarrow>
                         if 0 \<le> expected_col_count \<and> int (length flds) \<noteq> expected_col_count
                         then Inl Offset_corrupted else Inr flds))))"

section \<open>Changing tables\<close>

text \<open>
  \<^verbatim>\<open>storage_delete\<close>: the rows that stay are written to a temporary file that then replaces
  the table.  The result carries the number of rows deleted so far, as the out parameter
  does also on a failure.
\<close>

fun delete_loop :: "string list \<Rightarrow> where_clause option \<Rightarrow> string list list \<Rightarrow> string \<Rightarrow> nat \<Rightarrow>
    nat \<times> (storage_error + string)" where
  "delete_loop columns wh [] out deleted = (deleted, Inr out)"
| "delete_loop columns wh (row # rows) out deleted =
     (case (case wh of None \<Rightarrow> Inr True | Some w \<Rightarrow> storage_row_matches_where row columns w) of
        Inl e \<Rightarrow> (deleted, Inl e)
      | Inr True \<Rightarrow> delete_loop columns wh rows out (Suc deleted)
      | Inr False \<Rightarrow> delete_loop columns wh rows (out @ storage_write_csv_row row) deleted)"

definition temp_path :: "string \<Rightarrow> string" where
  "temp_path table_name = take (MAX_PATH_LEN - 1) (''data/'' @ table_name @ ''.tmp'')"

definition storage_delete ::
  "file_system \<Rightarrow> string \<Rightarrow> delete_statement \<Rightarrow> file_system \<times> nat \<times> (storage_error + unit)" where
  "storage_delete fs table_name stmt =
     (case storage_build_path table_name of
        None \<Rightarrow> (fs, 0, Inl Path_too_long)
      | Some path \<Rightarrow>
          (case fopen_read fs path of
             None \<Rightarrow> (fs, 0, Inl Table_not_found)
           | Some s \<Rightarrow>
               (case storage_load_table_from_fp s False of
                  Inl e \<Rightarrow> (fs, 0, Inl e)
                | Inr t \<Rightarrow>
                    (case delete_loop (td_columns t) (del_where stmt) (td_rows t)
                        (storage_write_header (td_columns t)) 0 of
                       (deleted, Inl e) \<Rightarrow>
                         (fs\<lparr>files := (files fs)(temp_path table_name := None)\<rparr>, deleted, Inl e)
                     | (deleted, Inr out) \<Rightarrow>
                         (fs\<lparr>files := (files fs)(temp_path table_name := None, path \<mapsto> out)\<rparr>, deleted, Inr ())))))"

text \<open>The two branches of \<^verbatim>\<open>storage_insert\<close>: the text appended to the table file.\<close>

definition insert_new_table :: "insert_statement \<Rightarrow> string \<Rightarrow> storage_error + string" where
  "insert_new_table stmt s =
     (case storage_find_column_index (ins_columns stmt) ''id'' of
        None \<Rightarrow>
          if MAX_COLUMNS < length (ins_columns stmt) + 1 then Inl Too_many_columns_for_id
          else (case storage_copy_columns (ins_columns stmt) of
            None \<Rightarrow> Inl Column_name_too_long
          | Some cols \<Rightarrow>
              (case storage_validate_primary_key (''id'' # cols) (''1'' # ins_values stmt) s of
                 Inl e \<Rightarrow> Inl e
               | Inr _ \<Rightarrow> Inr (storage_write_csv_row (''id'' # cols) @
                     storage_write_csv_row (''1'' # ins_values stmt))))
      | Some _ \<Rightarrow>
          (case storage_copy_columns (ins_columns stmt) of
             None \<Rightarrow> Inl Column_name_too_long
           | Some cols \<Rightarrow>
              (case storage_validate_primary_key cols (ins_values stmt) s of
                 Inl e \<Rightarrow> Inl e
               | Inr _ \<Rightarrow> Inr (storage_write_csv_row cols @ storage_write_csv_row (ins_values stmt)))))"

definition insert_existing_table ::
  "string list \<Rightarrow> insert_statement \<Rightarrow> string \<Rightarrow> storage_error + string" where
  "insert_existing_table existing stmt s =
     (let n = length (ins_columns stmt);
          existing_id = storage_find_column_index existing ''id'';
          stmt_id = storage_find_column_index (ins_columns stmt) ''id'';
          auto = (existing_id \<noteq> None \<and> stmt_id = None) in
      if existing_id = None \<and> length existing \<noteq> n \<or>
         existing_id \<noteq> None \<and> stmt_id \<noteq> None \<and> length existing \<noteq> n \<or>
         auto \<and> length existing \<noteq> n + 1
      then Inl Schema_count_mismatch
      else if list_ex (\<lambda>i. \<not> (existing_id = Some i \<and> stmt_id = None) \<and>
           storage_find_column_index (ins_columns stmt) (existing ! i) = None) [0..<length existing]
      then Inl Schema_column_missing
      else case (if auto then storage_get_next_auto_id existing s else Inr []) of
        Inl e \<Rightarrow> Inl e
      | Inr auto_id \<Rightarrow>
          let ordered = map (\<lambda>i. if existing_id = Some i \<and> stmt_id = None then auto_id
                else ins_values stmt ! the (storage_find_column_index (ins_columns stmt) (existing ! i)))
              [0..<length existing] in
          (case (if auto then Inr () else storage_validate_primary_key existing ordered s) of
             Inl e \<Rightarrow> Inl e
           | Inr _ \<Rightarrow> Inr (storage_write_csv_row ordered)))"

text \<open>
  \<^verbatim>\<open>storage_insert\<close>: opening for appending creates the file, also when the insertion is
  then refused.
\<close>

definition storage_insert ::
  "file_system \<Rightarrow> string \<Rightarrow> insert_statement \<Rightarrow> file_system \<times> (storage_error + unit)" where
  "storage_insert fs table_name stmt =
     (case storage_ensure_data_dir fs of
        (fs1, Inl e) \<Rightarrow> (fs1, Inl e)
      | (fs1, Inr _) \<Rightarrow>
          (case storage_build_path table_name of
             None \<Rightarrow> (fs1, Inl Path_too_long)
           | Some path \<Rightarrow>
               let s = (case files fs1 path of None \<Rightarrow> [] | Some s \<Rightarrow> s);
                   fs2 = fs1\<lparr>files := (files fs1)(path \<mapsto> s)\<rparr> in
               (case storage_read_header s of
                  Inl e \<Rightarrow> (fs2, Inl e)
                | Inr (existing, rest) \<Rightarrow>
                    (case (if existing = [] then insert_new_table stmt rest
                           else insert_existing_table existing stmt rest) of
                       Inl e \<Rightarrow> (fs2, Inl e)
                     | Inr out \<Rightarrow> (fs2\<lparr>files := (files fs2)(path \<mapsto> s @ out)\<rparr>, Inr ())))))"

end
