(* ===== verification/Storage_Correct.thy ===== *)
theory Storage_Correct
  imports Storage
begin

text \<open>
  What the CSV storage guarantees: rows written are read back unchanged, a table file is the
  text of its header and rows, and insertion and deletion change exactly the rows they
  should.
\<close>

section \<open>CSV round trip\<close>

definition line_safe :: "string \<Rightarrow> bool" where
  "line_safe v \<longleftrightarrow> NL \<notin> set v \<and> CR \<notin> set v"

lemma parse_quoted:
  "line_safe v \<Longrightarrow> rest \<noteq> [] \<Longrightarrow> hd rest \<noteq> DQUOTE \<Longrightarrow>
   parse_csv_loop F cur True (quoted_chars v @ DQUOTE # rest) = parse_csv_loop F (cur @ v) False rest"
proof (induction v arbitrary: cur)
  case Nil
  then show ?case by (cases rest) auto
next
  case (Cons c v)
  have step: "parse_csv_loop F (cur @ [c]) True (quoted_chars v @ DQUOTE # rest) = parse_csv_loop F (cur @ c # v) False rest"
    using Cons.IH [of "cur @ [c]"] Cons.prems by (simp add: line_safe_def)
  obtain d ds where "quoted_chars v @ DQUOTE # rest = d # ds" by (cases "quoted_chars v") auto
  then show ?case using step Cons.prems by (auto simp: line_safe_def)
qed

lemma parse_plain:
  "\<not> needs_quotes v \<Longrightarrow> parse_csv_loop F cur False (v @ rest) = parse_csv_loop F (cur @ v) False rest"
  by (induction v arbitrary: cur) (auto simp: needs_quotes_def)

lemma parse_value:
  assumes "line_safe v" "rest \<noteq> []" "hd rest \<noteq> DQUOTE"
  shows "parse_csv_loop F [] False (storage_write_csv_value v @ rest) = parse_csv_loop F v False rest"
  using parse_quoted [OF assms, of F "[]"] parse_plain [of v F "[]" rest]
  by (simp add: storage_write_csv_value_def)

lemma write_loop_later: "\<exists>c cs. write_csv_loop (Suc i) vs = c # cs \<and> c \<noteq> DQUOTE"
  by (cases vs) auto

lemma parse_row_loop:
  "list_all line_safe (v # vs) \<Longrightarrow>
   parse_csv_loop F [] False (storage_write_csv_value v @ write_csv_loop (Suc i) vs) = Some (F @ v # vs)"
proof (induction vs arbitrary: F v i)
  case Nil
  then show ?case using parse_value [of v "[NL]" F] by simp
next
  case (Cons w ws)
  have "parse_csv_loop F [] False (storage_write_csv_value v @ write_csv_loop (Suc i) (w # ws)) =
      parse_csv_loop F v False (CHR '','' # storage_write_csv_value w @ write_csv_loop (Suc (Suc i)) ws)"
    using Cons.prems by (subst parse_value) auto
  also have "\<dots> = parse_csv_loop (F @ [v]) [] False (storage_write_csv_value w @ write_csv_loop (Suc (Suc i)) ws)"
    by simp
  finally show ?case using Cons.IH [of w "F @ [v]" "Suc i"] Cons.prems by simp
qed

lemma parse_written_row:
  "vs \<noteq> [] \<Longrightarrow> list_all line_safe vs \<Longrightarrow> storage_parse_csv_line (storage_write_csv_row vs) = Some vs"
  using parse_row_loop [of "hd vs" "tl vs" "[]" 0]
  by (cases vs) (simp_all add: storage_parse_csv_line_def storage_write_csv_row_def)

section \<open>Lines of a file\<close>

lemma fgets_line:
  assumes "NL \<notin> set body" "length body < n"
  shows "fgets_loop n (body @ NL # rest) = (body @ [NL], rest, False)"
  using assms
proof (induction body arbitrary: n)
  case Nil
  then show ?case by (cases n) auto
next
  case (Cons c body)
  then show ?case by (cases n) auto
qed

lemma quoted_chars_set: "set (quoted_chars v) = set v"
  by (induction v) auto

lemma quoted_chars_length: "length (quoted_chars v) \<le> 2 * length v"
  by (induction v) auto

lemma write_value_set: "set (storage_write_csv_value v) \<subseteq> insert DQUOTE (set v)"
  by (auto simp: storage_write_csv_value_def quoted_chars_set)

lemma write_value_length: "length (storage_write_csv_value v) \<le> 2 * length v + 2"
  using quoted_chars_length [of v] by (simp add: storage_write_csv_value_def)

text \<open>A written row is one line, and the widest row a statement can carry fits the read buffer.\<close>

definition row_body :: "string list \<Rightarrow> string" where
  "row_body vs = butlast (storage_write_csv_row vs)"

lemma write_loop_snoc: "\<exists>b. write_csv_loop i vs = b @ [NL] \<and> (list_all line_safe vs \<longrightarrow> NL \<notin> set b)"
proof (induction vs arbitrary: i)
  case (Cons v vs)
  obtain b where b: "write_csv_loop (Suc i) vs = b @ [NL]" "list_all line_safe vs \<longrightarrow> NL \<notin> set b"
    using Cons.IH [of "Suc i"] by blast
  have "line_safe v \<longrightarrow> NL \<notin> set (storage_write_csv_value v)"
    using write_value_set [of v] by (auto simp: line_safe_def)
  then show ?case using b by (cases "0 < i") auto
qed simp

lemma row_body_eq: "storage_write_csv_row vs = row_body vs @ [NL]"
  using write_loop_snoc [of 0 vs] by (auto simp: row_body_def storage_write_csv_row_def)

lemma row_body_safe: "list_all line_safe vs \<Longrightarrow> NL \<notin> set (row_body vs)"
  using write_loop_snoc [of 0 vs] by (auto simp: row_body_def storage_write_csv_row_def)

lemma write_loop_length:
  "\<forall>v \<in> set vs. length v \<le> m \<Longrightarrow> length (write_csv_loop i vs) \<le> length vs * (2 * m + 3) + 1"
proof (induction vs arbitrary: i)
  case (Cons v vs)
  have "length (storage_write_csv_value v) \<le> 2 * m + 2"
    using write_value_length [of v] Cons.prems by (auto intro: order_trans)
  moreover have "length (write_csv_loop (Suc i) vs) \<le> length vs * (2 * m + 3) + 1" using Cons by simp
  ultimately show ?case by auto
qed simp

definition wf_row :: "nat \<Rightarrow> string list \<Rightarrow> bool" where
  "wf_row n r \<longleftrightarrow> length r = n \<and> list_all line_safe r \<and> r \<noteq> [[]] \<and> r \<noteq> [] \<and>
     length (storage_write_csv_row r) < MAX_CSV_LINE_LENGTH"

lemma write_value_hd:
  "v \<noteq> [] \<Longrightarrow> \<exists>c cs. storage_write_csv_value v = c # cs \<and> c \<noteq> NL \<and> c \<noteq> CR"
  by (cases v) (auto simp: storage_write_csv_value_def needs_quotes_def)

lemma row_hd:
  assumes "r \<noteq> [[]]" "r \<noteq> []"
  shows "\<exists>c cs. storage_write_csv_row r = c # cs \<and> c \<noteq> NL \<and> c \<noteq> CR"
proof (cases r)
  case (Cons v vs)
  show ?thesis
  proof (cases "v = []")
    case True
    then obtain w ws where "vs = w # ws" using assms(1) Cons by (cases vs) auto
    then show ?thesis using True Cons
      by (simp add: storage_write_csv_row_def storage_write_csv_value_def needs_quotes_def)
  next
    case False
    then show ?thesis using write_value_hd [OF False] Cons by (auto simp: storage_write_csv_row_def)
  qed
qed (use assms in simp)

lemma fgets_row:
  assumes "wf_row n r"
  shows "fgets MAX_CSV_LINE_LENGTH (storage_write_csv_row r @ rest) = Some (storage_write_csv_row r, rest, False)"
proof -
  have "length (row_body r) < MAX_CSV_LINE_LENGTH - 1" "NL \<notin> set (row_body r)"
    using assms row_body_eq [of r] row_body_safe [of r] by (auto simp: wf_row_def)
  then show ?thesis using fgets_line [of "row_body r" "MAX_CSV_LINE_LENGTH - 1" rest]
    by (simp add: fgets_def row_body_eq)
qed

lemma read_row_written:
  assumes "wf_row n r"
  shows "read_row_line n (storage_write_csv_row r @ rest) = Data_row r rest"
proof -
  obtain c cs where hd: "storage_write_csv_row r = c # cs" "c \<noteq> NL" "c \<noteq> CR"
    using row_hd [of r] assms by (auto simp: wf_row_def)
  have "storage_parse_csv_line (storage_write_csv_row r) = Some r"
    using assms parse_written_row by (auto simp: wf_row_def)
  moreover have "NL \<in> set (storage_write_csv_row r)" by (simp add: row_body_eq)
  ultimately show ?thesis
    using fgets_row [OF assms, of rest] hd assms
    by (simp add: read_row_line_def wf_row_def)
qed

lemma read_row_end: "read_row_line n [] = End_of_file"
  by (simp add: read_row_line_def fgets_def MAX_CSV_LINE_LENGTH_def numeral_eq_Suc)

section \<open>Table files\<close>

definition rows_text :: "string list list \<Rightarrow> string" where
  "rows_text rows = concat (map storage_write_csv_row rows)"

definition table_text :: "string list \<Rightarrow> string list list \<Rightarrow> string" where
  "table_text cols rows = storage_write_csv_row cols @ rows_text rows"

definition wf_columns :: "string list \<Rightarrow> bool" where
  "wf_columns cols \<longleftrightarrow> cols \<noteq> [] \<and> cols \<noteq> [[]] \<and> length cols \<le> MAX_COLUMNS \<and> list_all line_safe cols \<and>
     (\<forall>c \<in> set cols. length c < MAX_IDENTIFIER_LEN)"

definition wf_table :: "string list \<Rightarrow> string list list \<Rightarrow> bool" where
  "wf_table cols rows \<longleftrightarrow> wf_columns cols \<and> list_all (wf_row (length cols)) rows"

lemma rows_text_simps [simp]:
  "rows_text [] = []" "rows_text (r # rs) = storage_write_csv_row r @ rows_text rs"
  "rows_text (rs @ rs') = rows_text rs @ rows_text rs'"
  by (simp_all add: rows_text_def)

lemma copy_columns_ok: "\<forall>c \<in> set cols. length c < MAX_IDENTIFIER_LEN \<Longrightarrow> storage_copy_columns cols = Some cols"
  by (simp add: storage_copy_columns_def list_all_iff safe_strcpy_eq map_idI)

lemma wf_columns_row:
  assumes "wf_columns cols"
  shows "wf_row (length cols) cols"
proof -
  have "\<forall>v \<in> set cols. length v \<le> 63" using assms by (auto simp: wf_columns_def MAX_IDENTIFIER_LEN_def)
  then have "length (storage_write_csv_row cols) \<le> length cols * 129 + 1"
    using write_loop_length [of cols 63 0] by (simp add: storage_write_csv_row_def)
  also have "\<dots> < MAX_CSV_LINE_LENGTH" using assms by (simp add: wf_columns_def limit_defs)
  finally show ?thesis using assms by (simp add: wf_row_def wf_columns_def)
qed

lemma read_header_written:
  assumes "wf_columns cols"
  shows "storage_read_header (storage_write_csv_row cols @ rest) = Inr (cols, rest)"
proof -
  note row = wf_columns_row [OF assms]
  have "storage_parse_csv_line (storage_write_csv_row cols) = Some cols"
    using row parse_written_row by (auto simp: wf_row_def)
  moreover have "NL \<in> set (storage_write_csv_row cols)" by (simp add: row_body_eq)
  ultimately show ?thesis
    using fgets_row [OF row, of rest] assms copy_columns_ok [of cols]
    by (simp add: storage_read_header_def wf_columns_def)
qed

fun row_offsets :: "nat \<Rightarrow> string list list \<Rightarrow> nat list" where
  "row_offsets pos [] = []"
| "row_offsets pos (r # rs) = pos # row_offsets (pos + length (storage_write_csv_row r)) rs"

lemma load_rows_written:
  "list_all (wf_row n) rs \<Longrightarrow>
   load_rows n True pos rows offs (rows_text rs) = Inr (rows @ rs, offs @ row_offsets pos rs) \<and>
   load_rows n False pos rows offs (rows_text rs) = Inr (rows @ rs, offs)"
proof (induction rs arbitrary: pos rows offs)
  case Nil
  then show ?case by (simp add: load_rows.simps read_row_end)
next
  case (Cons r rs)
  have rd: "read_row_line n (storage_write_csv_row r @ rows_text rs) = Data_row r (rows_text rs)"
    using Cons.prems by (intro read_row_written) simp
  then show ?case
    using Cons by (auto simp: load_rows.simps [of n _ pos rows offs "storage_write_csv_row r @ rows_text rs"])
qed

lemma load_table_written:
  assumes "wf_table cols rows"
  shows "storage_load_table_from_fp (table_text cols rows) True =
      Inr \<lparr>td_columns = cols, td_rows = rows, td_offsets = row_offsets (length (storage_write_csv_row cols)) rows\<rparr>"
    "storage_load_table_from_fp (table_text cols rows) False =
      Inr \<lparr>td_columns = cols, td_rows = rows, td_offsets = []\<rparr>"
  using assms read_header_written [of cols "rows_text rows"]
    load_rows_written [of "length cols" rows _ "[]" "[]"]
  by (simp_all add: storage_load_table_from_fp_def table_text_def wf_table_def)

section \<open>Printed integers\<close>

lemma digit_char:
  assumes "d < 10"
  shows "byte_of (char_of (48 + d)) = 48 + d" "is_digit (char_of (48 + d))"
proof -
  have "48 + d < 256" using assms by simp
  then show "byte_of (char_of (48 + d)) = 48 + d" by (simp only: of_char_of mod_less)
  then show "is_digit (char_of (48 + d))" using assms by (simp add: is_digit_def del: of_char_of)
qed

lemma digits_value_append:
  "list_all is_digit xs \<Longrightarrow> digits_value acc (xs @ ys) = digits_value (digits_value acc xs) ys"
  by (induction xs arbitrary: acc) auto

lemma show_nat_digits: "list_all is_digit (show_nat n) \<and> show_nat n \<noteq> [] \<and> digits_value 0 (show_nat n) = int n"
proof (induction n rule: show_nat.induct)
  case (1 n)
  show ?case
  proof (cases "n < 10")
    case True
    then show ?thesis using digit_char [of n] by (simp add: show_nat.simps [of n] del: of_char_of)
  next
    case False
    have d: "n mod 10 < 10" by simp
    have eq: "show_nat n = show_nat (n div 10) @ [char_of (48 + n mod 10)]"
      using False by (simp add: show_nat.simps [of n])
    note IH = 1 [OF False]
    have "digits_value 0 (show_nat n) = 10 * int (n div 10) + int (n mod 10)"
      unfolding eq using IH digit_char [OF d] by (simp add: digits_value_append del: of_char_of)
    also have "\<dots> = int n" by presburger
    finally show ?thesis using IH digit_char(2) [OF d] by (simp add: eq)
  qed
qed

lemma digit_not_sign: "is_digit c \<Longrightarrow> c \<noteq> CHR ''-'' \<and> c \<noteq> CHR ''+'' \<and> \<not> is_space c"
  by (auto simp: is_digit_def is_space_def)

lemma parse_show_nat:
  assumes "int n \<le> LLONG_MAX"
  shows "utils_parse_integer (show_nat n) = int n \<and> utils_is_integer (show_nat n)"
proof -
  obtain c cs where c: "show_nat n = c # cs" "is_digit c" "list_all is_digit cs"
    using show_nat_digits [of n] by (cases "show_nat n") auto
  have "clamp (int n) = int n" using assms by (simp add: clamp_def LLONG_MIN_def)
  then show ?thesis
    using c digit_not_sign [OF c(2)] show_nat_digits [of n]
    by (simp add: utils_parse_integer_def strtoll_def utils_is_integer_def del: digits_value.simps)
qed

lemma parse_show_int:
  assumes "0 \<le> i" "i \<le> LLONG_MAX"
  shows "utils_parse_integer (show_int i) = i \<and> utils_is_integer (show_int i)"
  using parse_show_nat [of "nat i"] assms by (simp add: show_int_def)

lemma digit_plain: "is_digit c \<Longrightarrow> c \<noteq> NL \<and> c \<noteq> CR \<and> c \<noteq> CHR '','' \<and> c \<noteq> DQUOTE"
  by (auto simp: is_digit_def)

lemma show_int_plain:
  assumes "0 \<le> i"
  shows "line_safe (show_int i)" "\<not> needs_quotes (show_int i)" "show_int i \<noteq> []"
  using assms show_nat_digits [of "nat i"] digit_plain
  by (auto simp: show_int_def line_safe_def needs_quotes_def list_ex_iff list_all_iff)

lemma show_nat_length: "n < 10 ^ k \<Longrightarrow> 0 < k \<Longrightarrow> length (show_nat n) \<le> k"
proof (induction n arbitrary: k rule: show_nat.induct)
  case (1 n)
  show ?case
  proof (cases "n < 10")
    case True
    then show ?thesis using 1 by (simp add: show_nat.simps [of n])
  next
    case False
    then obtain j where k: "k = Suc j" "0 < j" using "1.prems" by (cases k; cases "k - 1") auto
    have "n div 10 < 10 ^ j" using "1.prems" k by (simp add: less_mult_imp_div_less mult.commute)
    then show ?thesis using "1.IH" [OF False, of j] False k by (simp add: show_nat.simps [of n])
  qed
qed

section \<open>Automatic ids\<close>

text \<open>The id that follows the largest id of the rows, starting from a given one.\<close>

definition next_id_from :: "nat \<Rightarrow> int \<Rightarrow> string list list \<Rightarrow> int" where
  "next_id_from i n rows = foldl (\<lambda>n r. max n (utils_parse_integer (r ! i) + 1)) n rows"

definition int_ids :: "nat \<Rightarrow> string list list \<Rightarrow> bool" where
  "int_ids i rows \<longleftrightarrow> list_all (\<lambda>r. utils_is_integer (r ! i) \<and> utils_parse_integer (r ! i) < LLONG_MAX) rows"

lemma auto_id_written:
  "list_all (wf_row n) rows \<Longrightarrow> int_ids i rows \<Longrightarrow>
   auto_id_loop n i nxt (rows_text rows) = Inr (next_id_from i nxt rows)"
proof (induction rows arbitrary: nxt)
  case Nil
  then show ?case by (simp add: auto_id_loop.simps read_row_end next_id_from_def)
next
  case (Cons r rs)
  let ?p = "utils_parse_integer (r ! i)"
  have rd: "read_row_line n (storage_write_csv_row r @ rows_text rs) = Data_row r (rows_text rs)"
    using Cons.prems by (intro read_row_written) simp
  have "max nxt (?p + 1) = (if nxt \<le> ?p then ?p + 1 else nxt)" by simp
  then have "auto_id_loop n i nxt (storage_write_csv_row r @ rows_text rs) =
      auto_id_loop n i (max nxt (?p + 1)) (rows_text rs)"
    using rd Cons.prems(2)
    by (simp add: auto_id_loop.simps [of n i nxt "storage_write_csv_row r @ rows_text rs"] int_ids_def Let_def)
  then show ?case using Cons.IH [of "max nxt (?p + 1)"] Cons.prems by (simp add: int_ids_def next_id_from_def)
qed

lemma next_id_ge: "nxt \<le> next_id_from i nxt rows"
proof (induction rows arbitrary: nxt)
  case (Cons r rs)
  show ?case using Cons [of "max nxt (utils_parse_integer (r ! i) + 1)"] by (simp add: next_id_from_def)
qed (simp add: next_id_from_def)

lemma next_id_above: "r \<in> set rows \<Longrightarrow> utils_parse_integer (r ! i) < next_id_from i nxt rows"
proof (induction rows arbitrary: nxt)
  case (Cons q rs)
  let ?m = "max nxt (utils_parse_integer (q ! i) + 1)"
  have eq: "next_id_from i nxt (q # rs) = next_id_from i ?m rs" by (simp add: next_id_from_def)
  show ?case using Cons next_id_ge [of ?m i rs] by (auto simp: eq)
qed simp

lemma next_id_le:
  "nxt \<le> b \<Longrightarrow> \<forall>r \<in> set rows. utils_parse_integer (r ! i) < b \<Longrightarrow> next_id_from i nxt rows \<le> b"
proof (induction rows arbitrary: nxt)
  case (Cons q rs)
  then show ?case using Cons.IH [of "max nxt (utils_parse_integer (q ! i) + 1)"] by (simp add: next_id_from_def)
qed (simp add: next_id_from_def)

lemma next_id_snoc: "next_id_from i nxt (rows @ [r]) = max (next_id_from i nxt rows) (utils_parse_integer (r ! i) + 1)"
  by (simp add: next_id_from_def)

section \<open>Columns\<close>

lemma find_index_loop_Some:
  "find_index_loop k cols t = Some j \<Longrightarrow>
   k \<le> j \<and> j - k < length cols \<and> utils_equals_ignore_case (cols ! (j - k)) t"
proof (induction k cols t rule: find_index_loop.induct)
  case (2 k c cs t)
  show ?case
  proof (cases "utils_equals_ignore_case c t")
    case False
    then have "Suc k \<le> j \<and> j - Suc k < length cs \<and> utils_equals_ignore_case (cs ! (j - Suc k)) t"
      using 2 by simp
    then show ?thesis by (auto simp: nth_Cons' Suc_diff_le)
  qed (use 2 in simp)
qed simp

lemma find_column_Some:
  "storage_find_column_index cols t = Some j \<Longrightarrow> j < length cols \<and> utils_equals_ignore_case (cols ! j) t"
  using find_index_loop_Some [of 0 cols t j] by (simp add: storage_find_column_index_def)

lemma find_index_loop_None: "find_index_loop k cols t = None \<longleftrightarrow> (\<forall>c \<in> set cols. \<not> utils_equals_ignore_case c t)"
  by (induction k cols t rule: find_index_loop.induct) auto

lemma find_column_None:
  "storage_find_column_index cols t = None \<longleftrightarrow> (\<forall>c \<in> set cols. \<not> utils_equals_ignore_case c t)"
  by (simp add: storage_find_column_index_def find_index_loop_None)

lemma find_index_loop_first:
  assumes "j < length cols" "utils_equals_ignore_case (cols ! j) t"
    "\<forall>l < j. \<not> utils_equals_ignore_case (cols ! l) t"
  shows "find_index_loop k cols t = Some (k + j)"
  using assms
proof (induction cols arbitrary: k j)
  case (Cons c cs)
  show ?case
  proof (cases j)
    case (Suc j')
    then have "\<not> utils_equals_ignore_case c t" using Cons.prems(3) by fastforce
    moreover have "find_index_loop (Suc k) cs t = Some (Suc k + j')"
      using Cons Suc by (intro Cons.IH) auto
    ultimately show ?thesis using Suc by simp
  qed (use Cons in simp)
qed simp

definition distinct_names :: "string list \<Rightarrow> bool" where
  "distinct_names cols \<longleftrightarrow> distinct (map (map to_upper) cols)"

lemma find_column_at:
  assumes "distinct_names cols" "j < length cols" "utils_equals_ignore_case (cols ! j) t"
  shows "storage_find_column_index cols t = Some j"
proof -
  have "\<not> utils_equals_ignore_case (cols ! l) t" if "l < j" for l
    using assms that nth_eq_iff_index_eq [of "map (map to_upper) cols" l j]
    by (auto simp: distinct_names_def equals_ignore_case_iff)
  then show ?thesis using find_index_loop_first [OF assms(2,3), of 0] by (simp add: storage_find_column_index_def)
qed

section \<open>Insertion\<close>

definition table_at :: "file_system \<Rightarrow> string \<Rightarrow> string list \<Rightarrow> string list list \<Rightarrow> bool" where
  "table_at fs name cols rows \<longleftrightarrow> data_dir fs = Data_directory \<and> wf_table cols rows \<and>
     (\<exists>path. storage_build_path name = Some path \<and> files fs path = Some (table_text cols rows))"

lemma load_table_at:
  assumes "table_at fs name cols rows"
  shows "storage_load_table fs name = Inr \<lparr>td_columns = cols, td_rows = rows,
     td_offsets = row_offsets (length (storage_write_csv_row cols)) rows\<rparr>"
  using assms load_table_written(1) [of cols rows]
  by (auto simp: table_at_def storage_load_table_def storage_load_table_internal_def fopen_read_def)

lemma map_upt_eqI: "length ys = n \<Longrightarrow> (\<And>i. i < n \<Longrightarrow> f i = ys ! i) \<Longrightarrow> map f [0..<n] = ys"
  by (rule nth_equalityI) auto

text \<open>The columns of an INSERT without id, in the order of the table behind its id column.\<close>

definition same_columns :: "string list \<Rightarrow> string list \<Rightarrow> bool" where
  "same_columns cols stmt_cols \<longleftrightarrow> list_all2 utils_equals_ignore_case cols stmt_cols"

lemma insert_auto_row:
  assumes cols: "existing = idc # cols" "utils_equals_ignore_case idc ''id''"
    and dist: "distinct_names (idc # cols)" and same: "same_columns cols (ins_columns stmt)"
    and vals: "length (ins_values stmt) = length (ins_columns stmt)"
    and wf: "list_all (wf_row (length existing)) rows" and ids: "int_ids 0 rows"
  shows "insert_existing_table existing stmt (rows_text rows) =
     Inr (storage_write_csv_row (show_int (next_id_from 0 1 rows) # ins_values stmt))"
proof -
  let ?sc = "ins_columns stmt"
  have len: "length cols = length ?sc" using same by (simp add: same_columns_def list_all2_lengthD)
  have eqs: "utils_equals_ignore_case (cols ! j) (?sc ! j)" if "j < length ?sc" for j
    using same that len by (auto simp: same_columns_def list_all2_conv_all_nth)
  have up: "map (map to_upper) ?sc = map (map to_upper) cols"
    using len eqs by (intro nth_equalityI) (auto simp: equals_ignore_case_iff)
  have dsc: "distinct_names ?sc" using dist up by (simp add: distinct_names_def)
  have eid: "storage_find_column_index existing ''id'' = Some 0"
    using find_column_at [of existing 0 "''id''"] dist cols by simp
  have sid: "storage_find_column_index ?sc ''id'' = None"
    unfolding find_column_None
  proof
    fix c assume "c \<in> set ?sc"
    then have "map to_upper c \<in> set (map (map to_upper) cols)" using up [symmetric] by simp
    then have "map to_upper c \<noteq> map to_upper idc" using dist by (auto simp: distinct_names_def)
    then show "\<not> utils_equals_ignore_case c ''id''" using cols(2) by (simp add: equals_ignore_case_iff)
  qed
  have fnd: "storage_find_column_index ?sc (existing ! Suc j) = Some j" if "j < length ?sc" for j
    using find_column_at [OF dsc that, of "existing ! Suc j"] eqs [OF that] cols
    by (simp add: equals_ignore_case_iff)
  have cnt: "length existing = length ?sc + 1" using cols len by simp
  have auto_id: "storage_get_next_auto_id existing (rows_text rows) = Inr (show_int (next_id_from 0 1 rows))"
    using auto_id_written [OF wf ids, of 1] eid by (simp add: storage_get_next_auto_id_def)
  have none: "\<not> list_ex (\<lambda>i. \<not> (Some 0 = Some i \<and> (None :: nat option) = None) \<and>
      storage_find_column_index ?sc (existing ! i) = None) [0..<length existing]"
  proof -
    have "storage_find_column_index ?sc (existing ! i) \<noteq> None" if "i < length existing" "i \<noteq> 0" for i
      using fnd [of "i - 1"] that cols len by (cases i) auto
    then show ?thesis by (fastforce simp: list_ex_iff)
  qed
  have ord: "map (\<lambda>i. if Some 0 = Some i \<and> (None :: nat option) = None then v
        else ins_values stmt ! the (storage_find_column_index ?sc (existing ! i))) [0..<length existing] =
      v # ins_values stmt" for v
  proof (rule map_upt_eqI)
    show "length (v # ins_values stmt) = length existing" using cols len vals by simp
    fix i assume i: "i < length existing"
    show "(if Some 0 = Some i \<and> (None :: nat option) = None then v
        else ins_values stmt ! the (storage_find_column_index ?sc (existing ! i))) = (v # ins_values stmt) ! i"
    proof (cases i)
      case (Suc j)
      then show ?thesis using fnd [of j] i cnt by simp
    qed simp
  qed
  show ?thesis
    unfolding insert_existing_table_def eid sid Let_def using none ord auto_id cnt by simp
qed

text \<open>The widest row of a statement still fits the line buffer of the readers.\<close>

lemma new_row_wf:
  assumes "0 \<le> i" "i \<le> LLONG_MAX" "vals \<noteq> []" "length vals < MAX_COLUMNS"
    and "\<forall>v \<in> set vals. wf_value v \<and> line_safe v"
  shows "wf_row (Suc (length vals)) (show_int i # vals)"
proof -
  have "i < 10 ^ 19" using assms(2) by (simp add: LLONG_MAX_def)
  then have "nat i < 10 ^ 19" using assms(1) by (simp add: nat_less_iff)
  then have id: "length (show_int i) \<le> 19" using show_nat_length [of "nat i" 19] assms(1) by (simp add: show_int_def)
  have "\<forall>v \<in> set vals. length v \<le> 255" using assms(5) by (auto simp: wf_value_def MAX_VALUE_LEN_def)
  then have "length (write_csv_loop 1 vals) \<le> length vals * 513 + 1"
    using write_loop_length [of vals 255 1] by simp
  moreover have "length (storage_write_csv_row (show_int i # vals)) = length (show_int i) + length (write_csv_loop 1 vals)"
    using show_int_plain(2) [OF assms(1)] by (simp add: storage_write_csv_row_def storage_write_csv_value_def)
  ultimately have "length (storage_write_csv_row (show_int i # vals)) < MAX_CSV_LINE_LENGTH"
    using id assms(4) by (simp add: limit_defs)
  then show ?thesis
    using assms show_int_plain(1) [OF assms(1)] by (simp add: wf_row_def list_all_iff)
qed

lemma table_text_snoc: "table_text cols (rows @ [r]) = table_text cols rows @ storage_write_csv_row r"
  by (simp add: table_text_def)

lemma insert_into_table:
  assumes at: "table_at fs name (idc # cols) rows" and id: "utils_equals_ignore_case idc ''id''"
    and dist: "distinct_names (idc # cols)" and same: "same_columns cols (ins_columns stmt)"
    and vals: "length (ins_values stmt) = length (ins_columns stmt)" "ins_values stmt \<noteq> []"
      "\<forall>v \<in> set (ins_values stmt). wf_value v \<and> line_safe v"
    and ids: "int_ids 0 rows"
  shows "\<exists>fs'. storage_insert fs name stmt = (fs', Inr ()) \<and>
     table_at fs' name (idc # cols) (rows @ [show_int (next_id_from 0 1 rows) # ins_values stmt])"
proof -
  let ?new = "show_int (next_id_from 0 1 rows) # ins_values stmt"
  obtain path where p: "storage_build_path name = Some path" "files fs path = Some (table_text (idc # cols) rows)"
    and wf: "wf_table (idc # cols) rows" and dir: "data_dir fs = Data_directory"
    using at by (auto simp: table_at_def)
  have len: "length cols = length (ins_columns stmt)" using same by (simp add: same_columns_def list_all2_lengthD)
  have ins: "insert_existing_table (idc # cols) stmt (rows_text rows) = Inr (storage_write_csv_row ?new)"
    using insert_auto_row [OF refl id dist same vals(1)] wf ids by (simp add: wf_table_def)
  have hd: "storage_read_header (table_text (idc # cols) rows) = Inr (idc # cols, rows_text rows)"
    using read_header_written [of "idc # cols"] wf by (simp add: table_text_def wf_table_def)
  let ?fs = "fs\<lparr>files := (files fs)(path \<mapsto> table_text (idc # cols) (rows @ [?new]))\<rparr>"
  have run: "storage_insert fs name stmt = (?fs, Inr ())"
    using p dir hd ins by (simp add: storage_insert_def storage_ensure_data_dir_def table_text_snoc)
  have "wf_row (Suc (length (ins_values stmt))) ?new"
  proof (rule new_row_wf)
    show "0 \<le> next_id_from 0 1 rows" using next_id_ge [of 1 0 rows] by simp
    show "next_id_from 0 1 rows \<le> LLONG_MAX"
      using ids by (intro next_id_le) (auto simp: int_ids_def list_all_iff LLONG_MAX_def)
    show "length (ins_values stmt) < MAX_COLUMNS"
      using wf len vals(1) by (simp add: wf_table_def wf_columns_def)
  qed (use vals in auto)
  then have "wf_table (idc # cols) (rows @ [?new])" using wf len vals(1) by (simp add: wf_table_def)
  then show ?thesis using run p dir by (auto simp: table_at_def)
qed

lemma insert_creates_table:
  assumes dir: "data_dir fs \<noteq> Data_other" and p: "storage_build_path name = Some path"
    and fresh: "files fs path = None \<or> files fs path = Some []"
    and noid: "\<forall>c \<in> set (ins_columns stmt). \<not> utils_equals_ignore_case c ''id''"
    and cols: "ins_columns stmt \<noteq> []" "length (ins_columns stmt) < MAX_COLUMNS"
      "\<forall>c \<in> set (ins_columns stmt). wf_name c \<and> line_safe c"
    and vals: "length (ins_values stmt) = length (ins_columns stmt)"
      "\<forall>v \<in> set (ins_values stmt). wf_value v \<and> line_safe v"
  shows "\<exists>fs'. storage_insert fs name stmt = (fs', Inr ()) \<and>
     table_at fs' name (''id'' # ins_columns stmt) [''1'' # ins_values stmt]"
proof -
  let ?cols = "''id'' # ins_columns stmt" and ?row = "''1'' # ins_values stmt"
  have nid: "storage_find_column_index (ins_columns stmt) ''id'' = None" using noid by (simp add: find_column_None)
  have cpy: "storage_copy_columns (ins_columns stmt) = Some (ins_columns stmt)"
    using cols(3) by (intro copy_columns_ok) (auto simp: wf_name_def)
  have pk: "storage_validate_primary_key ?cols ?row [] = Inr ()"
    by (simp add: storage_validate_primary_key_def storage_find_column_index_def primary_key_loop.simps read_row_end)
  have hd: "storage_read_header [] = Inr ([], [])"
    by (simp add: storage_read_header_def fgets_def MAX_CSV_LINE_LENGTH_def numeral_eq_Suc)
  have new: "insert_new_table stmt [] = Inr (table_text ?cols [?row])"
    using nid cpy pk cols(2) by (simp add: insert_new_table_def table_text_def MAX_COLUMNS_def)
  let ?fs = "fs\<lparr>data_dir := Data_directory, files := (files fs)(path \<mapsto> table_text ?cols [?row])\<rparr>"
  have run: "storage_insert fs name stmt = (?fs, Inr ())"
    using dir p fresh hd new
    by (cases "data_dir fs") (auto simp: storage_insert_def storage_ensure_data_dir_def)
  have s1: "''1'' = show_int 1" by code_simp
  have "wf_row (Suc (length (ins_values stmt))) (show_int 1 # ins_values stmt)"
    using vals cols by (intro new_row_wf) (auto simp: LLONG_MAX_def)
  moreover have "wf_columns ?cols"
    using cols by (auto simp: wf_columns_def list_all_iff line_safe_def wf_name_def MAX_IDENTIFIER_LEN_def)
  ultimately have "wf_table ?cols [?row]" using vals(1) by (simp add: wf_table_def s1)
  then show ?thesis using run p by (auto simp: table_at_def)
qed

text \<open>An insertion only ever appends to the file of its table, and changes nothing if refused.\<close>

lemma insert_appends:
  assumes "storage_insert fs name stmt = (fs', res)" "files fs path = Some s"
  shows "\<exists>out. files fs' path = Some (s @ out) \<and> (res \<noteq> Inr () \<longrightarrow> out = []) \<and>
     (storage_build_path name \<noteq> Some path \<longrightarrow> out = [])"
  using assms
  by (auto simp: storage_insert_def storage_ensure_data_dir_def Let_def
      split: data_entry.splits option.splits sum.splits prod.splits if_splits)

section \<open>Deletion\<close>

definition where_holds :: "string list \<Rightarrow> where_clause option \<Rightarrow> string list \<Rightarrow> bool" where
  "where_holds cols wh row = (case wh of None \<Rightarrow> True
     | Some w \<Rightarrow> (case storage_row_matches_where row cols w of Inl e \<Rightarrow> False | Inr b \<Rightarrow> b))"

definition where_valid :: "string list \<Rightarrow> where_clause option \<Rightarrow> bool" where
  "where_valid cols wh = (case wh of None \<Rightarrow> True
     | Some w \<Rightarrow> storage_find_column_index cols (wh_column w) \<noteq> None \<and>
         wh_op w \<in> {''='', ''!='', ''<='', ''>='', ''<'', ''>''})"

lemma where_valid_matches:
  assumes "where_valid cols (Some w)"
  shows "\<exists>b. storage_row_matches_where row cols w = Inr b"
  using assms by (auto simp: where_valid_def storage_row_matches_where_def storage_compare_with_operator_def Let_def
      split: option.splits)

lemma delete_loop_eq:
  assumes "where_valid cols wh"
  shows "delete_loop cols wh rows out d =
     (d + length (filter (where_holds cols wh) rows),
      Inr (out @ rows_text (filter (\<lambda>r. \<not> where_holds cols wh r) rows)))"
proof (induction rows arbitrary: out d)
  case (Cons r rows)
  show ?case
  proof (cases wh)
    case None
    then show ?thesis using Cons by (simp add: where_holds_def)
  next
    case (Some w)
    then obtain b where "storage_row_matches_where r cols w = Inr b"
      using where_valid_matches assms by blast
    then show ?thesis using Cons Some by (cases b) (auto simp: where_holds_def)
  qed
qed simp

lemma paths_differ: "storage_build_path name = Some path \<Longrightarrow> temp_path name \<noteq> path"
proof
  assume b: "storage_build_path name = Some path" and eq: "temp_path name = path"
  have p: "path = ''data/'' @ name @ ''.csv''" "length path < 256"
    using b by (auto simp: storage_build_path_def Let_def MAX_PATH_LEN_def split: if_splits)
  then have "temp_path name = ''data/'' @ name @ ''.tmp''" by (simp add: temp_path_def MAX_PATH_LEN_def)
  then show False using eq p by simp
qed

lemma delete_from_table:
  assumes at: "table_at fs name cols rows" and wh: "where_valid cols (del_where stmt)"
  shows "\<exists>fs'. storage_delete fs name stmt =
       (fs', length (filter (where_holds cols (del_where stmt)) rows), Inr ()) \<and>
     table_at fs' name cols (filter (\<lambda>r. \<not> where_holds cols (del_where stmt) r) rows)"
proof -
  obtain path where p: "storage_build_path name = Some path" "files fs path = Some (table_text cols rows)"
    and wf: "wf_table cols rows" and dir: "data_dir fs = Data_directory"
    using at by (auto simp: table_at_def)
  let ?rows = "filter (\<lambda>r. \<not> where_holds cols (del_where stmt) r) rows"
  let ?fs = "fs\<lparr>files := (files fs)(temp_path name := None, path \<mapsto> table_text cols ?rows)\<rparr>"
  have "storage_delete fs name stmt = (?fs, length (filter (where_holds cols (del_where stmt)) rows), Inr ())"
    using p dir load_table_written(2) [OF wf] delete_loop_eq [OF wh]
    by (simp add: storage_delete_def fopen_read_def storage_write_header_def table_text_def)
  moreover have "wf_table cols ?rows" using wf by (auto simp: wf_table_def list_all_iff)
  ultimately show ?thesis using p dir paths_differ [OF p(1)] by (auto simp: table_at_def)
qed

section \<open>Reading a row at its offset\<close>

lemma row_offset_text:
  "i < length rows \<Longrightarrow>
   \<exists>rest. drop (row_offsets pos rows ! i - pos) (rows_text rows) = storage_write_csv_row (rows ! i) @ rest \<and>
     pos \<le> row_offsets pos rows ! i"
proof (induction rows arbitrary: i pos)
  case (Cons r rs)
  show ?case
  proof (cases i)
    case (Suc j)
    let ?pos = "pos + length (storage_write_csv_row r)"
    obtain rest where IH: "drop (row_offsets ?pos rs ! j - ?pos) (rows_text rs) = storage_write_csv_row (rs ! j) @ rest"
      "?pos \<le> row_offsets ?pos rs ! j" using Cons.IH [of j ?pos] Cons.prems Suc by auto
    then have "drop (row_offsets ?pos rs ! j - pos) (storage_write_csv_row r @ rows_text rs) =
        drop (row_offsets ?pos rs ! j - ?pos) (rows_text rs)" by simp
    then show ?thesis using IH Suc by auto
  qed simp
qed simp

lemma row_offsets_length [simp]: "length (row_offsets pos rows) = length rows"
  by (induction rows arbitrary: pos) auto

lemma read_row_at_table:
  assumes at: "table_at fs name cols rows" and i: "i < length rows"
    and t: "storage_load_table fs name = Inr t"
  shows "storage_read_row_at_offset fs name (td_offsets t ! i) (int (length cols)) = Inr (rows ! i)"
proof -
  obtain path where p: "storage_build_path name = Some path" "files fs path = Some (table_text cols rows)"
    and wf: "wf_table cols rows" and dir: "data_dir fs = Data_directory"
    using at by (auto simp: table_at_def)
  let ?h = "length (storage_write_csv_row cols)" and ?o = "row_offsets (length (storage_write_csv_row cols)) rows ! i"
  have off: "td_offsets t ! i = ?o" using t load_table_at [OF at] by auto
  obtain rest where r: "drop (?o - ?h) (rows_text rows) = storage_write_csv_row (rows ! i) @ rest" "?h \<le> ?o"
    using row_offset_text [OF i, of ?h] by auto
  have "drop ?o (table_text cols rows) = drop (?o - ?h) (rows_text rows)"
    using r(2) by (simp add: table_text_def)
  moreover have row: "wf_row (length cols) (rows ! i)" using wf i by (simp add: wf_table_def list_all_length)
  ultimately have "fgets MAX_CSV_LINE_LENGTH (drop ?o (table_text cols rows)) =
      Some (storage_write_csv_row (rows ! i), rest, False)" using fgets_row [OF row] r(1) by simp
  moreover have "storage_parse_csv_line (storage_write_csv_row (rows ! i)) = Some (rows ! i)"
    using row parse_written_row by (auto simp: wf_row_def)
  ultimately show ?thesis
    using p dir row by (simp add: storage_read_row_at_offset_def fopen_read_def off wf_row_def)
qed

section \<open>Properties\<close>

text \<open>
  A CSV row written by the storage parses back to the same fields, with commas and double
  quotes in values quoted and doubled; only line breaks are excluded.
\<close>

theorem csv_row_roundtrip:
  assumes "list_all line_safe vs" "vs \<noteq> []"
  shows "storage_parse_csv_line (storage_write_csv_row vs) = Some vs"
  using parse_written_row assms by blast

theorem csv_row_roundtrip_witness:
  "storage_parse_csv_line (storage_write_csv_row [''1'', ''a,b'', [DQUOTE], []]) = Some [''1'', ''a,b'', [DQUOTE], []]"
  by (rule csv_row_roundtrip) code_simp+

definition sample_fs :: "string \<Rightarrow> file_system" where
  "sample_fs s = \<lparr>data_dir = Data_directory, files = [''data/t.csv'' \<mapsto> s]\<rparr>"

lemma sample_at: "table_at (sample_fs (table_text [''id'', ''a''] [[''1'', ''x'']])) ''t'' [''id'', ''a''] [[''1'', ''x'']]"
proof -
  have "storage_build_path ''t'' = Some ''data/t.csv''" by code_simp
  moreover have "wf_table [''id'', ''a''] [[''1'', ''x'']]"
    by (simp add: wf_table_def wf_columns_def wf_row_def line_safe_def MAX_COLUMNS_def MAX_IDENTIFIER_LEN_def
        MAX_CSV_LINE_LENGTH_def storage_write_csv_row_def storage_write_csv_value_def needs_quotes_def)
  ultimately show ?thesis by (simp add: table_at_def sample_fs_def)
qed

text \<open>
  C9: loading a table file written by the storage gives its columns and rows back, and reading
  the row at each recorded offset gives that row.
\<close>

theorem table_file_roundtrip:
  assumes "table_at fs name cols rows"
  shows "\<exists>t. storage_load_table fs name = Inr t \<and> td_columns t = cols \<and> td_rows t = rows \<and>
     (\<forall>i < length rows. storage_read_row_at_offset fs name (td_offsets t ! i) (int (length cols)) = Inr (rows ! i))"
proof -
  obtain t where t: "storage_load_table fs name = Inr t" "td_columns t = cols" "td_rows t = rows"
    using load_table_at [OF assms] by simp
  then show ?thesis using read_row_at_table [OF assms _ t(1)] by blast
qed

theorem table_file_roundtrip_witness:
  "\<exists>t. storage_load_table (sample_fs (table_text [''id'', ''a''] [[''1'', ''x'']])) ''t'' = Inr t \<and>
     td_columns t = [''id'', ''a''] \<and> td_rows t = [[''1'', ''x'']] \<and>
     (\<forall>i < length [[''1'', ''x'']]. storage_read_row_at_offset (sample_fs (table_text [''id'', ''a''] [[''1'', ''x'']])) ''t''
        (td_offsets t ! i) (int (length [''id'', ''a''])) = Inr ([[''1'', ''x'']] ! i))"
  by (rule table_file_roundtrip [OF sample_at])

text \<open>
  C18: deleting from a stored table removes exactly the rows that satisfy the condition, reports
  their number, and leaves the other rows in order in the table file.
\<close>

theorem delete_keeps_the_rest:
  assumes "table_at fs name cols rows" "where_valid cols (del_where stmt)"
  shows "\<exists>fs'. storage_delete fs name stmt =
       (fs', length (filter (where_holds cols (del_where stmt)) rows), Inr ()) \<and>
     table_at fs' name cols (filter (\<lambda>r. \<not> where_holds cols (del_where stmt) r) rows)"
  by (rule delete_from_table [OF assms])

theorem delete_keeps_the_rest_witness:
  "\<exists>fs'. storage_delete (sample_fs (table_text [''id'', ''a''] [[''1'', ''x'']])) ''t'' \<lparr>del_table = ''t'', del_where = None\<rparr> =
       (fs', length (filter (where_holds [''id'', ''a''] (del_where \<lparr>del_table = ''t'', del_where = None\<rparr>)) [[''1'', ''x'']]), Inr ()) \<and>
     table_at fs' ''t'' [''id'', ''a'']
       (filter (\<lambda>r. \<not> where_holds [''id'', ''a''] (del_where \<lparr>del_table = ''t'', del_where = None\<rparr>) r) [[''1'', ''x'']])"
  by (rule delete_keeps_the_rest [OF sample_at]) (simp add: where_valid_def)



text \<open>
  An insertion of a value with a line break is accepted and written in quotes, but the readers
  work line by line: after it the table can neither be loaded nor inserted into.
\<close>

definition newline_insert :: "file_system \<times> (storage_error + unit)" where
  "newline_insert = storage_insert (sample_fs (table_text [''id'', ''a''] [[''1'', ''x'']])) ''t''
     \<lparr>ins_table = ''t'', ins_columns = [''a''], ins_values = [[NL]]\<rparr>"

theorem newline_value_breaks_table:
  "snd newline_insert = Inr () \<and> storage_load_table (fst newline_insert) ''t'' = Inl Malformed_line \<and>
   snd (storage_insert (fst newline_insert) ''t'' \<lparr>ins_table = ''t'', ins_columns = [''a''], ins_values = [''y'']\<rparr>) = Inl Malformed_line"
  by code_simp

text \<open>
  A repeated column name is accepted by the storage, which then writes the first of the two
  values for both columns: the second value is lost.
\<close>

definition repeated_insert :: "file_system \<times> (storage_error + unit)" where
  "repeated_insert = storage_insert (sample_fs (table_text [''id'', ''a'', ''a''] [[''1'', ''x'', ''y'']])) ''t''
     \<lparr>ins_table = ''t'', ins_columns = [''a'', ''a''], ins_values = [''v'', ''w'']\<rparr>"

theorem repeated_column_loses_value:
  "snd repeated_insert = Inr () \<and>
   map_sum id td_rows (storage_load_table (fst repeated_insert) ''t'') = Inr [[''1'', ''x'', ''y''], [''2'', ''v'', ''v'']]"
  by code_simp

end
