(* ===== verification/Table_Runtime.thy ===== *)
theory Table_Runtime
  imports BPTree_Correct Storage_Correct
begin

text \<open>
  The in-memory table of \<^verbatim>\<open>src/db/table_runtime.c\<close>: one active table, its rows, its id
  index (a B+ tree in the node heap) and its loading from the CSV storage.  An operation
  returns \<open>None\<close> only where the B+ tree code under it has no defined result; \<open>Inl e\<close> is
  \<^verbatim>\<open>FAILURE\<close>.  Row memory is plain data here: a freed row is a row no longer in the
  list; its allocation does not fail.
\<close>

section \<open>State\<close>

definition INT_MAX :: int where "INT_MAX = 2 ^ 31 - 1"
definition INITIAL_ROW_CAPACITY :: nat where "INITIAL_ROW_CAPACITY = 16"

record table_runtime =
  tr_name :: string
  tr_col_count :: nat
  tr_columns :: "string list"
  tr_rows :: "string list list"
  tr_capacity :: nat
  tr_id_column :: nat
  tr_next_id :: int
  tr_root :: "addr option"
  tr_loaded :: bool

datatype runtime_error =
    Name_too_long
  | Not_active_table
  | Storage_failed storage_error
  | Bad_schema
  | Missing_id_column
  | Non_integer_id
  | Id_out_of_range
  | Index_refused
  | Schema_mismatch
  | Bad_column_count
  | Explicit_id
  | Unknown_column

text \<open>The columns in use of the fixed array of column names.\<close>

definition columns_of :: "table_runtime \<Rightarrow> string list" where
  "columns_of t = take (tr_col_count t) (tr_columns t)"

definition table_init :: table_runtime where
  "table_init = \<lparr>tr_name = [], tr_col_count = 0, tr_columns = replicate MAX_COLUMNS [], tr_rows = [],
     tr_capacity = 0, tr_id_column = 0, tr_next_id = 1, tr_root = None, tr_loaded = False\<rparr>"

definition table_free :: "bp_heap \<Rightarrow> table_runtime \<Rightarrow> (bp_heap \<times> table_runtime) option" where
  "table_free h t = do {
     h' \<leftarrow> bptree_free (Suc (2 * fresh h)) h (tr_root t);
     Some (h', table_init)
   }"

definition table_set_active_name :: "table_runtime \<Rightarrow> string \<Rightarrow> table_runtime \<times> status" where
  "table_set_active_name t name =
     (case utils_safe_strcpy (tr_name t) MAX_IDENTIFIER_LEN name of (v, st) \<Rightarrow> (t\<lparr>tr_name := v\<rparr>, st))"

definition table_reset_as_unloaded ::
  "bp_heap \<Rightarrow> table_runtime \<Rightarrow> string \<Rightarrow> (bp_heap \<times> table_runtime \<times> status) option" where
  "table_reset_as_unloaded h t name = do {
     (h', t') \<leftarrow> table_free h t;
     Some (h', table_set_active_name t' name)
   }"

definition table_find_column_index :: "table_runtime \<Rightarrow> string \<Rightarrow> nat option" where
  "table_find_column_index t target = find_index_loop 0 (columns_of t) target"

section \<open>Loading\<close>

text \<open>Copying column names into the array from a given position on; \<open>False\<close> stops at a name too long.\<close>

fun copy_names :: "string list \<Rightarrow> nat \<Rightarrow> string list \<Rightarrow> string list \<times> bool" where
  "copy_names arr i [] = (arr, True)"
| "copy_names arr i (c # cs) =
     (case utils_safe_strcpy (arr ! i) MAX_IDENTIFIER_LEN c of
        (v, SUCCESS) \<Rightarrow> copy_names (arr[i := v]) (Suc i) cs
      | (v, FAILURE) \<Rightarrow> (arr[i := v], False))"

definition table_copy_schema_from_storage ::
  "table_runtime \<Rightarrow> table_data \<Rightarrow> table_runtime \<times> (runtime_error + unit)" where
  "table_copy_schema_from_storage t loaded =
     (let n = length (td_columns loaded) in
      if n = 0 \<or> MAX_COLUMNS < n then (t, Inl Bad_schema)
      else case copy_names (tr_columns t) 0 (td_columns loaded) of
        (arr, False) \<Rightarrow> (t\<lparr>tr_col_count := n, tr_columns := arr\<rparr>, Inl Bad_schema)
      | (arr, True) \<Rightarrow>
          let t1 = t\<lparr>tr_col_count := n, tr_columns := arr\<rparr> in
          (case table_find_column_index t1 ''id'' of
             None \<Rightarrow> (t1, Inl Missing_id_column)
           | Some i \<Rightarrow> (t1\<lparr>tr_id_column := i, tr_loaded := True\<rparr>, Inr ())))"

definition table_reserve_if_needed :: "table_runtime \<Rightarrow> table_runtime" where
  "table_reserve_if_needed t =
     (if length (tr_rows t) < tr_capacity t then t
      else t\<lparr>tr_capacity := (if tr_capacity t = 0 then INITIAL_ROW_CAPACITY else tr_capacity t * 2)\<rparr>)"

text \<open>The loop over the rows read from storage.\<close>

fun load_loop :: "bp_heap \<Rightarrow> table_runtime \<Rightarrow> string list list \<Rightarrow>
    (bp_heap \<times> table_runtime \<times> (runtime_error + unit)) option" where
  "load_loop h t [] = Some (h, t, Inr ())"
| "load_loop h t (row # rows) =
     (let t1 = table_reserve_if_needed t; id_text = row ! tr_id_column t1 in
      if \<not> utils_is_integer id_text then Some (h, t1, Inl Non_integer_id)
      else let parsed_id = utils_parse_integer id_text in
      if parsed_id < 0 \<or> INT_MAX < parsed_id then Some (h, t1, Inl Id_out_of_range)
      else do {
        (h', root', st) \<leftarrow> bptree_insert h (tr_root t1) parsed_id (int (length (tr_rows t1)));
        let t2 = t1\<lparr>tr_root := root'\<rparr>;
        case st of
          FAILURE \<Rightarrow> Some (h', t2, Inl Index_refused)
        | SUCCESS \<Rightarrow> load_loop h' (t2\<lparr>tr_rows := tr_rows t2 @ [row],
              tr_next_id := (if tr_next_id t2 \<le> parsed_id then parsed_id + 1 else tr_next_id t2)\<rparr>) rows
      })"

text \<open>The part of \<^verbatim>\<open>table_load_from_storage_if_needed\<close> behind the successful read of the file.\<close>

definition table_load_data :: "bp_heap \<Rightarrow> table_runtime \<Rightarrow> string \<Rightarrow> table_data \<Rightarrow>
   (bp_heap \<times> table_runtime \<times> (runtime_error + unit)) option" where
  "table_load_data h t name loaded = do {
     (h1, t1, st) \<leftarrow> table_reset_as_unloaded h t name;
     if st = FAILURE then Some (h1, t1, Inl Name_too_long)
     else case table_copy_schema_from_storage t1 loaded of
       (t2, Inl e) \<Rightarrow> do {
         (h3, t3, _) \<leftarrow> table_reset_as_unloaded h1 t2 name;
         Some (h3, t3, Inl e)
       }
     | (t2, Inr _) \<Rightarrow> do {
         (h3, t3, res) \<leftarrow> load_loop h1 t2 (td_rows loaded);
         case res of
           Inr _ \<Rightarrow> Some (h3, t3, Inr ())
         | Inl e \<Rightarrow> do {
             (h4, t4, _) \<leftarrow> table_reset_as_unloaded h3 t3 name;
             Some (h4, t4, Inl e)
           }
       }
   }"

definition table_load_from_storage_if_needed ::
  "file_system \<Rightarrow> bp_heap \<Rightarrow> table_runtime \<Rightarrow> string \<Rightarrow>
   (bp_heap \<times> table_runtime \<times> (runtime_error + unit)) option" where
  "table_load_from_storage_if_needed fs h t name =
     (if tr_loaded t then Some (h, t, Inr ())
      else let (t0, named) = (if tr_name t = [] then table_set_active_name t name else (t, SUCCESS)) in
      if named = FAILURE then Some (h, t0, Inl Name_too_long)
      else if \<not> utils_equals_ignore_case (tr_name t0) name then Some (h, t0, Inl Not_active_table)
      else if \<not> storage_table_exists fs name then Some (h, t0, Inr ())
      else case storage_load_table fs name of
        Inl e \<Rightarrow> Some (h, t0, Inl (Storage_failed e))
      | Inr loaded \<Rightarrow> table_load_data h t0 name loaded)"

section \<open>Insertion\<close>

definition table_validate_insert_schema :: "table_runtime \<Rightarrow> insert_statement \<Rightarrow> bool" where
  "table_validate_insert_schema t stmt \<longleftrightarrow>
     ins_columns stmt \<noteq> [] \<and> length (ins_columns stmt) + 1 = tr_col_count t \<and>
     list_all (\<lambda>i. utils_equals_ignore_case (tr_columns t ! (i + 1)) (ins_columns stmt ! i))
       [0..<length (ins_columns stmt)]"

text \<open>The loop of \<^verbatim>\<open>table_initialize_schema\<close> over the columns of the statement.\<close>

fun init_schema_loop :: "string list \<Rightarrow> nat \<Rightarrow> string list \<Rightarrow> string list \<times> (runtime_error + unit)" where
  "init_schema_loop arr i [] = (arr, Inr ())"
| "init_schema_loop arr i (c # cs) =
     (if utils_equals_ignore_case c ''id'' then (arr, Inl Explicit_id)
      else case utils_safe_strcpy (arr ! i) MAX_IDENTIFIER_LEN c of
        (v, SUCCESS) \<Rightarrow> init_schema_loop (arr[i := v]) (Suc i) cs
      | (v, FAILURE) \<Rightarrow> (arr[i := v], Inl Name_too_long))"

definition table_initialize_schema ::
  "table_runtime \<Rightarrow> insert_statement \<Rightarrow> table_runtime \<times> (runtime_error + unit)" where
  "table_initialize_schema t stmt =
     (let n = length (ins_columns stmt) in
      if n = 0 \<or> MAX_COLUMNS < n + 1 then (t, Inl Bad_column_count)
      else case init_schema_loop ((tr_columns t)[0 := ''id'']) 1 (ins_columns stmt) of
        (arr, Inl e) \<Rightarrow> (t\<lparr>tr_col_count := n + 1, tr_columns := arr\<rparr>, Inl e)
      | (arr, Inr _) \<Rightarrow>
          (t\<lparr>tr_col_count := n + 1, tr_columns := arr, tr_id_column := 0, tr_loaded := True\<rparr>, Inr ()))"

definition table_build_row :: "insert_statement \<Rightarrow> int \<Rightarrow> string list" where
  "table_build_row stmt next_id = show_int next_id # ins_values stmt"

text \<open>
  The second half of \<^verbatim>\<open>table_insert_row\<close>, behind the schema checks: the row is indexed and
  appended in memory, then written to the file; if the file refuses it, the table is
  dropped and loaded again.
\<close>

definition table_store_row ::
  "file_system \<Rightarrow> bp_heap \<Rightarrow> table_runtime \<Rightarrow> insert_statement \<Rightarrow>
   (file_system \<times> bp_heap \<times> table_runtime \<times> (runtime_error + nat)) option" where
  "table_store_row fs h t stmt =
     (let t3 = table_reserve_if_needed t;
          row = table_build_row stmt (tr_next_id t3);
          row_index = length (tr_rows t3) in
      if INT_MAX < tr_next_id t3 then Some (fs, h, t3, Inl Id_out_of_range)
      else do {
        (h4, root', st) \<leftarrow> bptree_insert h (tr_root t3) (tr_next_id t3) (int row_index);
        let t4 = t3\<lparr>tr_root := root'\<rparr>;
        case st of
          FAILURE \<Rightarrow> Some (fs, h4, t4, Inl Index_refused)
        | SUCCESS \<Rightarrow>
            let t5 = t4\<lparr>tr_rows := tr_rows t4 @ [row], tr_next_id := tr_next_id t4 + 1\<rparr> in
            (case storage_insert fs (tr_name t5) stmt of
               (fs', Inr _) \<Rightarrow> Some (fs', h4, t5, Inr row_index)
             | (fs', Inl e) \<Rightarrow> do {
                 (h6, t6, _) \<leftarrow> table_reset_as_unloaded h4 t5 (ins_table stmt);
                 (h7, t7, _) \<leftarrow> table_load_from_storage_if_needed fs' h6 t6 (ins_table stmt);
                 Some (fs', h7, t7, Inl (Storage_failed e))
               })
      })"

definition table_insert_row ::
  "file_system \<Rightarrow> bp_heap \<Rightarrow> table_runtime \<Rightarrow> insert_statement \<Rightarrow>
   (file_system \<times> bp_heap \<times> table_runtime \<times> (runtime_error + nat)) option" where
  "table_insert_row fs h t stmt =
     (let name = ins_table stmt;
          (t0, named) = (if tr_name t = [] then table_set_active_name t name else (t, SUCCESS)) in
      if named = FAILURE then Some (fs, h, t0, Inl Name_too_long)
      else if \<not> utils_equals_ignore_case (tr_name t0) name then Some (fs, h, t0, Inl Not_active_table)
      else do {
        (h1, t1, res) \<leftarrow> table_load_from_storage_if_needed fs h t0 name;
        case res of
          Inl e \<Rightarrow> Some (fs, h1, t1, Inl e)
        | Inr _ \<Rightarrow>
            (case (if tr_loaded t1
                   then (t1, if table_validate_insert_schema t1 stmt then Inr () else Inl Schema_mismatch)
                   else table_initialize_schema t1 stmt) of
               (t2, Inl e) \<Rightarrow> Some (fs, h1, t2, Inl e)
             | (t2, Inr _) \<Rightarrow> table_store_row fs h1 t2 stmt)
      })"

section \<open>Lookup\<close>

definition table_get_row_by_slot :: "table_runtime \<Rightarrow> int \<Rightarrow> string list option" where
  "table_get_row_by_slot t row_index =
     (if row_index < 0 \<or> int (length (tr_rows t)) \<le> row_index then None
      else Some (tr_rows t ! nat row_index))"

definition table_where_matches :: "int \<Rightarrow> string \<Rightarrow> bool" where
  "table_where_matches comparison op =
     (if strcmp op ''='' = 0 then comparison = 0
      else if strcmp op ''!='' = 0 then comparison \<noteq> 0
      else if strcmp op ''>'' = 0 then 0 < comparison
      else if strcmp op ''>='' = 0 then 0 \<le> comparison
      else if strcmp op ''<'' = 0 then comparison < 0
      else if strcmp op ''<='' = 0 then comparison \<le> 0
      else False)"

fun scan_loop :: "nat \<Rightarrow> string list list \<Rightarrow> nat \<Rightarrow> where_clause \<Rightarrow> nat list" where
  "scan_loop i [] col w = []"
| "scan_loop i (row # rows) col w =
     (if table_where_matches (utils_compare_values (row ! col) (wh_value w)) (wh_op w)
      then i # scan_loop (Suc i) rows col w else scan_loop (Suc i) rows col w)"

definition table_linear_scan_by_field :: "table_runtime \<Rightarrow> where_clause option \<Rightarrow> runtime_error + nat list" where
  "table_linear_scan_by_field t wh =
     (if \<not> tr_loaded t \<or> tr_rows t = [] then Inr []
      else case wh of
        None \<Rightarrow> Inr [0..<length (tr_rows t)]
      | Some w \<Rightarrow>
          (case table_find_column_index t (wh_column w) of
             None \<Rightarrow> Inl Unknown_column
           | Some col \<Rightarrow> Inr (scan_loop 0 (tr_rows t) col w)))"

section \<open>The active table\<close>

record runtime_state =
  rt_active :: table_runtime
  rt_has_active :: bool
  rt_heap :: bp_heap

text \<open>\<^verbatim>\<open>table_get_or_load\<close>; the status is \<^verbatim>\<open>FAILURE\<close> where the code returns NULL.\<close>

definition table_get_or_load :: "runtime_state \<Rightarrow> string \<Rightarrow> (runtime_state \<times> status) option" where
  "table_get_or_load st name =
     (let st1 = (if rt_has_active st then st else st\<lparr>rt_active := table_init, rt_has_active := True\<rparr>);
          t = rt_active st1 in
      if tr_name t \<noteq> [] \<and> utils_equals_ignore_case (tr_name t) name then Some (st1, SUCCESS)
      else do {
        (h', t') \<leftarrow> table_free (rt_heap st1) t;
        let (t2, named) = table_set_active_name t' name;
        Some (st1\<lparr>rt_active := t2, rt_heap := h'\<rparr>, named)
      })"

definition table_runtime_is_loaded_for :: "runtime_state \<Rightarrow> string \<Rightarrow> bool" where
  "table_runtime_is_loaded_for st name \<longleftrightarrow>
     rt_has_active st \<and> tr_loaded (rt_active st) \<and> tr_name (rt_active st) \<noteq> [] \<and>
     utils_equals_ignore_case (tr_name (rt_active st)) name"

definition table_runtime_cleanup :: "runtime_state \<Rightarrow> runtime_state option" where
  "table_runtime_cleanup st =
     (if \<not> rt_has_active st then Some st
      else do {
        (h', t') \<leftarrow> table_free (rt_heap st) (rt_active st);
        Some (st\<lparr>rt_active := t', rt_has_active := False, rt_heap := h'\<rparr>)
      })"

end
