(* ===== verification/Runtime_Correct.thy ===== *)
theory Runtime_Correct
  imports Table_Runtime
begin

text \<open>
  The invariant of the in-memory table and its agreement with the table file: loading never
  fails in an undefined way whatever the file contains, the id index always maps each id to
  the slot of its row, and a successful insertion leaves memory and file with the same rows.
\<close>

section \<open>Ids and slots\<close>

definition row_id :: "nat \<Rightarrow> string list \<Rightarrow> int" where
  "row_id c r = utils_parse_integer (r ! c)"

definition id_map :: "nat \<Rightarrow> string list list \<Rightarrow> int \<rightharpoonup> int" where
  "id_map c rows = map_of (zip (map (row_id c) rows) (map int [0..<length rows]))"

lemma id_map_None: "id_map c rows k = None \<longleftrightarrow> k \<notin> row_id c ` set rows"
proof -
  let ?z = "zip (map (row_id c) rows) (map int [0..<length rows])"
  have "fst ` set ?z = set (map fst ?z)" by (simp only: set_map)
  also have "\<dots> = set (map (row_id c) rows)" by (subst map_fst_zip) simp_all
  finally show ?thesis by (simp add: id_map_def map_of_eq_None_iff)
qed

lemma id_map_snoc:
  assumes "row_id c r \<notin> row_id c ` set rows"
  shows "id_map c (rows @ [r]) = (id_map c rows)(row_id c r \<mapsto> int (length rows))"
proof -
  have "zip (map (row_id c) (rows @ [r])) (map int [0..<length (rows @ [r])]) =
      zip (map (row_id c) rows) (map int [0..<length rows]) @ [(row_id c r, int (length rows))]"
    by simp
  then have eq: "id_map c (rows @ [r]) = [row_id c r \<mapsto> int (length rows)] ++ id_map c rows"
    by (simp only: id_map_def map_of_append map_of.simps) simp
  have "id_map c rows (row_id c r) = None" using assms by (simp add: id_map_None)
  then show ?thesis unfolding eq by (auto simp: map_add_def fun_eq_iff split: option.splits)
qed

lemma id_map_Some:
  assumes "distinct (map (row_id c) rows)"
  shows "id_map c rows k = Some v \<longleftrightarrow> (\<exists>i < length rows. v = int i \<and> row_id c (rows ! i) = k)"
proof -
  have "distinct (map fst (zip (map (row_id c) rows) (map int [0..<length rows])))" using assms by simp
  then have "id_map c rows k = Some v \<longleftrightarrow> (k, v) \<in> set (zip (map (row_id c) rows) (map int [0..<length rows]))"
    by (simp add: id_map_def)
  also have "\<dots> \<longleftrightarrow> (\<exists>i < length rows. v = int i \<and> row_id c (rows ! i) = k)"
    unfolding in_set_conv_nth by (rule ex_cong1) auto
  finally show ?thesis .
qed

definition valid_ids :: "nat \<Rightarrow> string list list \<Rightarrow> bool" where
  "valid_ids c rows \<longleftrightarrow> (\<forall>r \<in> set rows. utils_is_integer (r ! c) \<and> 0 \<le> row_id c r \<and> row_id c r \<le> INT_MAX)"

section \<open>The invariant\<close>

definition index_ok :: "bp_heap \<Rightarrow> table_runtime \<Rightarrow> bool" where
  "index_ok h t \<longleftrightarrow> bp_owns h (tr_root t) (id_map (tr_id_column t) (tr_rows t)) \<and>
     valid_ids (tr_id_column t) (tr_rows t) \<and> distinct (map (row_id (tr_id_column t)) (tr_rows t)) \<and>
     tr_next_id t = next_id_from (tr_id_column t) 1 (tr_rows t)"

definition schema_ok :: "table_runtime \<Rightarrow> bool" where
  "schema_ok t \<longleftrightarrow> length (tr_columns t) = MAX_COLUMNS \<and> tr_col_count t \<le> MAX_COLUMNS \<and>
     length (tr_rows t) \<le> tr_capacity t"

definition table_inv :: "bp_heap \<Rightarrow> table_runtime \<Rightarrow> bool" where
  "table_inv h t \<longleftrightarrow> schema_ok t \<and> index_ok h t \<and> bp_memory h \<and>
     (if tr_loaded t then table_find_column_index t ''id'' = Some (tr_id_column t) \<and> (\<forall>r \<in> set (tr_rows t). length r = tr_col_count t)
      else tr_rows t = [] \<and> tr_root t = None \<and> tr_id_column t = 0)"

lemma columns_of_update [simp]:
  "columns_of (t\<lparr>tr_name := v\<rparr>) = columns_of t" "columns_of (t\<lparr>tr_rows := rs\<rparr>) = columns_of t"
  "columns_of (t\<lparr>tr_root := r\<rparr>) = columns_of t" "columns_of (t\<lparr>tr_next_id := n\<rparr>) = columns_of t"
  "columns_of (table_reserve_if_needed t) = columns_of t"
  by (simp_all add: columns_of_def table_reserve_if_needed_def)

lemma find_column_update [simp]:
  "table_find_column_index (t\<lparr>tr_name := v\<rparr>) c = table_find_column_index t c"
  "table_find_column_index (t\<lparr>tr_rows := rs\<rparr>) c = table_find_column_index t c"
  "table_find_column_index (t\<lparr>tr_root := r\<rparr>) c = table_find_column_index t c"
  "table_find_column_index (t\<lparr>tr_next_id := n\<rparr>) c = table_find_column_index t c"
  "table_find_column_index (table_reserve_if_needed t) c = table_find_column_index t c"
  by (simp_all add: table_find_column_index_def)

lemma find_column_less: "table_find_column_index t name = Some i \<Longrightarrow> i < tr_col_count t"
  using find_column_Some [of "columns_of t" name i]
  by (simp add: table_find_column_index_def storage_find_column_index_def columns_of_def)

lemma index_ok_empty:
  assumes "cells h = Map.empty" "tr_rows t = []" "tr_root t = None" "tr_next_id t = 1"
  shows "index_ok h t"
  using assms by (simp add: index_ok_def bp_owns_def id_map_def valid_ids_def next_id_from_def)

lemma table_free_ok:
  assumes "bp_owns h (tr_root t) m" "bp_memory h"
  shows "\<exists>h'. table_free h t = Some (h', table_init) \<and> cells h' = Map.empty \<and> bp_memory h'"
  using owns_free [OF assms(1)] assms(2) by (auto simp: table_free_def bp_memory_def)

lemma init_inv:
  assumes "cells h = Map.empty" "bp_memory h"
  shows "table_inv h (table_init\<lparr>tr_name := name\<rparr>)"
  using assms by (simp add: table_inv_def schema_ok_def table_init_def index_ok_empty)

definition unloaded :: "table_runtime \<Rightarrow> bool" where
  "unloaded t \<longleftrightarrow> t = table_init\<lparr>tr_name := tr_name t\<rparr>"

lemma unloaded_fields:
  assumes "unloaded t"
  shows "\<not> tr_loaded t" "tr_rows t = []" "tr_root t = None" "tr_next_id t = 1" "tr_id_column t = 0"
    "tr_columns t = replicate MAX_COLUMNS []" "tr_col_count t = 0"
  using assms unfolding unloaded_def table_init_def by (metis table_runtime.simps)+

lemma reset_ok:
  assumes "bp_owns h (tr_root t) m" "bp_memory h"
  shows "\<exists>h' t' st. table_reset_as_unloaded h t name = Some (h', t', st) \<and> table_inv h' t' \<and>
     cells h' = Map.empty \<and> unloaded t' \<and>
     (length name < MAX_IDENTIFIER_LEN \<longrightarrow> st = SUCCESS \<and> tr_name t' = name)"
proof -
  obtain h' where f: "table_free h t = Some (h', table_init)" "cells h' = Map.empty" "bp_memory h'"
    using table_free_ok [OF assms] by blast
  obtain v st where v: "utils_safe_strcpy (tr_name table_init) MAX_IDENTIFIER_LEN name = (v, st)" by fastforce
  have "length name < MAX_IDENTIFIER_LEN \<longrightarrow> st = SUCCESS \<and> v = name"
    using v by (auto simp: utils_safe_strcpy_def)
  then show ?thesis
    using f v init_inv [OF f(2,3), of v]
    by (simp add: table_reset_as_unloaded_def table_set_active_name_def unloaded_def)
qed

lemma init_name [simp]: "table_init\<lparr>tr_name := name\<rparr>\<lparr>tr_name := name'\<rparr> = table_init\<lparr>tr_name := name'\<rparr>"
  by simp

section \<open>Loading\<close>

lemma reserve_simps [simp]:
  "tr_name (table_reserve_if_needed t) = tr_name t" "tr_col_count (table_reserve_if_needed t) = tr_col_count t"
  "tr_columns (table_reserve_if_needed t) = tr_columns t" "tr_rows (table_reserve_if_needed t) = tr_rows t"
  "tr_id_column (table_reserve_if_needed t) = tr_id_column t" "tr_next_id (table_reserve_if_needed t) = tr_next_id t"
  "tr_root (table_reserve_if_needed t) = tr_root t" "tr_loaded (table_reserve_if_needed t) = tr_loaded t"
  by (simp_all add: table_reserve_if_needed_def)

lemma reserve_capacity:
  "length (tr_rows t) \<le> tr_capacity t \<Longrightarrow> length (tr_rows t) < tr_capacity (table_reserve_if_needed t)"
  by (auto simp: table_reserve_if_needed_def INITIAL_ROW_CAPACITY_def)

text \<open>Adding one row with a new valid id keeps the index in step.\<close>

lemma index_ok_add:
  assumes ok: "index_ok h t" and mem: "bp_memory h" and new: "row_id c r \<notin> row_id c ` set (tr_rows t)"
    and c: "c = tr_id_column t" and id: "utils_is_integer (r ! c)" "0 \<le> row_id c r" "row_id c r \<le> INT_MAX"
  shows "\<exists>h' root'. bptree_insert h (tr_root t) (row_id c r) (int (length (tr_rows t))) = Some (h', root', SUCCESS) \<and>
     bp_memory h' \<and>
     (\<forall>t'. tr_root t' = root' \<and> tr_rows t' = tr_rows t @ [r] \<and> tr_id_column t' = c \<and>
        tr_next_id t' = max (tr_next_id t) (row_id c r + 1) \<longrightarrow> index_ok h' t')"
proof -
  have owns: "bp_owns h (tr_root t) (id_map c (tr_rows t))" using ok c by (simp add: index_ok_def)
  have none: "id_map c (tr_rows t) (row_id c r) = None" using new by (simp add: id_map_None)
  obtain h' root' where ins: "bptree_insert h (tr_root t) (row_id c r) (int (length (tr_rows t))) = Some (h', root', SUCCESS)"
    "bp_owns h' root' ((id_map c (tr_rows t))(row_id c r \<mapsto> int (length (tr_rows t))))" "bp_memory h'"
    using bp.ins_new [OF owns mem none] by blast
  have "index_ok h' t'" if t': "tr_root t' = root'" "tr_rows t' = tr_rows t @ [r]" "tr_id_column t' = c"
    "tr_next_id t' = max (tr_next_id t) (row_id c r + 1)" for t'
    using ok ins(2) t' id new c id_map_snoc [OF new]
    by (auto simp: index_ok_def valid_ids_def next_id_snoc row_id_def)
  then show ?thesis using ins by blast
qed

lemma index_refuses:
  assumes "index_ok h t" "row_id (tr_id_column t) r \<in> row_id (tr_id_column t) ` set (tr_rows t)"
  shows "bptree_insert h (tr_root t) (row_id (tr_id_column t) r) v = Some (h, tr_root t, FAILURE)"
proof -
  have "id_map (tr_id_column t) (tr_rows t) (row_id (tr_id_column t) r) \<noteq> None"
    using assms(2) by (simp add: id_map_None)
  then show ?thesis using bp.ins_present assms(1) by (auto simp: index_ok_def)
qed

text \<open>What stays of a table while its rows are loaded.\<close>

definition same_schema :: "table_runtime \<Rightarrow> table_runtime \<Rightarrow> bool" where
  "same_schema t t' \<longleftrightarrow> tr_name t' = tr_name t \<and> tr_col_count t' = tr_col_count t \<and>
     tr_columns t' = tr_columns t \<and> tr_id_column t' = tr_id_column t \<and> tr_loaded t' = tr_loaded t"

definition loadable :: "nat \<Rightarrow> string list list \<Rightarrow> bool" where
  "loadable c rows \<longleftrightarrow> valid_ids c rows \<and> distinct (map (row_id c) rows)"

lemma load_loop_ok:
  assumes "index_ok h t" "bp_memory h" "length (tr_rows t) \<le> tr_capacity t"
  shows "\<exists>h' t' res. load_loop h t rs = Some (h', t', res) \<and> bp_memory h' \<and> index_ok h' t' \<and>
     same_schema t t' \<and> length (tr_rows t') \<le> tr_capacity t' \<and>
     (res = Inr () \<longrightarrow> tr_rows t' = tr_rows t @ rs) \<and>
     (loadable (tr_id_column t) (tr_rows t @ rs) \<longrightarrow> res = Inr ())"
  using assms
proof (induction rs arbitrary: h t)
  case Nil
  then show ?case by (auto simp: same_schema_def)
next
  case (Cons r rs)
  let ?t1 = "table_reserve_if_needed t" and ?c = "tr_id_column t" and ?id = "row_id (tr_id_column t) r"
  have ok1: "index_ok h ?t1" using Cons.prems(1) by (simp add: index_ok_def)
  have cap1: "length (tr_rows ?t1) < tr_capacity ?t1" using reserve_capacity [OF Cons.prems(3)] by simp
  have ss1: "same_schema t ?t1" by (simp add: same_schema_def)
  show ?case
  proof (cases "utils_is_integer (r ! ?c) \<and> 0 \<le> ?id \<and> ?id \<le> INT_MAX")
    case False
    then have "\<not> loadable ?c (tr_rows t @ r # rs)" by (auto simp: loadable_def valid_ids_def)
    moreover have "\<exists>e. load_loop h t (r # rs) = Some (h, ?t1, Inl e)"
      using False by (auto simp: Let_def row_id_def)
    ultimately show ?thesis using ok1 Cons.prems(2) cap1 ss1 by force
  next
    case valid: True
    show ?thesis
    proof (cases "?id \<in> row_id ?c ` set (tr_rows t)")
      case True
      then have "\<not> loadable ?c (tr_rows t @ r # rs)" by (auto simp: loadable_def)
      moreover have "load_loop h t (r # rs) = Some (h, ?t1, Inl Index_refused)"
        using valid index_refuses [OF Cons.prems(1) True] by (simp add: Let_def row_id_def)
      ultimately show ?thesis using ok1 Cons.prems(2) cap1 ss1 by force
    next
      case False
      obtain h' root' where ins: "bptree_insert h (tr_root t) ?id (int (length (tr_rows t))) = Some (h', root', SUCCESS)"
        and mem: "bp_memory h'" and upd: "\<And>t'. tr_root t' = root' \<Longrightarrow> tr_rows t' = tr_rows t @ [r] \<Longrightarrow>
          tr_id_column t' = ?c \<Longrightarrow> tr_next_id t' = max (tr_next_id t) (?id + 1) \<Longrightarrow> index_ok h' t'"
        using index_ok_add [OF Cons.prems(1,2) False refl] valid by metis
      let ?t2 = "?t1\<lparr>tr_root := root', tr_rows := tr_rows t @ [r],
          tr_next_id := (if tr_next_id t \<le> ?id then ?id + 1 else tr_next_id t)\<rparr>"
      have run: "load_loop h t (r # rs) = load_loop h' ?t2 rs"
        using valid ins by (simp add: Let_def row_id_def)
      have ok2: "index_ok h' ?t2" by (rule upd) auto
      have "length (tr_rows ?t2) \<le> tr_capacity ?t2" using cap1 by simp
      then obtain h3 t3 res where IH: "load_loop h' ?t2 rs = Some (h3, t3, res)" "bp_memory h3" "index_ok h3 t3"
        "same_schema ?t2 t3" "length (tr_rows t3) \<le> tr_capacity t3" "res = Inr () \<longrightarrow> tr_rows t3 = tr_rows ?t2 @ rs"
        "loadable ?c (tr_rows ?t2 @ rs) \<longrightarrow> res = Inr ()"
        using Cons.IH [OF ok2 mem] by auto
      have "same_schema t t3" using IH(4) by (simp add: same_schema_def)
      then show ?thesis using run IH by auto
    qed
  qed
qed

lemma load_rows_width:
  "load_rows n b pos rows offs s = Inr (rows', offs') \<Longrightarrow> \<forall>r \<in> set rows. length r = n \<Longrightarrow>
   \<forall>r \<in> set rows'. length r = n"
proof (induction n b pos rows offs s rule: load_rows.induct)
  case (1 n b pos rows offs s)
  show ?case
  proof (cases "read_row_line n s")
    case (Data_row flds rest)
    then have "length flds = n"
      by (auto simp: read_row_line_def split: option.splits prod.splits if_splits)
    then show ?thesis using 1 Data_row by (auto simp: load_rows.simps [of n b pos rows offs s])
  qed (use 1 in \<open>auto simp: load_rows.simps [of n b pos rows offs s]\<close>)
qed

lemma load_table_bounds:
  assumes "storage_load_table fs name = Inr ld"
  shows "\<forall>r \<in> set (td_rows ld). length r = length (td_columns ld)"
    "length (td_columns ld) \<le> MAX_COLUMNS" "\<forall>c \<in> set (td_columns ld). length c < MAX_IDENTIFIER_LEN"
proof -
  obtain s cols rest rows offs where s: "storage_read_header s = Inr (cols, rest)"
    "load_rows (length cols) True (length s - length rest) [] [] rest = Inr (rows, offs)"
    "ld = \<lparr>td_columns = cols, td_rows = rows, td_offsets = offs\<rparr>"
    using assms by (auto simp: storage_load_table_def storage_load_table_internal_def storage_load_table_from_fp_def
        split: option.splits sum.splits prod.splits)
  then show "\<forall>r \<in> set (td_rows ld). length r = length (td_columns ld)" using load_rows_width by fastforce
  have "length cols \<le> MAX_COLUMNS \<and> (\<forall>c \<in> set cols. length c < MAX_IDENTIFIER_LEN)"
    using s(1) by (auto simp: storage_read_header_def storage_copy_columns_def safe_strcpy_eq list_all_iff
        split: option.splits prod.splits if_splits)
  then show "length (td_columns ld) \<le> MAX_COLUMNS" "\<forall>c \<in> set (td_columns ld). length c < MAX_IDENTIFIER_LEN"
    using s(3) by auto
qed

lemma strcpy_fits: "length v < n \<Longrightarrow> utils_safe_strcpy d n v = (v, SUCCESS)"
  by (simp add: utils_safe_strcpy_def)

lemma copy_names_ok:
  "\<forall>c \<in> set cs. length c < MAX_IDENTIFIER_LEN \<Longrightarrow> i + length cs \<le> length arr \<Longrightarrow>
   copy_names arr i cs = (take i arr @ cs @ drop (i + length cs) arr, True)"
proof (induction cs arbitrary: arr i)
  case (Cons c cs)
  have "copy_names arr i (c # cs) = copy_names (arr[i := c]) (Suc i) cs"
    using Cons.prems(1) by (simp add: strcpy_fits)
  also have "\<dots> = (take (Suc i) (arr[i := c]) @ cs @ drop (Suc i + length cs) (arr[i := c]), True)"
    using Cons by simp
  finally show ?case using Cons.prems(2) by (simp add: take_Suc_conv_app_nth)
qed simp

lemma copy_schema_ok:
  assumes "table_inv h t" "\<not> tr_loaded t" "cells h = Map.empty"
    and ld: "length (td_columns ld) \<le> MAX_COLUMNS" "\<forall>c \<in> set (td_columns ld). length c < MAX_IDENTIFIER_LEN"
    and cp: "table_copy_schema_from_storage t ld = (t', res)"
  shows "tr_root t' = None \<and>
    (res = Inr () \<longrightarrow> index_ok h t' \<and> schema_ok t' \<and> tr_rows t' = [] \<and> tr_loaded t' \<and> tr_name t' = tr_name t \<and>
       columns_of t' = td_columns ld \<and> tr_col_count t' = length (td_columns ld) \<and>
       storage_find_column_index (td_columns ld) ''id'' = Some (tr_id_column t')) \<and>
    (td_columns ld \<noteq> [] \<and> storage_find_column_index (td_columns ld) ''id'' \<noteq> None \<longrightarrow> res = Inr ())"
proof -
  have inv: "length (tr_columns t) = MAX_COLUMNS" "tr_rows t = []" "tr_root t = None" "tr_next_id t = 1"
    using assms(1,2) by (auto simp: table_inv_def schema_ok_def index_ok_def next_id_from_def)
  show ?thesis
  proof (cases "td_columns ld = []")
    case True
    then show ?thesis using cp inv by (auto simp: table_copy_schema_from_storage_def)
  next
    case False
    have cn: "copy_names (tr_columns t) 0 (td_columns ld) =
        (td_columns ld @ drop (length (td_columns ld)) (tr_columns t), True)"
      using copy_names_ok [OF ld(2), of 0 "tr_columns t"] ld(1) inv by simp
    let ?t1 = "t\<lparr>tr_col_count := length (td_columns ld),
        tr_columns := td_columns ld @ drop (length (td_columns ld)) (tr_columns t)\<rparr>"
    have cols: "columns_of ?t1 = td_columns ld" by (simp add: columns_of_def)
    have fi: "table_find_column_index ?t1 ''id'' = storage_find_column_index (td_columns ld) ''id''"
      by (simp add: table_find_column_index_def storage_find_column_index_def cols)
    have res: "(t', res) = (case storage_find_column_index (td_columns ld) ''id'' of
        None \<Rightarrow> (?t1, Inl Missing_id_column) | Some i \<Rightarrow> (?t1\<lparr>tr_id_column := i, tr_loaded := True\<rparr>, Inr ()))"
      using cp cn False ld(1) fi by (simp add: table_copy_schema_from_storage_def Let_def split: option.splits)
    show ?thesis
    proof (cases "storage_find_column_index (td_columns ld) ''id''")
      case None
      then show ?thesis using res inv by simp
    next
      case (Some i)
      then have t': "t' = ?t1\<lparr>tr_id_column := i, tr_loaded := True\<rparr>" "res = Inr ()" using res by simp_all
      have "schema_ok t'" using inv ld(1) assms(1) t' by (simp add: schema_ok_def table_inv_def)
      moreover have "index_ok h t'" using index_ok_empty [OF assms(3)] inv t' by simp
      ultimately show ?thesis using t' inv Some cols by (simp add: columns_of_def)
    qed
  qed
qed

text \<open>The rows behind a copied schema: all are loaded, or the table is dropped again.\<close>

lemma load_rows_ok:
  assumes ld: "storage_load_table fs name = Inr ld" and mem: "bp_memory h"
    and t: "index_ok h t" "schema_ok t" "tr_rows t = []" "tr_loaded t" "columns_of t = td_columns ld"
      "tr_col_count t = length (td_columns ld)" "storage_find_column_index (td_columns ld) ''id'' = Some (tr_id_column t)"
  shows "\<exists>h' t' res. load_loop h t (td_rows ld) = Some (h', t', res) \<and>
     (loadable (tr_id_column t) (td_rows ld) \<longrightarrow> res = Inr ()) \<and>
     (res = Inr () \<longrightarrow> table_inv h' t' \<and> same_schema t t' \<and> tr_rows t' = td_rows ld) \<and>
     (res \<noteq> Inr () \<longrightarrow> (\<exists>h2 t2 st. table_reset_as_unloaded h' t' name = Some (h2, t2, st) \<and> table_inv h2 t2 \<and> unloaded t2))"
proof -
  obtain h' t' res where l: "load_loop h t (td_rows ld) = Some (h', t', res)" "bp_memory h'" "index_ok h' t'"
    "same_schema t t'" "length (tr_rows t') \<le> tr_capacity t'" "res = Inr () \<longrightarrow> tr_rows t' = td_rows ld"
    "loadable (tr_id_column t) (td_rows ld) \<longrightarrow> res = Inr ()"
    using load_loop_ok [OF t(1) mem, of "td_rows ld"] t by (auto simp: schema_ok_def)
  have "bp_owns h' (tr_root t') (id_map (tr_id_column t') (tr_rows t'))" using l(3) by (simp add: index_ok_def)
  then have drop: "\<exists>h2 t2 st. table_reset_as_unloaded h' t' name = Some (h2, t2, st) \<and> table_inv h2 t2 \<and> unloaded t2"
    using reset_ok l(2) by blast
  have "table_inv h' t'" if "res = Inr ()"
    using l t that load_table_bounds(1) [OF ld]
    by (auto simp: table_inv_def schema_ok_def same_schema_def table_find_column_index_def columns_of_def
        storage_find_column_index_def)
  then show ?thesis using l drop by blast
qed

lemma load_data_ok:
  assumes inv: "table_inv h t" and ld: "storage_load_table fs name = Inr ld"
  shows "\<exists>h' t' res. table_load_data h t name ld = Some (h', t', res) \<and> table_inv h' t' \<and>
     (tr_loaded t' \<longrightarrow> tr_name t' = name \<and> columns_of t' = td_columns ld \<and> tr_rows t' = td_rows ld \<and>
        storage_find_column_index (td_columns ld) ''id'' = Some (tr_id_column t')) \<and>
     (\<forall>c. length name < MAX_IDENTIFIER_LEN \<and> storage_find_column_index (td_columns ld) ''id'' = Some c \<and>
        loadable c (td_rows ld) \<longrightarrow> res = Inr () \<and> tr_loaded t')"
proof -
  have owns: "bp_owns h (tr_root t) (id_map (tr_id_column t) (tr_rows t))" "bp_memory h"
    using inv by (auto simp: table_inv_def index_ok_def)
  obtain h1 t1 st where r1: "table_reset_as_unloaded h t name = Some (h1, t1, st)" "table_inv h1 t1"
    "cells h1 = Map.empty" "unloaded t1"
    "length name < MAX_IDENTIFIER_LEN \<longrightarrow> st = SUCCESS \<and> tr_name t1 = name"
    using reset_ok [OF owns] by blast
  have st: "st = SUCCESS \<Longrightarrow> tr_name t1 = name"
    using r1(1) by (auto simp: table_reset_as_unloaded_def table_set_active_name_def utils_safe_strcpy_def
        split: bind_splits if_splits)
  have unl1: "\<not> tr_loaded t1" by (rule unloaded_fields [OF r1(4)])
  obtain t2 res2 where c: "table_copy_schema_from_storage t1 ld = (t2, res2)" by fastforce
  note sch = copy_schema_ok [OF r1(2) unl1 r1(3) load_table_bounds(2,3) [OF ld] c]
  have mem1: "bp_memory h1" using r1(2) by (simp add: table_inv_def)
  show ?thesis
  proof (cases "st = FAILURE")
    case True
    then show ?thesis using r1 unl1 by (simp add: table_load_data_def)
  next
    case nf: False
    then have name: "tr_name t1 = name" using st by (cases st) auto
    show ?thesis
    proof (cases res2)
      case (Inl e)
      have "bp_owns h1 (tr_root t2) Map.empty" using sch r1(3) by (simp add: bp_owns_def)
      then obtain h3 t3 st3 where r3: "table_reset_as_unloaded h1 t2 name = Some (h3, t3, st3)" "table_inv h3 t3"
        "unloaded t3" using reset_ok mem1 by blast
      have "storage_find_column_index (td_columns ld) ''id'' = None"
        using sch Inl by (auto simp: storage_find_column_index_def)
      then show ?thesis using r1(1) nf c Inl r3 unloaded_fields [OF r3(3)] by (simp add: table_load_data_def)
    next
      case (Inr u)
      then have s2: "index_ok h1 t2" "schema_ok t2" "tr_rows t2 = []" "tr_loaded t2" "tr_name t2 = name"
        "columns_of t2 = td_columns ld" "tr_col_count t2 = length (td_columns ld)"
        "storage_find_column_index (td_columns ld) ''id'' = Some (tr_id_column t2)" using sch name by auto
      obtain h3 t3 res where l: "load_loop h1 t2 (td_rows ld) = Some (h3, t3, res)"
        "loadable (tr_id_column t2) (td_rows ld) \<longrightarrow> res = Inr ()"
        "res = Inr () \<longrightarrow> table_inv h3 t3 \<and> same_schema t2 t3 \<and> tr_rows t3 = td_rows ld"
        "res \<noteq> Inr () \<longrightarrow> (\<exists>h4 t4 st4. table_reset_as_unloaded h3 t3 name = Some (h4, t4, st4) \<and> table_inv h4 t4 \<and> unloaded t4)"
        using load_rows_ok [OF ld mem1 s2(1-4,6-8)] by blast
      show ?thesis
      proof (cases res)
        case (Inl e)
        then obtain h4 t4 st4 where r4: "table_reset_as_unloaded h3 t3 name = Some (h4, t4, st4)" "table_inv h4 t4" "unloaded t4"
          using l(4) by blast
        then show ?thesis using r1(1) nf c \<open>res2 = Inr u\<close> l(1,2) Inl unloaded_fields [OF r4(3)] s2(8)
          by (simp add: table_load_data_def)
      next
        case (Inr u')
        then show ?thesis using r1(1) nf c \<open>res2 = Inr u\<close> l(1,3) s2
          by (simp add: table_load_data_def same_schema_def columns_of_def)
      qed
    qed
  qed
qed

text \<open>Loading always ends in a table that satisfies the invariant, whatever the file holds.\<close>

lemma load_table_ok:
  assumes inv: "table_inv h t"
  shows "\<exists>h' t' res. table_load_from_storage_if_needed fs h t name = Some (h', t', res) \<and> table_inv h' t'"
proof (cases "tr_loaded t")
  case True
  then show ?thesis using inv by (simp add: table_load_from_storage_if_needed_def)
next
  case unl: False
  obtain t0 named where t0: "(if tr_name t = [] then table_set_active_name t name else (t, SUCCESS)) = (t0, named)"
    by fastforce
  then obtain v where v: "t0 = t\<lparr>tr_name := v\<rparr>"
    by (auto simp: table_set_active_name_def split: prod.splits if_splits)
      (metis table_runtime.surjective table_runtime.update_convs(1))
  have inv0: "table_inv h t0" using inv by (simp add: v table_inv_def schema_ok_def index_ok_def)
  show ?thesis
  proof (cases "named = FAILURE \<or> \<not> utils_equals_ignore_case (tr_name t0) name \<or> \<not> storage_table_exists fs name")
    case True
    then show ?thesis using unl inv0 t0 by (auto simp: table_load_from_storage_if_needed_def)
  next
    case False
    then show ?thesis using unl inv0 t0 load_data_ok [OF inv0]
      by (cases "storage_load_table fs name") (fastforce simp: table_load_from_storage_if_needed_def)+
  qed
qed

end
