(* ===== verification/Runtime_Insert.thy ===== *)
theory Runtime_Insert
  imports Runtime_Correct
begin

text \<open>
  Insertion into the in-memory table.  \<open>table_safe\<close> is what every operation keeps whatever
  the table files contain: no operation of the B+ tree below is ever undefined.  For data
  directories written by the program itself (\<open>stored_tables\<close>), the full invariant of the
  table holds and memory and file hold the same rows after every insertion.
\<close>

section \<open>Safety for arbitrary files\<close>

definition table_safe :: "bp_heap \<Rightarrow> table_runtime \<Rightarrow> bool" where
  "table_safe h t \<longleftrightarrow> schema_ok t \<and> bp_memory h \<and> (\<exists>m. bp_owns h (tr_root t) m) \<and>
     (if tr_loaded t then tr_id_column t < tr_col_count t \<and> (\<forall>r \<in> set (tr_rows t). length r = tr_col_count t)
      else table_inv h t)"

lemma inv_safe: "table_inv h t \<Longrightarrow> table_safe h t"
  using find_column_less by (auto simp: table_safe_def table_inv_def index_ok_def)

lemma safe_unloaded: "table_safe h t \<Longrightarrow> \<not> tr_loaded t \<Longrightarrow> table_inv h t"
  by (simp add: table_safe_def)

lemma safe_rename: "table_safe h t \<Longrightarrow> table_safe h (t\<lparr>tr_name := v\<rparr>)"
  by (auto simp: table_safe_def table_inv_def schema_ok_def index_ok_def)

lemma inv_rename: "table_inv h t \<Longrightarrow> table_inv h (t\<lparr>tr_name := v\<rparr>)"
  by (auto simp: table_inv_def schema_ok_def index_ok_def)

lemma set_active_name_eq:
  assumes "(if tr_name t = [] then table_set_active_name t name else (t, SUCCESS)) = (t0, named)"
  shows "\<exists>v. t0 = t\<lparr>tr_name := v\<rparr>" "tr_name t \<noteq> [] \<Longrightarrow> t0 = t"
    "length name < MAX_IDENTIFIER_LEN \<Longrightarrow> tr_name t = [] \<or> utils_equals_ignore_case (tr_name t) name \<Longrightarrow>
       named = SUCCESS \<and> utils_equals_ignore_case (tr_name t0) name"
proof -
  show "\<exists>v. t0 = t\<lparr>tr_name := v\<rparr>"
    using assms by (auto simp: table_set_active_name_def split: prod.splits if_splits)
      (metis table_runtime.surjective table_runtime.update_convs(1))
  show "tr_name t \<noteq> [] \<Longrightarrow> t0 = t" using assms by simp
  show "named = SUCCESS \<and> utils_equals_ignore_case (tr_name t0) name"
    if "length name < MAX_IDENTIFIER_LEN" "tr_name t = [] \<or> utils_equals_ignore_case (tr_name t) name"
    using assms that
    by (auto simp: table_set_active_name_def strcpy_fits equals_ignore_case_iff split: if_splits)
qed

lemma load_safe:
  assumes "table_safe h t"
  shows "\<exists>h' t' res. table_load_from_storage_if_needed fs h t name = Some (h', t', res) \<and> table_safe h' t' \<and>
     (tr_loaded t \<longrightarrow> h' = h \<and> t' = t \<and> res = Inr ()) \<and> (\<not> tr_loaded t \<longrightarrow> table_inv h' t')"
proof (cases "tr_loaded t")
  case True
  then show ?thesis using assms by (simp add: table_load_from_storage_if_needed_def)
next
  case False
  then show ?thesis using load_table_ok [OF safe_unloaded [OF assms False], of fs name] inv_safe by metis
qed

text \<open>A table that was loaded now holds what the file holds.\<close>

definition coherent :: "file_system \<Rightarrow> table_runtime \<Rightarrow> bool" where
  "coherent fs t \<longleftrightarrow> (tr_loaded t \<longrightarrow> table_at fs (tr_name t) (columns_of t) (tr_rows t))"

lemma load_result:
  assumes "table_inv h t" "\<not> tr_loaded t" "table_load_from_storage_if_needed fs h t name = Some (h', t', res)"
    "tr_loaded t'"
  shows "tr_name t' = name \<and> (\<exists>ld. storage_load_table fs name = Inr ld \<and> columns_of t' = td_columns ld \<and>
     tr_rows t' = td_rows ld \<and> storage_find_column_index (td_columns ld) ''id'' = Some (tr_id_column t'))"
proof -
  obtain t0 named where t0: "(if tr_name t = [] then table_set_active_name t name else (t, SUCCESS)) = (t0, named)"
    by fastforce
  then obtain v where v: "t0 = t\<lparr>tr_name := v\<rparr>" using set_active_name_eq(1) by blast
  have inv0: "table_inv h t0" using inv_rename [OF assms(1)] by (simp add: v)
  have unl: "\<not> tr_loaded t0" using assms(2) v by simp
  show ?thesis
  proof (cases "storage_load_table fs name")
    case (Inl e)
    then show ?thesis using assms(2-4) t0 unl by (auto simp: table_load_from_storage_if_needed_def split: if_splits)
  next
    case (Inr ld)
    then have "table_load_data h t0 name ld = Some (h', t', res)"
      using assms(2-4) t0 unl by (auto simp: table_load_from_storage_if_needed_def split: if_splits)
    then show ?thesis using load_data_ok [OF inv0 Inr] assms(4) Inr by auto
  qed
qed

lemma load_table_exact:
  assumes inv: "table_inv h t" "\<not> tr_loaded t" and name: "length name < MAX_IDENTIFIER_LEN"
    "tr_name t = [] \<or> utils_equals_ignore_case (tr_name t) name"
    and ld: "storage_load_table fs name = Inr ld" "storage_find_column_index (td_columns ld) ''id'' = Some c"
    "loadable c (td_rows ld)"
  shows "\<exists>h' t'. table_load_from_storage_if_needed fs h t name = Some (h', t', Inr ()) \<and> table_inv h' t' \<and>
     tr_loaded t' \<and> tr_name t' = name \<and> columns_of t' = td_columns ld \<and> tr_rows t' = td_rows ld \<and> tr_id_column t' = c"
proof -
  obtain t0 named where t0: "(if tr_name t = [] then table_set_active_name t name else (t, SUCCESS)) = (t0, named)"
    by fastforce
  then obtain v where v: "t0 = t\<lparr>tr_name := v\<rparr>" using set_active_name_eq(1) by blast
  have inv0: "table_inv h t0" using inv_rename [OF inv(1)] by (simp add: v)
  have ex: "storage_table_exists fs name"
    using ld(1) by (auto simp: storage_table_exists_def storage_load_table_def storage_load_table_internal_def
        split: option.splits)
  have nm: "named = SUCCESS" "utils_equals_ignore_case (tr_name t0) name"
    using set_active_name_eq(3) [OF t0 name] by auto
  obtain h' t' where run: "table_load_data h t0 name ld = Some (h', t', Inr ())" "table_inv h' t'" "tr_loaded t'"
    and res: "tr_name t' = name" "columns_of t' = td_columns ld" "tr_rows t' = td_rows ld" "tr_id_column t' = c"
    using load_data_ok [OF inv0 ld(1)] name(1) ld(2,3) by fastforce
  have "table_load_from_storage_if_needed fs h t name = table_load_data h t0 name ld"
    using inv(2) t0 ex nm ld(1) by (auto simp: table_load_from_storage_if_needed_def)
  then show ?thesis using run res by auto
qed

section \<open>Storing a row\<close>

lemma owns_insert_total:
  assumes "bp_owns h root m" "bp_memory h"
  shows "\<exists>h' root' st m'. bptree_insert h root k v = Some (h', root', st) \<and> bp_owns h' root' m' \<and> bp_memory h'"
proof (cases "m k")
  case None
  then show ?thesis using bp.ins_new [OF assms None] by blast
next
  case (Some w)
  then show ?thesis using bp.ins_present [of h root m k v] assms by auto
qed

lemma store_row_safe:
  assumes safe: "table_safe h t" "tr_loaded t" and len: "Suc (length (ins_values stmt)) = tr_col_count t"
  shows "\<exists>fs' h' t' res. table_store_row fs h t stmt = Some (fs', h', t', res) \<and> table_safe h' t'"
proof -
  let ?t3 = "table_reserve_if_needed t"
  have cap: "length (tr_rows t) < tr_capacity ?t3"
    using safe reserve_capacity by (simp add: table_safe_def schema_ok_def)
  have widths: "tr_id_column t < tr_col_count t" "\<forall>r \<in> set (tr_rows t). length r = tr_col_count t"
    and sch: "length (tr_columns t) = MAX_COLUMNS" "tr_col_count t \<le> MAX_COLUMNS"
    using safe by (auto simp: table_safe_def schema_ok_def)
  obtain m where m: "bp_owns h (tr_root t) m" "bp_memory h" using safe(1) by (auto simp: table_safe_def)
  obtain h4 r4 st m4 where ins: "bptree_insert h (tr_root t) (tr_next_id t) (int (length (tr_rows t))) = Some (h4, r4, st)"
    "bp_owns h4 r4 m4" "bp_memory h4" using owns_insert_total [OF m] by blast
  let ?t4 = "?t3\<lparr>tr_root := r4\<rparr>"
  let ?t5 = "?t4\<lparr>tr_rows := tr_rows t @ [table_build_row stmt (tr_next_id t)], tr_next_id := tr_next_id t + 1\<rparr>"
  have safe3: "table_safe h ?t3" using m cap widths sch safe(2) by (auto simp: table_safe_def schema_ok_def)
  have safe4: "table_safe h4 ?t4" using ins cap widths sch safe(2) by (auto simp: table_safe_def schema_ok_def)
  have safe5: "table_safe h4 ?t5" using ins cap widths sch safe(2) len
    by (auto simp: table_safe_def schema_ok_def table_build_row_def)
  obtain fs' ires where si: "storage_insert fs (tr_name t) stmt = (fs', ires)" by fastforce
  show ?thesis
  proof (cases "tr_next_id t \<le> INT_MAX \<and> st = SUCCESS")
    case False
    then show ?thesis using safe3 safe4 ins(1) by (cases st) (auto simp: table_store_row_def Let_def)
  next
    case True
    obtain h6 t6 st6 where r6: "table_reset_as_unloaded h4 ?t5 (ins_table stmt) = Some (h6, t6, st6)" "table_inv h6 t6"
      using reset_ok [of h4 ?t5 m4 "ins_table stmt"] ins by auto
    obtain h7 t7 res7 where l7: "table_load_from_storage_if_needed fs' h6 t6 (ins_table stmt) = Some (h7, t7, res7)"
      "table_inv h7 t7" using load_table_ok [OF r6(2), of fs' "ins_table stmt"] by blast
    show ?thesis
      using True ins(1) si safe5 r6 l7 inv_safe [OF l7(2)]
      by (cases ires) (auto simp: table_store_row_def Let_def)
  qed
qed

lemma store_row_done:
  assumes inv: "table_inv h t" "tr_loaded t" and len: "Suc (length (ins_values stmt)) = tr_col_count t"
    and c: "tr_id_column t = 0" and nxt: "tr_next_id t \<le> INT_MAX"
    and si: "storage_insert fs (tr_name t) stmt = (fs', Inr ())"
  shows "\<exists>h' t'. table_store_row fs h t stmt = Some (fs', h', t', Inr (length (tr_rows t))) \<and> table_inv h' t' \<and>
     same_schema t t' \<and> tr_rows t' = tr_rows t @ [show_int (tr_next_id t) # ins_values stmt]"
proof -
  let ?row = "show_int (tr_next_id t) # ins_values stmt" and ?t3 = "table_reserve_if_needed t"
  have ok: "index_ok h t" "bp_memory h" and sch: "schema_ok t" using inv by (auto simp: table_inv_def)
  have nid: "tr_next_id t = next_id_from 0 1 (tr_rows t)" "1 \<le> tr_next_id t"
    using ok(1) c next_id_ge [of 1 0 "tr_rows t"] by (auto simp: index_ok_def)
  have rid: "row_id 0 ?row = tr_next_id t"
    using nid nxt parse_show_int [of "tr_next_id t"] by (simp add: row_id_def INT_MAX_def LLONG_MAX_def)
  have new: "row_id 0 ?row \<notin> row_id 0 ` set (tr_rows t)"
    using next_id_above [of _ "tr_rows t" 0 1] nid(1) rid by (force simp: row_id_def)
  have isint: "utils_is_integer (?row ! 0)" using nid nxt parse_show_int [of "tr_next_id t"]
    by (simp add: INT_MAX_def LLONG_MAX_def)
  obtain h4 r4 where ins: "bptree_insert h (tr_root t) (tr_next_id t) (int (length (tr_rows t))) = Some (h4, r4, SUCCESS)"
    "bp_memory h4" and upd: "\<And>t'. tr_root t' = r4 \<Longrightarrow> tr_rows t' = tr_rows t @ [?row] \<Longrightarrow>
       tr_id_column t' = 0 \<Longrightarrow> tr_next_id t' = max (tr_next_id t) (tr_next_id t + 1) \<Longrightarrow> index_ok h4 t'"
    using index_ok_add [OF ok new c [symmetric] isint] rid nid nxt by auto
  let ?t5 = "?t3\<lparr>tr_root := r4, tr_rows := tr_rows t @ [?row], tr_next_id := tr_next_id t + 1\<rparr>"
  have run: "table_store_row fs h t stmt = Some (fs', h4, ?t5, Inr (length (tr_rows t)))"
    using nxt ins si by (simp add: table_store_row_def Let_def table_build_row_def)
  have "index_ok h4 ?t5" by (rule upd) (simp_all add: c)
  then have "table_inv h4 ?t5"
    using inv ins(2) sch len reserve_capacity [of t]
    by (auto simp: table_inv_def schema_ok_def)
  then show ?thesis using run by (auto simp: same_schema_def)
qed

section \<open>The whole insertion, for arbitrary files\<close>

lemma init_schema_length: "length (fst (init_schema_loop arr i cs)) = length arr"
  by (induction arr i cs rule: init_schema_loop.induct) (auto split: prod.splits status.splits)

lemma initialize_schema_safe:
  assumes inv: "table_inv h t" "\<not> tr_loaded t" and r: "table_initialize_schema t stmt = (t', res)"
  shows "table_safe h t' \<and> (res = Inr () \<longrightarrow> tr_loaded t' \<and> tr_col_count t' = Suc (length (ins_columns stmt)))"
proof -
  obtain arr r' where a: "init_schema_loop ((tr_columns t)[0 := ''id'']) 1 (ins_columns stmt) = (arr, r')" by fastforce
  then have len: "length arr = MAX_COLUMNS"
    using init_schema_length [of "(tr_columns t)[0 := ''id'']" 1 "ins_columns stmt"] inv(1)
    by (simp add: table_inv_def schema_ok_def)
  have owns: "\<exists>m. bp_owns h (tr_root t) m" using inv(1) by (auto simp: table_inv_def index_ok_def)
  show ?thesis
  proof (cases "ins_columns stmt = [] \<or> MAX_COLUMNS < length (ins_columns stmt) + 1")
    case True
    then show ?thesis using r inv_safe [OF inv(1)] by (auto simp: table_initialize_schema_def Let_def)
  next
    case False
    then show ?thesis using r a inv len owns
      by (cases r') (auto simp: table_initialize_schema_def Let_def table_safe_def table_inv_def schema_ok_def index_ok_def)
  qed
qed

lemma insert_row_safe:
  assumes safe: "table_safe h t" and len: "length (ins_values stmt) = length (ins_columns stmt)"
  shows "\<exists>fs' h' t' res. table_insert_row fs h t stmt = Some (fs', h', t', res) \<and> table_safe h' t'"
proof -
  let ?name = "ins_table stmt"
  obtain t0 named where t0: "(if tr_name t = [] then table_set_active_name t ?name else (t, SUCCESS)) = (t0, named)"
    by fastforce
  then have safe0: "table_safe h t0" using set_active_name_eq(1) [OF t0] safe_rename [OF safe] by auto
  show ?thesis
  proof (cases "named = FAILURE \<or> \<not> utils_equals_ignore_case (tr_name t0) ?name")
    case True
    then show ?thesis using t0 safe0 by (auto simp: table_insert_row_def Let_def)
  next
    case False
    obtain h1 t1 res where l: "table_load_from_storage_if_needed fs h t0 ?name = Some (h1, t1, res)" "table_safe h1 t1"
      using load_safe [OF safe0] by blast
    obtain t2 res2 where c: "(if tr_loaded t1
        then (t1, if table_validate_insert_schema t1 stmt then Inr () else Inl Schema_mismatch)
        else table_initialize_schema t1 stmt) = (t2, res2)" by fastforce
    have safe2: "table_safe h1 t2 \<and> (res2 = Inr () \<longrightarrow> tr_loaded t2 \<and> tr_col_count t2 = Suc (length (ins_columns stmt)))"
    proof (cases "tr_loaded t1")
      case True
      then show ?thesis using c l(2) by (auto simp: table_validate_insert_schema_def split: if_splits)
    next
      case False
      then show ?thesis using c initialize_schema_safe [OF safe_unloaded [OF l(2)]] by simp
    qed
    have run: "table_insert_row fs h t stmt = (case res of Inl e \<Rightarrow> Some (fs, h1, t1, Inl e) | Inr _ \<Rightarrow>
        (case res2 of Inl e \<Rightarrow> Some (fs, h1, t2, Inl e) | Inr _ \<Rightarrow> table_store_row fs h1 t2 stmt))"
      using t0 False l(1) c by (simp add: table_insert_row_def Let_def split: sum.split)
    show ?thesis
    proof (cases "res = Inr () \<and> res2 = Inr ()")
      case True
      then show ?thesis using run safe2 store_row_safe [of h1 t2 stmt fs] len by simp
    next
      case False
      then show ?thesis using run safe2 l(2) by (cases res; cases res2) auto
    qed
  qed
qed

section \<open>Data directories written by the program\<close>

definition good_table :: "string list \<Rightarrow> string list list \<Rightarrow> bool" where
  "good_table cols rows \<longleftrightarrow> wf_table cols rows \<and> 2 \<le> length cols \<and> utils_equals_ignore_case (hd cols) ''id'' \<and>
     distinct_names cols \<and> loadable 0 rows"

definition stored_tables :: "file_system \<Rightarrow> bool" where
  "stored_tables fs \<longleftrightarrow> data_dir fs \<noteq> Data_other \<and> (data_dir fs = Data_missing \<longrightarrow> files fs = Map.empty) \<and>
     (\<forall>name path s. storage_build_path name = Some path \<and> files fs path = Some s \<longrightarrow>
        (\<exists>cols rows. good_table cols rows \<and> s = table_text cols rows))"

text \<open>The database a data directory stands for: the columns and rows of each table.\<close>

definition abs_db :: "file_system \<Rightarrow> string \<Rightarrow> (string list \<times> string list list) option" where
  "abs_db fs name = (case storage_load_table fs name of Inl e \<Rightarrow> None | Inr ld \<Rightarrow> Some (td_columns ld, td_rows ld))"

lemma abs_db_at: "table_at fs name cols rows \<Longrightarrow> abs_db fs name = Some (cols, rows)"
  by (simp add: abs_db_def load_table_at)

lemma abs_db_none: "\<not> storage_table_exists fs name \<Longrightarrow> abs_db fs name = None"
  by (auto simp: abs_db_def storage_table_exists_def storage_load_table_def storage_load_table_internal_def
      split: option.splits)

lemma build_path_ok: "length name < MAX_IDENTIFIER_LEN \<Longrightarrow> storage_build_path name = Some (''data/'' @ name @ ''.csv'')"
  by (simp add: storage_build_path_def Let_def limit_defs)

lemma build_path_inj: "storage_build_path a = Some p \<Longrightarrow> storage_build_path b = Some p \<Longrightarrow> a = b"
  by (auto simp: storage_build_path_def Let_def split: if_splits)

lemma stored_table_exists:
  assumes "stored_tables fs" "storage_table_exists fs name"
  shows "\<exists>cols rows. good_table cols rows \<and> table_at fs name cols rows"
  using assms by (fastforce simp: stored_tables_def storage_table_exists_def table_at_def fopen_read_def good_table_def
      split: option.splits if_splits)

lemma table_at_unique:
  assumes "table_at fs name cols rows" "table_at fs name cols' rows'"
  shows "cols = cols' \<and> rows = rows'"
  using load_table_at [OF assms(1)] load_table_at [OF assms(2)] by simp

lemma table_at_exists: "table_at fs name cols rows \<Longrightarrow> storage_table_exists fs name"
  by (auto simp: table_at_def storage_table_exists_def fopen_read_def)

lemma stored_table_good: "stored_tables fs \<Longrightarrow> table_at fs name cols rows \<Longrightarrow> good_table cols rows"
  using stored_table_exists table_at_exists table_at_unique by blast

lemma good_table_id: "good_table cols rows \<Longrightarrow> storage_find_column_index cols ''id'' = Some 0"
  by (rule find_column_at) (cases cols; auto simp: good_table_def)+

lemma loadable_int_ids: "loadable 0 rows \<Longrightarrow> int_ids 0 rows"
  by (auto simp: loadable_def valid_ids_def int_ids_def list_all_iff row_id_def INT_MAX_def LLONG_MAX_def)

text \<open>Replacing or adding one table keeps the directory well-formed.\<close>

lemma stored_tables_put:
  assumes st: "stored_tables fs" and p: "storage_build_path name = Some path" and g: "good_table cols rows"
    and fs': "data_dir fs' = Data_directory" "files fs' = (files fs)(path \<mapsto> table_text cols rows)"
  shows "stored_tables fs' \<and> table_at fs' name cols rows"
proof
  show "stored_tables fs'"
    unfolding stored_tables_def fs' using st g by (auto simp: stored_tables_def split: if_splits)
  show "table_at fs' name cols rows" using p g fs' by (auto simp: table_at_def good_table_def)
qed

text \<open>The memory is in step with the files, and a named table without rows has no file.\<close>

definition settled :: "file_system \<Rightarrow> table_runtime \<Rightarrow> bool" where
  "settled fs t \<longleftrightarrow> tr_loaded t \<or> tr_name t = [] \<or> \<not> storage_table_exists fs (tr_name t)"

definition db_inv :: "file_system \<Rightarrow> bp_heap \<Rightarrow> table_runtime \<Rightarrow> bool" where
  "db_inv fs h t \<longleftrightarrow> stored_tables fs \<and> table_inv h t \<and> coherent fs t \<and> length (tr_name t) < MAX_IDENTIFIER_LEN \<and>
     (tr_loaded t \<longrightarrow> tr_id_column t = 0 \<and> tr_name t \<noteq> [])"

lemma load_stored:
  assumes db: "db_inv fs h t" and ne: "name \<noteq> []" and name: "length name < MAX_IDENTIFIER_LEN"
    "tr_name t = [] \<or> utils_equals_ignore_case (tr_name t) name" "settled fs t \<or> tr_name t = name"
  shows "\<exists>h' t'. table_load_from_storage_if_needed fs h t name = Some (h', t', Inr ()) \<and> db_inv fs h' t' \<and>
     settled fs t' \<and> utils_equals_ignore_case (tr_name t') name \<and> (tr_loaded t \<longrightarrow> h' = h \<and> t' = t) \<and>
     (tr_name t \<noteq> [] \<and> \<not> storage_table_exists fs name \<longrightarrow> t' = t) \<and>
     (storage_table_exists fs name \<longrightarrow> tr_loaded t')"
proof (cases "tr_loaded t")
  case True
  then show ?thesis using db name
    by (auto simp: table_load_from_storage_if_needed_def settled_def db_inv_def)
next
  case False
  have inv: "table_inv h t" "stored_tables fs" using db by (auto simp: db_inv_def)
  show ?thesis
  proof (cases "storage_table_exists fs name")
    case True
    then obtain cols rows where at: "good_table cols rows" "table_at fs name cols rows"
      using stored_table_exists [OF inv(2)] by blast
    let ?ld = "\<lparr>td_columns = cols, td_rows = rows, td_offsets = row_offsets (length (storage_write_csv_row cols)) rows\<rparr>"
    obtain h' t' where "table_load_from_storage_if_needed fs h t name = Some (h', t', Inr ())" "table_inv h' t'"
      "tr_loaded t'" "tr_name t' = name" "columns_of t' = cols" "tr_rows t' = rows" "tr_id_column t' = 0"
      using load_table_exact [OF inv(1) False name(1,2) load_table_at [OF at(2)], of 0]
        good_table_id [OF at(1)] at(1) by (auto simp: good_table_def)
    then show ?thesis using inv(2) at(2) True False name(1) ne
      by (auto simp: db_inv_def coherent_def settled_def equals_ignore_case_iff)
  next
    case nex: False
    obtain t0 named where t0: "(if tr_name t = [] then table_set_active_name t name else (t, SUCCESS)) = (t0, named)"
      by fastforce
    have nm: "named = SUCCESS" "utils_equals_ignore_case (tr_name t0) name"
      using set_active_name_eq(3) [OF t0 name(1,2)] by auto
    have t0': "t0 = (if tr_name t = [] then t\<lparr>tr_name := name\<rparr> else t)"
      using t0 name(1) by (auto simp: table_set_active_name_def strcpy_fits split: if_splits)
    have "table_load_from_storage_if_needed fs h t name = Some (h, t0, Inr ())"
      using False t0 nm nex by (simp add: table_load_from_storage_if_needed_def)
    moreover have "db_inv fs h t0" using db False name(1) inv_rename [OF inv(1)]
      by (auto simp: t0' db_inv_def coherent_def)
    moreover have "settled fs t0" using nex name(3) False by (auto simp: t0' settled_def)
    ultimately show ?thesis using nm nex False t0' by auto
  qed
qed

section \<open>Insertion into stored tables\<close>

definition storable :: "insert_statement \<Rightarrow> bool" where
  "storable stmt \<longleftrightarrow> ins_table stmt \<noteq> [] \<and> wf_name (ins_table stmt) \<and> distinct_names (ins_columns stmt) \<and>
     list_all (\<lambda>c. wf_name c \<and> line_safe c) (ins_columns stmt) \<and>
     length (ins_values stmt) = length (ins_columns stmt) \<and> list_all (\<lambda>v. wf_value v \<and> line_safe v) (ins_values stmt)"

lemma init_schema_loop_done:
  "init_schema_loop arr i cs = (arr', Inr ()) \<Longrightarrow> i + length cs \<le> length arr \<Longrightarrow> list_all wf_name cs \<Longrightarrow>
   arr' = take i arr @ cs @ drop (i + length cs) arr \<and> (\<forall>c \<in> set cs. \<not> utils_equals_ignore_case c ''id'')"
proof (induction cs arbitrary: arr i)
  case (Cons c cs)
  have id: "\<not> utils_equals_ignore_case c ''id''" and rec: "init_schema_loop (arr[i := c]) (Suc i) cs = (arr', Inr ())"
    using Cons.prems by (auto simp: strcpy_fits wf_name_def split: if_splits)
  have "arr' = take (Suc i) (arr[i := c]) @ cs @ drop (Suc i + length cs) (arr[i := c]) \<and>
      (\<forall>c \<in> set cs. \<not> utils_equals_ignore_case c ''id'')" using Cons.IH [OF rec] Cons.prems by simp
  then show ?case using id Cons.prems(2) by (simp add: take_Suc_conv_app_nth)
qed simp

lemma initialize_schema_cases:
  assumes inv: "table_inv h t" "\<not> tr_loaded t" and fits: "list_all wf_name (ins_columns stmt)"
    and r: "table_initialize_schema t stmt = (t', res)"
  shows "tr_name t' = tr_name t \<and> (res \<noteq> Inr () \<longrightarrow> \<not> tr_loaded t' \<and> table_inv h t') \<and>
     (res = Inr () \<longrightarrow> table_inv h t' \<and> tr_loaded t' \<and> tr_rows t' = [] \<and> tr_id_column t' = 0 \<and> tr_next_id t' = 1 \<and>
        columns_of t' = ''id'' # ins_columns stmt \<and> tr_col_count t' = Suc (length (ins_columns stmt)) \<and>
        ins_columns stmt \<noteq> [] \<and> length (ins_columns stmt) < MAX_COLUMNS \<and>
        (\<forall>c \<in> set (ins_columns stmt). \<not> utils_equals_ignore_case c ''id''))"
proof -
  let ?arr0 = "(tr_columns t)[0 := ''id'']"
  have t: "length (tr_columns t) = MAX_COLUMNS" "tr_rows t = []" "tr_next_id t = 1" "tr_root t = None"
    "index_ok h t" "bp_memory h"
    using inv by (auto simp: table_inv_def schema_ok_def index_ok_def next_id_from_def)
  show ?thesis
  proof (cases "ins_columns stmt = [] \<or> MAX_COLUMNS < length (ins_columns stmt) + 1")
    case True
    then show ?thesis using r inv by (auto simp: table_initialize_schema_def Let_def)
  next
    case False
    obtain arr r' where a: "init_schema_loop ?arr0 1 (ins_columns stmt) = (arr, r')" by fastforce
    have len: "length arr = MAX_COLUMNS" using init_schema_length [of ?arr0 1 "ins_columns stmt"] a t(1) by simp
    show ?thesis
    proof (cases r')
      case (Inl e)
      then have "t' = t\<lparr>tr_col_count := length (ins_columns stmt) + 1, tr_columns := arr\<rparr> \<and> res = Inl e"
        using r a False by (auto simp: table_initialize_schema_def Let_def)
      then show ?thesis using inv t len False by (auto simp: table_inv_def schema_ok_def index_ok_def)
    next
      case (Inr u)
      then have t': "t' = t\<lparr>tr_col_count := length (ins_columns stmt) + 1, tr_columns := arr, tr_id_column := 0,
          tr_loaded := True\<rparr>" "res = Inr ()"
        using r a False by (auto simp: table_initialize_schema_def Let_def)
      have "arr = take 1 ?arr0 @ ins_columns stmt @ drop (1 + length (ins_columns stmt)) ?arr0"
        and noid: "\<forall>c \<in> set (ins_columns stmt). \<not> utils_equals_ignore_case c ''id''"
        using init_schema_loop_done [of ?arr0 1 "ins_columns stmt" arr] a Inr False t(1) fits by auto
      moreover have "take 1 ?arr0 = [''id'']" using t(1) by (cases "tr_columns t") (auto simp: MAX_COLUMNS_def)
      ultimately have cols: "columns_of t' = ''id'' # ins_columns stmt" by (simp add: t' columns_of_def)
      then have "table_find_column_index t' ''id'' = Some 0" by (simp add: table_find_column_index_def)
      then have "table_inv h t'" using inv t len False
        by (simp add: t' table_inv_def schema_ok_def index_ok_def valid_ids_def id_map_def next_id_from_def)
      then show ?thesis using cols t' t noid False by auto
    qed
  qed
qed

lemma validate_same_columns:
  assumes inv: "table_inv h t" and v: "table_validate_insert_schema t stmt" and cols: "columns_of t = idc # cs"
  shows "same_columns cs (ins_columns stmt)"
proof -
  have n: "Suc (length (ins_columns stmt)) = tr_col_count t" "tr_col_count t \<le> length (tr_columns t)"
    using inv v by (auto simp: table_validate_insert_schema_def table_inv_def schema_ok_def)
  have "length (columns_of t) = tr_col_count t" using n by (simp add: columns_of_def)
  then have len: "length cs = length (ins_columns stmt)" using n(1) cols by simp
  have "cs ! i = tr_columns t ! Suc i" if "i < length cs" for i
  proof -
    have "columns_of t ! Suc i = tr_columns t ! Suc i" using that len n by (simp add: columns_of_def)
    then show ?thesis by (simp add: cols)
  qed
  then show ?thesis using v len
    by (auto simp: same_columns_def list_all2_conv_all_nth table_validate_insert_schema_def list_all_iff)
qed

lemma insert_frame:
  assumes "storage_insert fs name stmt = (fs', Inr ())" "storage_build_path name = Some path"
  shows "data_dir fs' = Data_directory \<and> (\<forall>p. p \<noteq> path \<longrightarrow> files fs' p = files fs p)"
  using assms
  by (auto simp: storage_insert_def storage_ensure_data_dir_def Let_def
      split: data_entry.splits option.splits sum.splits prod.splits if_splits)

lemma insert_abs_frame:
  assumes "stored_tables fs" "storage_insert fs name stmt = (fs', Inr ())" "name' \<noteq> name"
  shows "abs_db fs' name' = abs_db fs name'"
proof -
  obtain path where p: "storage_build_path name = Some path"
    using assms(2) by (cases "storage_build_path name") (auto simp: storage_insert_def split: prod.splits sum.splits)
  note f = insert_frame [OF assms(2) p]
  have "fopen_read fs' path' = fopen_read fs path'" if "storage_build_path name' = Some path'" for path'
  proof -
    have "path' \<noteq> path" using build_path_inj that p assms(3) by blast
    then show ?thesis using f assms(1) by (cases "data_dir fs") (auto simp: fopen_read_def stored_tables_def)
  qed
  then show ?thesis
    by (auto simp: abs_db_def storage_load_table_def storage_load_table_internal_def split: option.split)
qed

lemma store_row_stored:
  assumes st: "stored_tables fs" and inv: "table_inv h t" "tr_loaded t"
    and t: "tr_id_column t = 0" "tr_name t \<noteq> []" "length (tr_name t) < MAX_IDENTIFIER_LEN"
      "distinct_names (columns_of t)" "utils_equals_ignore_case (hd (columns_of t)) ''id''" "2 \<le> length (columns_of t)"
    and len: "Suc (length (ins_values stmt)) = tr_col_count t" and nxt: "tr_next_id t \<le> INT_MAX"
    and si: "storage_insert fs (tr_name t) stmt = (fs', Inr ())"
      "table_at fs' (tr_name t) (columns_of t) (tr_rows t @ [show_int (tr_next_id t) # ins_values stmt])"
  shows "\<exists>h' t'. table_store_row fs h t stmt = Some (fs', h', t', Inr (length (tr_rows t))) \<and> db_inv fs' h' t' \<and>
     same_schema t t' \<and> tr_rows t' = tr_rows t @ [show_int (tr_next_id t) # ins_values stmt]"
proof -
  obtain h' t' where run: "table_store_row fs h t stmt = Some (fs', h', t', Inr (length (tr_rows t)))" "table_inv h' t'"
    and ss: "same_schema t t'" "tr_rows t' = tr_rows t @ [show_int (tr_next_id t) # ins_values stmt]"
    using store_row_done [OF inv len t(1) nxt si(1)] by blast
  have cols: "columns_of t' = columns_of t" using ss(1) by (simp add: same_schema_def columns_of_def)
  let ?path = "''data/'' @ tr_name t @ ''.csv''"
  have p: "storage_build_path (tr_name t) = Some ?path" using build_path_ok [OF t(3)] .
  have "loadable 0 (tr_rows t')" using run(2) ss(1) t(1) by (simp add: loadable_def table_inv_def index_ok_def same_schema_def)
  then have g: "good_table (columns_of t) (tr_rows t')"
    using si(2) t ss(2) by (simp add: good_table_def table_at_def)
  have "files fs' = (files fs)(?path \<mapsto> table_text (columns_of t) (tr_rows t'))"
    using insert_frame [OF si(1) p] si(2) p ss(2) by (auto simp: table_at_def fun_eq_iff)
  then have "stored_tables fs'"
    using stored_tables_put [OF st p g] insert_frame [OF si(1) p] by blast
  then have "db_inv fs' h' t'" using run(2) ss cols si(2) t inv(2)
    by (simp add: db_inv_def coherent_def same_schema_def)
  then show ?thesis using run ss by blast
qed

lemma next_id_unloaded: "table_inv h t \<Longrightarrow> tr_id_column t = 0 \<Longrightarrow> tr_next_id t = next_id_from 0 1 (tr_rows t)"
  by (simp add: table_inv_def index_ok_def)

text \<open>What an accepted insertion did.\<close>

definition row_added :: "file_system \<Rightarrow> file_system \<Rightarrow> table_runtime \<Rightarrow> insert_statement \<Rightarrow> nat \<Rightarrow> bool" where
  "row_added fs fs' t stmt n \<longleftrightarrow> tr_loaded t \<and> utils_equals_ignore_case (tr_name t) (ins_table stmt) \<and>
     (case abs_db fs (tr_name t) of
        None \<Rightarrow> n = 0 \<and> columns_of t = ''id'' # ins_columns stmt \<and> tr_rows t = [show_int 1 # ins_values stmt]
      | Some (cols, rows) \<Rightarrow> n = length rows \<and> columns_of t = cols \<and>
          tr_rows t = rows @ [show_int (next_id_from 0 1 rows) # ins_values stmt]) \<and>
     (\<forall>name. name \<noteq> tr_name t \<longrightarrow> abs_db fs' name = abs_db fs name)"

lemma insert_loaded_stored:
  assumes db: "db_inv fs h t" "tr_loaded t" and ok: "storable stmt" "table_validate_insert_schema t stmt"
    and nm: "utils_equals_ignore_case (tr_name t) (ins_table stmt)" and nxt: "tr_next_id t \<le> INT_MAX"
  shows "\<exists>fs' h' t' n. table_store_row fs h t stmt = Some (fs', h', t', Inr n) \<and> db_inv fs' h' t' \<and>
     tr_loaded t' \<and> same_schema t t' \<and> row_added fs fs' t' stmt n"
proof -
  have d: "stored_tables fs" "table_inv h t" "table_at fs (tr_name t) (columns_of t) (tr_rows t)" "tr_id_column t = 0"
    "tr_name t \<noteq> []" "length (tr_name t) < MAX_IDENTIFIER_LEN" using db by (auto simp: db_inv_def coherent_def)
  have g: "good_table (columns_of t) (tr_rows t)" using stored_table_good [OF d(1,3)] .
  then obtain idc cs where cols: "columns_of t = idc # cs" by (cases "columns_of t") (auto simp: good_table_def)
  have idc: "utils_equals_ignore_case idc ''id''" "distinct_names (idc # cs)" "int_ids 0 (tr_rows t)"
    using g cols by (auto simp: good_table_def loadable_int_ids)
  have vals: "length (ins_values stmt) = length (ins_columns stmt)" "ins_values stmt \<noteq> []"
    "\<forall>v \<in> set (ins_values stmt). wf_value v \<and> line_safe v"
    using ok by (auto simp: storable_def table_validate_insert_schema_def list_all_iff)
  have len: "Suc (length (ins_values stmt)) = tr_col_count t"
    using ok(2) vals(1) by (simp add: table_validate_insert_schema_def)
  have nid: "tr_next_id t = next_id_from 0 1 (tr_rows t)" using next_id_unloaded [OF d(2,4)] .
  obtain fs' where si: "storage_insert fs (tr_name t) stmt = (fs', Inr ())"
    "table_at fs' (tr_name t) (columns_of t) (tr_rows t @ [show_int (tr_next_id t) # ins_values stmt])"
    using insert_into_table [OF d(3) [unfolded cols] idc(1,2) validate_same_columns [OF d(2) ok(2) cols] vals idc(3)]
    by (auto simp: nid cols)
  have hd: "utils_equals_ignore_case (hd (columns_of t)) ''id''" "distinct_names (columns_of t)" "2 \<le> length (columns_of t)"
    using g by (auto simp: good_table_def)
  obtain h' t' where run: "table_store_row fs h t stmt = Some (fs', h', t', Inr (length (tr_rows t)))" "db_inv fs' h' t'"
    "same_schema t t'" "tr_rows t' = tr_rows t @ [show_int (tr_next_id t) # ins_values stmt]"
    using store_row_stored [OF d(1,2) db(2) d(4,5,6) hd(2,1,3) len nxt si] by blast
  from run have "row_added fs fs' t' stmt (length (tr_rows t))"
    using abs_db_at [OF d(3)] nm nid db(2) insert_abs_frame [OF d(1) si(1)]
    by (simp add: row_added_def same_schema_def columns_of_def)
  moreover have "tr_loaded t'" using run(3) db(2) by (simp add: same_schema_def)
  ultimately show ?thesis using run(1-3) by blast
qed

lemma insert_fresh_stored:
  assumes db: "db_inv fs h t" "\<not> tr_loaded t" "settled fs t" "tr_name t \<noteq> []" and ok: "storable stmt"
    and nm: "utils_equals_ignore_case (tr_name t) (ins_table stmt)"
    and sch: "table_initialize_schema t stmt = (t2, Inr ())"
  shows "\<exists>fs' h' t' n. table_store_row fs h t2 stmt = Some (fs', h', t', Inr n) \<and> db_inv fs' h' t' \<and>
     tr_loaded t' \<and> same_schema t2 t' \<and> row_added fs fs' t' stmt n"
proof -
  have d: "stored_tables fs" "table_inv h t" "length (tr_name t) < MAX_IDENTIFIER_LEN" using db by (auto simp: db_inv_def)
  have fits: "list_all wf_name (ins_columns stmt)" using ok by (auto simp: storable_def list_all_iff)
  note c = initialize_schema_cases [OF d(2) db(2) fits sch]
  have nex: "\<not> storage_table_exists fs (tr_name t)" using db(2-4) by (simp add: settled_def)
  have p: "storage_build_path (tr_name t) = Some (''data/'' @ tr_name t @ ''.csv'')" using build_path_ok [OF d(3)] .
  have dir: "data_dir fs \<noteq> Data_other" "files fs (''data/'' @ tr_name t @ ''.csv'') = None"
    using d(1) nex p by (cases "data_dir fs"; auto simp: stored_tables_def storage_table_exists_def fopen_read_def)+
  obtain fs' where si: "storage_insert fs (tr_name t) stmt = (fs', Inr ())"
    "table_at fs' (tr_name t) (''id'' # ins_columns stmt) [''1'' # ins_values stmt]"
    using insert_creates_table [OF dir(1) p, of stmt] dir(2) c ok by (auto simp: storable_def list_all_iff)
  have one: "''1'' = show_int 1" by code_simp
  have idn: "distinct_names (''id'' # ins_columns stmt)"
    using c ok by (auto simp: distinct_names_def storable_def equals_ignore_case_iff)
  obtain h' t' where run: "table_store_row fs h t2 stmt = Some (fs', h', t', Inr (length (tr_rows t2)))" "db_inv fs' h' t'"
    "same_schema t2 t'" "tr_rows t' = tr_rows t2 @ [show_int (tr_next_id t2) # ins_values stmt]"
    using store_row_stored [of fs h t2 stmt fs'] c d db(4) idn si ok
    by (force simp: storable_def one INT_MAX_def equals_ignore_case_iff Suc_le_eq)
  from run have "row_added fs fs' t' stmt (length (tr_rows t2))"
    using abs_db_none [OF nex] c nm insert_abs_frame [OF d(1) si(1)]
    by (auto simp: row_added_def same_schema_def columns_of_def)
  moreover have "tr_loaded t'" using run(3) c by (simp add: same_schema_def)
  ultimately show ?thesis using run(1-3) by blast
qed

lemma store_row_out_of_ids: "INT_MAX < tr_next_id t \<Longrightarrow>
  table_store_row fs h t stmt = Some (fs, h, table_reserve_if_needed t, Inl Id_out_of_range)"
  by (simp add: table_store_row_def Let_def)

lemma db_inv_reserve: "db_inv fs h t \<Longrightarrow> db_inv fs h (table_reserve_if_needed t)"
  using reserve_capacity [of t]
  by (auto simp: db_inv_def table_inv_def schema_ok_def index_ok_def coherent_def columns_of_def)

lemma insert_row_stored:
  assumes db: "db_inv fs h t" and ok: "storable stmt" and st: "settled fs t \<or> tr_name t = ins_table stmt"
    and nm: "tr_name t = [] \<or> utils_equals_ignore_case (tr_name t) (ins_table stmt)"
  shows "\<exists>fs' h' t' res. table_insert_row fs h t stmt = Some (fs', h', t', res) \<and> db_inv fs' h' t' \<and> settled fs' t' \<and>
     (case res of Inl e \<Rightarrow> fs' = fs | Inr n \<Rightarrow> row_added fs fs' t' stmt n)"
proof -
  let ?name = "ins_table stmt"
  have name: "?name \<noteq> []" "length ?name < MAX_IDENTIFIER_LEN" and fits: "list_all wf_name (ins_columns stmt)"
    using ok by (auto simp: storable_def wf_name_def list_all_iff)
  let ?t0 = "if tr_name t = [] then t\<lparr>tr_name := ?name\<rparr> else t"
  have t0: "(if tr_name t = [] then table_set_active_name t ?name else (t, SUCCESS)) = (?t0, SUCCESS)"
    using name(2) by (auto simp: table_set_active_name_def strcpy_fits)
  have db0: "db_inv fs h ?t0" using db name inv_rename by (auto simp: db_inv_def coherent_def)
  have nm0: "utils_equals_ignore_case (tr_name ?t0) ?name" using nm by (auto simp: equals_ignore_case_iff)
  have ne0: "tr_name ?t0 \<noteq> []" using name by simp
  have st0: "settled fs ?t0 \<or> tr_name ?t0 = ?name" using st by auto
  obtain h1 t1 where l: "table_load_from_storage_if_needed fs h ?t0 ?name = Some (h1, t1, Inr ())" "db_inv fs h1 t1"
    "settled fs t1" "utils_equals_ignore_case (tr_name t1) ?name"
    using load_stored [OF db0 name _ st0] nm0 by auto
  have ne1: "tr_name t1 \<noteq> []" using l(4) name(1) by (auto simp: equals_ignore_case_iff)
  have run: "table_insert_row fs h t stmt =
      (case (if tr_loaded t1 then (t1, if table_validate_insert_schema t1 stmt then Inr () else Inl Schema_mismatch)
             else table_initialize_schema t1 stmt) of
         (t2, Inl e) \<Rightarrow> Some (fs, h1, t2, Inl e) | (t2, Inr _) \<Rightarrow> table_store_row fs h1 t2 stmt)"
    unfolding table_insert_row_def Let_def t0 using nm0 l(1) by simp
  show ?thesis
  proof (cases "tr_loaded t1")
    case True
    have "\<exists>fs' h' t' n. table_store_row fs h1 t1 stmt = Some (fs', h', t', Inr n) \<and> db_inv fs' h' t' \<and> tr_loaded t' \<and>
        row_added fs fs' t' stmt n" if "table_validate_insert_schema t1 stmt" "tr_next_id t1 \<le> INT_MAX"
      using insert_loaded_stored [OF l(2) True ok that(1) l(4) that(2)] by blast
    then show ?thesis using True run l store_row_out_of_ids [of t1 fs h1 stmt] db_inv_reserve [OF l(2)]
      by (cases "table_validate_insert_schema t1 stmt"; cases "tr_next_id t1 \<le> INT_MAX") (auto simp: settled_def)
  next
    case False
    obtain t2 res where s: "table_initialize_schema t1 stmt = (t2, res)" by fastforce
    have inv1: "table_inv h1 t1" using l(2) by (simp add: db_inv_def)
    note c = initialize_schema_cases [OF inv1 False fits s]
    show ?thesis
    proof (cases res)
      case (Inl e)
      then have "db_inv fs h1 t2 \<and> settled fs t2" using c l(2,3) False by (auto simp: db_inv_def coherent_def settled_def)
      then show ?thesis using run False s Inl by auto
    next
      case (Inr u)
      then obtain fs' h' t' n where "table_store_row fs h1 t2 stmt = Some (fs', h', t', Inr n)" "db_inv fs' h' t'" "tr_loaded t'"
        "row_added fs fs' t' stmt n" using insert_fresh_stored [OF l(2) False l(3) ne1 ok l(4)] s by force
      then show ?thesis using run False s Inr by (auto simp: settled_def)
    qed
  qed
qed

section \<open>Properties\<close>

definition empty_fs :: file_system where
  "empty_fs = \<lparr>data_dir = Data_directory, files = Map.empty\<rparr>"

definition sample_insert :: insert_statement where
  "sample_insert = \<lparr>ins_table = ''t'', ins_columns = [''a''], ins_values = [''x'']\<rparr>"

lemma stored_empty: "stored_tables empty_fs"
  by (simp add: stored_tables_def empty_fs_def)

lemma sample_storable: "storable sample_insert"
  by code_simp

lemma init_db_inv: "db_inv empty_fs (empty_heap (\<lambda>i. True)) table_init"
proof -
  have "table_inv (empty_heap (\<lambda>i. True)) (table_init\<lparr>tr_name := tr_name table_init\<rparr>)"
    by (rule init_inv) (simp_all add: empty_heap_def bp_memory_def)
  then show ?thesis using stored_empty by (simp add: db_inv_def coherent_def table_init_def MAX_IDENTIFIER_LEN_def)
qed

text \<open>
  C6: on a data directory written by the program, an INSERT into the active table keeps memory,
  index and file in step: afterwards the table in memory, if loaded, is the one in its file, the
  index maps each id to its row, and a refused insertion leaves the files alone, while an accepted
  one adds one row with the next id behind the stored rows and changes no other table.
\<close>

theorem insert_keeps_memory_and_file:
  assumes "db_inv fs h t" "storable stmt" "settled fs t \<or> tr_name t = ins_table stmt"
    "tr_name t = [] \<or> utils_equals_ignore_case (tr_name t) (ins_table stmt)"
  shows "\<exists>fs' h' t' res. table_insert_row fs h t stmt = Some (fs', h', t', res) \<and> db_inv fs' h' t' \<and> settled fs' t' \<and>
     (case res of Inl e \<Rightarrow> fs' = fs | Inr n \<Rightarrow> row_added fs fs' t' stmt n)"
  by (rule insert_row_stored [OF assms])

theorem insert_keeps_memory_and_file_witness:
  "\<exists>fs' h' t' res. table_insert_row empty_fs (empty_heap (\<lambda>i. True)) table_init sample_insert = Some (fs', h', t', res) \<and>
     db_inv fs' h' t' \<and> settled fs' t' \<and>
     (case res of Inl e \<Rightarrow> fs' = empty_fs | Inr n \<Rightarrow> row_added empty_fs fs' t' sample_insert n)"
  by (rule insert_keeps_memory_and_file [OF init_db_inv sample_storable]) (simp_all add: settled_def table_init_def)

text \<open>
  C15: loading a table from whatever its file contains is always defined and ends in a table that
  satisfies the invariant: either loaded with exactly the columns and rows of the file, with an
  index entry for every row, or empty and not loaded.
\<close>

theorem load_any_file:
  assumes "table_inv h t" "\<not> tr_loaded t"
  shows "\<exists>h' t' res. table_load_from_storage_if_needed fs h t name = Some (h', t', res) \<and> table_inv h' t' \<and>
     (if tr_loaded t' then \<exists>ld. storage_load_table fs name = Inr ld \<and> columns_of t' = td_columns ld \<and> tr_rows t' = td_rows ld
      else tr_rows t' = [] \<and> tr_root t' = None)"
proof -
  obtain h' t' res where l: "table_load_from_storage_if_needed fs h t name = Some (h', t', res)" "table_inv h' t'"
    using load_table_ok [OF assms(1)] by blast
  then show ?thesis using load_result [OF assms l(1)] by (auto simp: table_inv_def)
qed

theorem load_any_file_witness:
  "\<exists>h' t' res. table_load_from_storage_if_needed (sample_fs ''junk'') (empty_heap (\<lambda>i. True)) table_init ''t'' = Some (h', t', res) \<and>
     table_inv h' t' \<and>
     (if tr_loaded t' then \<exists>ld. storage_load_table (sample_fs ''junk'') ''t'' = Inr ld \<and> columns_of t' = td_columns ld \<and> tr_rows t' = td_rows ld
      else tr_rows t' = [] \<and> tr_root t' = None)"
  using load_any_file [of "empty_heap (\<lambda>i. True)" table_init "sample_fs ''junk''" "''t''"] init_db_inv
  by (simp add: db_inv_def table_init_def)

end
