(* ===== verification/Executor.thy ===== *)
theory Executor
  imports Runtime_Insert
begin

text \<open>
  The statement executor: \<^verbatim>\<open>src/db/executor.c\<close> with the result structure of
  \<^verbatim>\<open>src/db/executor_result.c\<close>.  The operations on the active table return \<open>None\<close> only where
  the code below has no defined result (an index outside an array, a lost B+ tree node).
  The column names and rows of a result are the used parts of the arrays; their memory is
  plain data.  Messages on the standard error stream are not part of the model.
\<close>

section \<open>Results\<close>

definition MAX_DB_RESULT_MESSAGE_LEN :: nat where "MAX_DB_RESULT_MESSAGE_LEN = 512"

datatype db_result_type =
  DB_RESULT_NONE | DB_RESULT_INSERT | DB_RESULT_SELECT | DB_RESULT_DELETE | DB_RESULT_ERROR

record db_result =
  res_type :: db_result_type
  res_success :: bool
  res_columns :: "string list"
  res_rows :: "string list list"
  res_rows_affected :: nat
  res_used_id_index :: bool
  res_message :: string

definition db_result_init :: db_result where
  "db_result_init = \<lparr>res_type = DB_RESULT_NONE, res_success = False, res_columns = [], res_rows = [],
     res_rows_affected = 0, res_used_id_index = False, res_message = []\<rparr>"

definition db_result_free :: "db_result \<Rightarrow> db_result" where
  "db_result_free r = db_result_init"

text \<open>\<^verbatim>\<open>snprintf\<close> into the message buffer cuts what does not fit.\<close>

definition db_result_set_message :: "db_result \<Rightarrow> string \<Rightarrow> db_result \<times> status" where
  "db_result_set_message r message =
     (r\<lparr>res_message := take (MAX_DB_RESULT_MESSAGE_LEN - 1) message\<rparr>, SUCCESS)"

definition db_result_set_error :: "db_result \<Rightarrow> string \<Rightarrow> db_result \<times> status" where
  "db_result_set_error r message =
     (fst (db_result_set_message (r\<lparr>res_rows := [], res_columns := [], res_rows_affected := 0,
        res_used_id_index := False, res_type := DB_RESULT_ERROR, res_success := False\<rparr>) message), FAILURE)"

section \<open>Projection\<close>

definition executor_find_column_index :: "string list \<Rightarrow> string \<Rightarrow> nat option" where
  "executor_find_column_index columns target = find_index_loop 0 columns target"

text \<open>Copying names into the header array; \<open>None\<close> if one does not fit.\<close>

fun copy_headers :: "string list \<Rightarrow> string list option" where
  "copy_headers [] = Some []"
| "copy_headers (c # cs) =
     (case utils_safe_strcpy [] MAX_IDENTIFIER_LEN c of
        (v, SUCCESS) \<Rightarrow> map_option (Cons v) (copy_headers cs)
      | (v, FAILURE) \<Rightarrow> None)"

fun find_columns :: "string list \<Rightarrow> string list \<Rightarrow> nat list option" where
  "find_columns columns [] = Some []"
| "find_columns columns (c # cs) =
     (case executor_find_column_index columns c of
        None \<Rightarrow> None
      | Some i \<Rightarrow> map_option (Cons i) (find_columns columns cs))"

definition executor_prepare_projection ::
  "select_statement \<Rightarrow> table_runtime \<Rightarrow> (nat list \<times> string list) option" where
  "executor_prepare_projection stmt t =
     (case (if sel_columns stmt = [] then Some [0..<tr_col_count t] else find_columns (columns_of t) (sel_columns stmt)) of
        None \<Rightarrow> None
      | Some indices \<Rightarrow>
          (case copy_headers (map ((!) (tr_columns t)) indices) of
             None \<Rightarrow> None
           | Some headers \<Rightarrow> Some (indices, headers)))"

text \<open>One result row; \<open>None\<close> is a read outside the source row.\<close>

fun executor_copy_projected_row :: "string list \<Rightarrow> nat list \<Rightarrow> string list option" where
  "executor_copy_projected_row row [] = Some []"
| "executor_copy_projected_row row (i # is) = do {
     v \<leftarrow> aget row i;
     vs \<leftarrow> executor_copy_projected_row row is;
     Some (v # vs)
   }"

text \<open>The outer option is undefined behaviour, the inner one \<^verbatim>\<open>FAILURE\<close>.\<close>

fun executor_collect_rows_by_indices ::
  "table_runtime \<Rightarrow> nat list \<Rightarrow> int list \<Rightarrow> string list list option option" where
  "executor_collect_rows_by_indices t selected [] = Some (Some [])"
| "executor_collect_rows_by_indices t selected (r # rs) =
     (case table_get_row_by_slot t r of
        None \<Rightarrow> Some None
      | Some row \<Rightarrow> do {
          v \<leftarrow> executor_copy_projected_row row selected;
          rest \<leftarrow> executor_collect_rows_by_indices t selected rs;
          Some (map_option (Cons v) rest)
        })"

definition executor_collect_all_rows :: "table_runtime \<Rightarrow> nat list \<Rightarrow> string list list option option" where
  "executor_collect_all_rows t selected =
     (case table_linear_scan_by_field t None of
        Inl e \<Rightarrow> Some None
      | Inr rows \<Rightarrow> executor_collect_rows_by_indices t selected (map int rows))"

definition executor_can_use_id_index :: "table_runtime \<Rightarrow> where_clause \<Rightarrow> int option" where
  "executor_can_use_id_index t w =
     (if \<not> tr_loaded t \<or> tr_root t = None then None
      else if strcmp (wh_op w) ''='' \<noteq> 0 \<or> \<not> utils_is_integer (wh_value w) then None
      else if \<not> utils_equals_ignore_case (tr_columns t ! tr_id_column t) (wh_column w) then None
      else let parsed_key = utils_parse_integer (wh_value w) in
        if parsed_key < 0 \<or> INT_MAX < parsed_key then None else Some parsed_key)"

definition executor_collect_rows_by_id ::
  "bp_heap \<Rightarrow> table_runtime \<Rightarrow> int \<Rightarrow> nat list \<Rightarrow> string list list option option" where
  "executor_collect_rows_by_id h t search_key selected = do {
     found \<leftarrow> bptree_search h (tr_root t) search_key;
     case found of
       None \<Rightarrow> Some (Some [])
     | Some row_index \<Rightarrow> executor_collect_rows_by_indices t selected [row_index]
   }"

definition executor_collect_rows_by_scan ::
  "table_runtime \<Rightarrow> where_clause \<Rightarrow> nat list \<Rightarrow> string list list option option" where
  "executor_collect_rows_by_scan t w selected =
     (case table_linear_scan_by_field t (Some w) of
        Inl e \<Rightarrow> Some None
      | Inr rows \<Rightarrow> executor_collect_rows_by_indices t selected (map int rows))"

section \<open>Statements\<close>

definition executor_copy_headers_to_result :: "db_result \<Rightarrow> string list \<Rightarrow> db_result \<times> status" where
  "executor_copy_headers_to_result r headers =
     (if MAX_COLUMNS < length headers then (r, FAILURE)
      else case copy_headers headers of
        None \<Rightarrow> (r, FAILURE)
      | Some hs \<Rightarrow> (r\<lparr>res_columns := hs\<rparr>, SUCCESS))"

definition executor_finish_insert :: "db_result \<Rightarrow> string \<Rightarrow> db_result \<times> status" where
  "executor_finish_insert r table_name =
     db_result_set_message (r\<lparr>res_type := DB_RESULT_INSERT, res_success := True, res_rows_affected := 1,
        res_used_id_index := False\<rparr>) (''1 row inserted into '' @ table_name @ ''.'')"

definition executor_finish_select ::
  "db_result \<Rightarrow> string list \<Rightarrow> string list list \<Rightarrow> bool \<Rightarrow> db_result \<times> status" where
  "executor_finish_select r headers rows used_id_index =
     (case executor_copy_headers_to_result r headers of
        (r', FAILURE) \<Rightarrow> db_result_set_error r' ''Failed to prepare SELECT headers.''
      | (r', SUCCESS) \<Rightarrow>
          db_result_set_message (r'\<lparr>res_type := DB_RESULT_SELECT, res_success := True, res_rows := rows,
             res_rows_affected := length rows, res_used_id_index := used_id_index\<rparr>)
            (show_int (int (length rows)) @ '' row'' @ (if length rows = 1 then [] else ''s'') @ '' selected.''))"

definition executor_execute_insert ::
  "file_system \<Rightarrow> runtime_state \<Rightarrow> insert_statement \<Rightarrow> db_result \<Rightarrow>
   (file_system \<times> runtime_state \<times> db_result \<times> status) option" where
  "executor_execute_insert fs rt stmt r = do {
     (rt1, st) \<leftarrow> table_get_or_load rt (ins_table stmt);
     if st = FAILURE then Some (fs, rt1, db_result_set_error r ''Failed to prepare runtime table.'')
     else do {
       (h2, t2, res) \<leftarrow> table_load_from_storage_if_needed fs (rt_heap rt1) (rt_active rt1) (ins_table stmt);
       let rt2 = rt1\<lparr>rt_heap := h2, rt_active := t2\<rparr>;
       case res of
         Inl e \<Rightarrow> Some (fs, rt2, db_result_set_error r ''Failed to load table from storage.'')
       | Inr _ \<Rightarrow> do {
           (fs', h3, t3, inserted) \<leftarrow> table_insert_row fs h2 t2 stmt;
           let rt3 = rt2\<lparr>rt_heap := h3, rt_active := t3\<rparr>;
           Some (fs', rt3, case inserted of
             Inl e \<Rightarrow> db_result_set_error r (''Failed to insert row into '' @ ins_table stmt @ ''.'')
           | Inr row_index \<Rightarrow> executor_finish_insert r (ins_table stmt))
         }
     }
   }"

text \<open>The part of \<^verbatim>\<open>executor_execute_select\<close> behind the loading of the table: it only reads.\<close>

definition select_loaded ::
  "bp_heap \<Rightarrow> table_runtime \<Rightarrow> select_statement \<Rightarrow> db_result \<Rightarrow> (db_result \<times> status) option" where
  "select_loaded h t stmt r =
     (if \<not> tr_loaded t
      then Some (db_result_set_error r (''Table '' @ [QUOTE] @ sel_table stmt @ [QUOTE] @ '' not found in runtime.''))
      else case executor_prepare_projection stmt t of
        None \<Rightarrow> Some (db_result_set_error r ''Failed to prepare SELECT projection.'')
      | Some (selected, headers) \<Rightarrow> do {
          (collected, used_id_index) \<leftarrow>
            (case sel_where stmt of
               None \<Rightarrow> map_option (\<lambda>c. (c, False)) (executor_collect_all_rows t selected)
             | Some w \<Rightarrow>
                 (case executor_can_use_id_index t w of
                    Some search_key \<Rightarrow>
                      map_option (\<lambda>c. (c, True)) (executor_collect_rows_by_id h t search_key selected)
                  | None \<Rightarrow> map_option (\<lambda>c. (c, False)) (executor_collect_rows_by_scan t w selected)));
          Some (case collected of
            None \<Rightarrow> db_result_set_error r ''Failed to collect SELECT rows.''
          | Some rows \<Rightarrow> executor_finish_select r headers rows used_id_index)
        })"

definition executor_execute_select ::
  "file_system \<Rightarrow> runtime_state \<Rightarrow> select_statement \<Rightarrow> db_result \<Rightarrow>
   (runtime_state \<times> db_result \<times> status) option" where
  "executor_execute_select fs rt stmt r = do {
     (rt1, st) \<leftarrow> table_get_or_load rt (sel_table stmt);
     if st = FAILURE then Some (rt1, db_result_set_error r ''Failed to prepare runtime table.'')
     else do {
       (h2, t2, res) \<leftarrow> table_load_from_storage_if_needed fs (rt_heap rt1) (rt_active rt1) (sel_table stmt);
       let rt2 = rt1\<lparr>rt_heap := h2, rt_active := t2\<rparr>;
       case res of
         Inl e \<Rightarrow> Some (rt2, db_result_set_error r ''Failed to load table from storage.'')
       | Inr _ \<Rightarrow> do {
           out \<leftarrow> select_loaded h2 t2 stmt r;
           Some (rt2, out)
         }
     }
   }"

definition executor_execute_delete :: "delete_statement \<Rightarrow> db_result \<Rightarrow> db_result \<times> status" where
  "executor_execute_delete stmt r = db_result_set_error r ''DELETE is not supported in memory runtime mode.''"

fun executor_execute_into_result ::
  "file_system \<Rightarrow> runtime_state \<Rightarrow> sql_statement \<Rightarrow> db_result \<Rightarrow>
   (file_system \<times> runtime_state \<times> db_result \<times> status) option" where
  "executor_execute_into_result fs rt (SQL_INSERT s) r = executor_execute_insert fs rt s r"
| "executor_execute_into_result fs rt (SQL_SELECT s) r =
     map_option (\<lambda>(rt', out). (fs, rt', out)) (executor_execute_select fs rt s r)"
| "executor_execute_into_result fs rt (SQL_DELETE s) r = Some (fs, rt, executor_execute_delete s r)"

end
