(* ===== verification/Executor_Correct.thy ===== *)
theory Executor_Correct
  imports Executor
begin

text \<open>
  Correctness of the executor: a lookup through the id index returns what the linear scan
  returns, SELECT computes the filtered and projected rows of the table, a SELECT on the
  loaded table changes no state, and every statement keeps the invariants of the runtime.
\<close>

section \<open>Scanning\<close>

definition row_matches :: "string list \<Rightarrow> where_clause option \<Rightarrow> string list \<Rightarrow> bool" where
  "row_matches cols wh row = (case wh of None \<Rightarrow> True
     | Some w \<Rightarrow> (case find_index_loop 0 cols (wh_column w) of None \<Rightarrow> False
         | Some c \<Rightarrow> table_where_matches (utils_compare_values (row ! c) (wh_value w)) (wh_op w)))"

lemma scan_loop_filter:
  "scan_loop i rows col w = filter (\<lambda>j. table_where_matches (utils_compare_values (rows ! (j - i) ! col) (wh_value w)) (wh_op w))
     [i..<i + length rows]"
proof (induction rows arbitrary: i)
  case (Cons r rows)
  have "[i..<i + length (r # rows)] = i # [Suc i..<Suc i + length rows]"
    using upt_conv_Cons [of i "i + length (r # rows)"] by simp
  moreover have "filter (\<lambda>j. table_where_matches (utils_compare_values ((r # rows) ! (j - i) ! col) (wh_value w)) (wh_op w))
      [Suc i..<Suc i + length rows] =
    filter (\<lambda>j. table_where_matches (utils_compare_values (rows ! (j - Suc i) ! col) (wh_value w)) (wh_op w))
      [Suc i..<Suc i + length rows]"
    by (rule filter_cong) (auto simp: nth_Cons' diff_Suc split: nat.splits)
  ultimately show ?case using Cons.IH [of "Suc i"] by simp
qed simp

lemma linear_scan_eq:
  assumes "tr_loaded t" "tr_rows t = [] \<or> (\<forall>w. wh = Some w \<longrightarrow> table_find_column_index t (wh_column w) \<noteq> None)"
  shows "table_linear_scan_by_field t wh =
     Inr (filter (\<lambda>i. row_matches (columns_of t) wh (tr_rows t ! i)) [0..<length (tr_rows t)])"
  using assms
  by (auto simp: table_linear_scan_by_field_def row_matches_def scan_loop_filter table_find_column_index_def
      split: option.splits)

section \<open>Projection\<close>

definition project :: "nat list \<Rightarrow> string list \<Rightarrow> string list" where
  "project sel row = map ((!) row) sel"

lemma copy_projected: "\<forall>i \<in> set sel. i < length row \<Longrightarrow> executor_copy_projected_row row sel = Some (project sel row)"
  by (induction sel) (auto simp: project_def aget_def)

lemma collect_indices:
  assumes "\<forall>r \<in> set (tr_rows t). length r = tr_col_count t" "\<forall>i \<in> set sel. i < tr_col_count t"
  shows "\<forall>i \<in> set is. i < length (tr_rows t) \<Longrightarrow>
     executor_collect_rows_by_indices t sel (map int is) = Some (Some (map (\<lambda>i. project sel (tr_rows t ! i)) is))"
proof (induction "is")
  case (Cons i "is")
  then have "executor_copy_projected_row (tr_rows t ! i) sel = Some (project sel (tr_rows t ! i))"
    using assms by (intro copy_projected) auto
  then show ?case using Cons by (simp add: table_get_row_by_slot_def)
qed simp

lemma map_filter_nth:
  "map (\<lambda>i. f (xs ! i)) (filter (\<lambda>i. P (xs ! i)) [0..<length xs]) = map f (filter P xs)"
proof (induction xs rule: rev_induct)
  case (snoc x xs)
  have "filter (\<lambda>i. P ((xs @ [x]) ! i)) [0..<length xs] = filter (\<lambda>i. P (xs ! i)) [0..<length xs]"
    by (rule filter_cong) (auto simp: nth_append)
  moreover have "map (\<lambda>i. f ((xs @ [x]) ! i)) (filter (\<lambda>i. P (xs ! i)) [0..<length xs]) =
      map (\<lambda>i. f (xs ! i)) (filter (\<lambda>i. P (xs ! i)) [0..<length xs])"
    by (rule map_cong) (auto simp: nth_append)
  ultimately show ?case using snoc by simp
qed simp

lemma find_columns_bound:
  "find_columns cols cs = Some is \<Longrightarrow> \<forall>i \<in> set is. i < length cols"
proof (induction cs arbitrary: "is")
  case (Cons c cs)
  then obtain i js where "find_index_loop 0 cols c = Some i" "find_columns cols cs = Some js" "is = i # js"
    by (auto simp: executor_find_column_index_def split: option.splits)
  then show ?case using Cons.IH find_column_Some [of cols c i] by (auto simp: storage_find_column_index_def)
qed simp

lemma columns_of_length: "schema_ok t \<Longrightarrow> length (columns_of t) = tr_col_count t"
  by (simp add: schema_ok_def columns_of_def)

lemma copy_headers_eq: "copy_headers cs = Some hs \<Longrightarrow> hs = cs \<and> (\<forall>c \<in> set cs. length c < MAX_IDENTIFIER_LEN)"
  by (induction cs arbitrary: hs)
    (auto simp: utils_safe_strcpy_def split: if_splits option.splits)

lemma copy_headers_fits: "\<forall>c \<in> set cs. length c < MAX_IDENTIFIER_LEN \<Longrightarrow> copy_headers cs = Some cs"
  by (induction cs) (auto simp: utils_safe_strcpy_def)

lemma projection_bound:
  assumes "executor_prepare_projection stmt t = Some (sel, hs)" "schema_ok t"
  shows "\<forall>i \<in> set sel. i < tr_col_count t" "hs = map ((!) (tr_columns t)) sel"
    "\<forall>c \<in> set hs. length c < MAX_IDENTIFIER_LEN" "length sel = (if sel_columns stmt = [] then tr_col_count t else length (sel_columns stmt))"
proof -
  have len: "find_columns cols cs = Some is \<Longrightarrow> length is = length cs" for cols cs "is"
    by (induction cs arbitrary: "is") (auto split: option.splits)
  show "\<forall>i \<in> set sel. i < tr_col_count t"
    using assms find_columns_bound [of "columns_of t" "sel_columns stmt" sel] columns_of_length [OF assms(2)]
    by (auto simp: executor_prepare_projection_def split: option.splits if_splits)
  show "hs = map ((!) (tr_columns t)) sel" "\<forall>c \<in> set hs. length c < MAX_IDENTIFIER_LEN"
    using assms(1) copy_headers_eq by (auto simp: executor_prepare_projection_def split: option.splits)
  show "length sel = (if sel_columns stmt = [] then tr_col_count t else length (sel_columns stmt))"
    using assms(1) len by (auto simp: executor_prepare_projection_def split: option.splits if_splits)
qed

section \<open>The id index against the scan\<close>

lemma compare_integers:
  "utils_is_integer a \<Longrightarrow> utils_is_integer b \<Longrightarrow> utils_compare_values a b = 0 \<longleftrightarrow> utils_parse_integer a = utils_parse_integer b"
  by (auto simp: utils_compare_values_def Let_def)

lemma first_column_id:
  assumes "table_find_column_index t ''id'' = Some c" "utils_equals_ignore_case (tr_columns t ! c) name" "schema_ok t"
  shows "table_find_column_index t name = Some c"
proof -
  have c: "c < length (columns_of t)" "utils_equals_ignore_case (columns_of t ! c) ''id''"
    using find_column_Some [of "columns_of t" "''id''" c] assms(1)
    by (auto simp: table_find_column_index_def storage_find_column_index_def)
  have nth: "columns_of t ! c = tr_columns t ! c" using c by (simp add: columns_of_def)
  have "map to_upper name = map to_upper ''id''"
    using c(2) assms(2) unfolding nth by (simp add: equals_ignore_case_iff)
  then have same: "utils_equals_ignore_case x name \<longleftrightarrow> utils_equals_ignore_case x ''id''" for x
    by (simp add: equals_ignore_case_iff)
  have "find_index_loop i cs name = find_index_loop i cs ''id''" for i cs
    by (induction i cs "''id''::string" rule: find_index_loop.induct) (auto simp: same)
  then show ?thesis using assms(1) by (simp add: table_find_column_index_def)
qed

lemma filter_unique:
  assumes "\<And>i. i < n \<Longrightarrow> P i \<longleftrightarrow> i = k" "k < n"
  shows "filter P [0..<n] = [k]"
proof -
  have "filter P [0..<n] = filter (\<lambda>i. i = k) [0..<n]" using assms(1) by (intro filter_cong) auto
  also have "\<dots> = [k]" using assms(2) by (induction n) (auto simp: filter_empty_conv)
  finally show ?thesis .
qed

text \<open>An equality on the id column selects by the numeric id.\<close>

lemma row_matches_id:
  assumes t: "table_find_column_index t ''id'' = Some c" "schema_ok t" "valid_ids c (tr_rows t)"
    and w: "utils_equals_ignore_case (tr_columns t ! c) (wh_column w)" "wh_op w = ''=''" "utils_is_integer (wh_value w)"
    and r: "row \<in> set (tr_rows t)"
  shows "row_matches (columns_of t) (Some w) row \<longleftrightarrow> row_id c row = utils_parse_integer (wh_value w)"
  using first_column_id [OF t(1) w(1) t(2)] w r t(3) compare_integers [of "row ! c" "wh_value w"]
  by (simp add: row_matches_def table_find_column_index_def table_where_matches_def strcmp_zero row_id_def valid_ids_def)

lemma index_eq_scan:
  assumes inv: "table_inv h t" and use_ix: "executor_can_use_id_index t w = Some k"
  shows "executor_collect_rows_by_id h t k sel = executor_collect_rows_by_scan t w sel"
proof -
  let ?c = "tr_id_column t" and ?rows = "tr_rows t"
  have w: "tr_loaded t" "wh_op w = ''=''" "utils_is_integer (wh_value w)" "k = utils_parse_integer (wh_value w)"
    "utils_equals_ignore_case (tr_columns t ! ?c) (wh_column w)"
    using use_ix by (auto simp: executor_can_use_id_index_def Let_def strcmp_zero split: if_splits)
  have ix: "bp_owns h (tr_root t) (id_map ?c ?rows)" "valid_ids ?c ?rows" "distinct (map (row_id ?c) ?rows)"
    "schema_ok t" "table_find_column_index t ''id'' = Some ?c"
    using inv w(1) by (auto simp: table_inv_def index_ok_def)
  have col: "table_find_column_index t (wh_column w) = Some ?c" using first_column_id [OF ix(5) w(5) ix(4)] .
  have m: "row_matches (columns_of t) (Some w) (?rows ! i) \<longleftrightarrow> row_id ?c (?rows ! i) = k" if "i < length ?rows" for i
    using row_matches_id [OF ix(5,4,2) w(5,2,3)] w(4) that by simp
  have scan: "table_linear_scan_by_field t (Some w) =
      Inr (filter (\<lambda>i. row_matches (columns_of t) (Some w) (?rows ! i)) [0..<length ?rows])"
    using linear_scan_eq [OF w(1), of "Some w"] col by simp
  show ?thesis
  proof (cases "id_map ?c ?rows k")
    case None
    then have "filter (\<lambda>i. row_matches (columns_of t) (Some w) (?rows ! i)) [0..<length ?rows] = []"
      using m by (auto simp: id_map_None filter_empty_conv)
    then show ?thesis using owns_search [OF ix(1)] None scan
      by (simp add: executor_collect_rows_by_id_def executor_collect_rows_by_scan_def)
  next
    case (Some v)
    then obtain j where j: "j < length ?rows" "v = int j" "row_id ?c (?rows ! j) = k"
      using id_map_Some [OF ix(3)] by auto
    have "filter (\<lambda>i. row_matches (columns_of t) (Some w) (?rows ! i)) [0..<length ?rows] = [j]"
    proof (rule filter_unique [OF _ j(1)])
      fix i assume i: "i < length ?rows"
      have "row_id ?c (?rows ! i) = row_id ?c (?rows ! j) \<longleftrightarrow> i = j"
        using nth_eq_iff_index_eq [OF ix(3), of i j] i j(1) by simp
      then show "row_matches (columns_of t) (Some w) (?rows ! i) \<longleftrightarrow> i = j" using m [OF i] j(3) by simp
    qed
    then show ?thesis using owns_search [OF ix(1)] Some scan j(2)
      by (simp add: executor_collect_rows_by_id_def executor_collect_rows_by_scan_def)
  qed
qed

section \<open>SELECT\<close>

definition select_message :: "nat \<Rightarrow> string" where
  "select_message n = take (MAX_DB_RESULT_MESSAGE_LEN - 1)
     (show_int (int n) @ '' row'' @ (if n = 1 then [] else ''s'') @ '' selected.'')"

lemma finish_select_ok:
  assumes "\<forall>c \<in> set hs. length c < MAX_IDENTIFIER_LEN" "length hs \<le> MAX_COLUMNS"
  shows "executor_finish_select r hs rows used = (r\<lparr>res_type := DB_RESULT_SELECT, res_success := True,
     res_columns := hs, res_rows := rows, res_rows_affected := length rows, res_used_id_index := used,
     res_message := select_message (length rows)\<rparr>, SUCCESS)"
  using assms copy_headers_fits [OF assms(1)]
  by (simp add: executor_finish_select_def executor_copy_headers_to_result_def db_result_set_message_def select_message_def)

lemma collect_by_scan_ok:
  assumes widths: "\<forall>r \<in> set (tr_rows t). length r = tr_col_count t" "\<forall>i \<in> set sel. i < tr_col_count t"
    and t: "tr_loaded t" "tr_rows t = [] \<or> table_find_column_index t (wh_column w) \<noteq> None"
  shows "executor_collect_rows_by_scan t w sel =
     Some (Some (map (project sel) (filter (row_matches (columns_of t) (Some w)) (tr_rows t))))"
proof -
  let ?is = "filter (\<lambda>i. row_matches (columns_of t) (Some w) (tr_rows t ! i)) [0..<length (tr_rows t)]"
  have "executor_collect_rows_by_indices t sel (map int ?is) = Some (Some (map (\<lambda>i. project sel (tr_rows t ! i)) ?is))"
    by (rule collect_indices [OF widths]) auto
  also have "map (\<lambda>i. project sel (tr_rows t ! i)) ?is = map (project sel) (filter (row_matches (columns_of t) (Some w)) (tr_rows t))"
    by (rule map_filter_nth)
  finally show ?thesis using linear_scan_eq [OF t(1), of "Some w"] t(2)
    by (simp add: executor_collect_rows_by_scan_def)
qed

lemma collect_all_ok:
  assumes widths: "\<forall>r \<in> set (tr_rows t). length r = tr_col_count t" "\<forall>i \<in> set sel. i < tr_col_count t"
    and t: "tr_loaded t"
  shows "executor_collect_all_rows t sel = Some (Some (map (project sel) (tr_rows t)))"
proof -
  have "executor_collect_rows_by_indices t sel (map int [0..<length (tr_rows t)]) =
      Some (Some (map (\<lambda>i. project sel (tr_rows t ! i)) [0..<length (tr_rows t)]))"
    by (rule collect_indices [OF widths]) auto
  also have "map (\<lambda>i. project sel (tr_rows t ! i)) [0..<length (tr_rows t)] = map (project sel) (tr_rows t)"
    using map_filter_nth [of "project sel" "tr_rows t" "\<lambda>r. True"] by simp
  finally show ?thesis using t
    by (simp add: executor_collect_all_rows_def table_linear_scan_by_field_def)
qed

lemma can_use_id_column:
  assumes "table_inv h t" "executor_can_use_id_index t w = Some k"
  shows "table_find_column_index t (wh_column w) \<noteq> None"
proof -
  have "tr_loaded t" "utils_equals_ignore_case (tr_columns t ! tr_id_column t) (wh_column w)"
    using assms(2) by (auto simp: executor_can_use_id_index_def split: if_splits)
  then show ?thesis using first_column_id [of t "tr_id_column t"] assms(1) by (simp add: table_inv_def)
qed

text \<open>The answer of a SELECT: the matching rows in table order, projected, with their number.\<close>

definition selected_rows :: "table_runtime \<Rightarrow> select_statement \<Rightarrow> nat list \<Rightarrow> string list list" where
  "selected_rows t stmt sel = map (project sel) (filter (row_matches (columns_of t) (sel_where stmt)) (tr_rows t))"

definition uses_index :: "table_runtime \<Rightarrow> select_statement \<Rightarrow> bool" where
  "uses_index t stmt = (case sel_where stmt of None \<Rightarrow> False | Some w \<Rightarrow> executor_can_use_id_index t w \<noteq> None)"

definition select_answer :: "table_runtime \<Rightarrow> select_statement \<Rightarrow> nat list \<Rightarrow> string list \<Rightarrow> db_result \<Rightarrow> db_result" where
  "select_answer t stmt sel hs r = r\<lparr>res_type := DB_RESULT_SELECT, res_success := True, res_columns := hs,
     res_rows := selected_rows t stmt sel, res_rows_affected := length (selected_rows t stmt sel),
     res_used_id_index := uses_index t stmt, res_message := select_message (length (selected_rows t stmt sel))\<rparr>"

lemma select_loaded_ok:
  assumes inv: "table_inv h t" "tr_loaded t" and pr: "executor_prepare_projection stmt t = Some (sel, hs)"
    and cnt: "length (sel_columns stmt) \<le> MAX_COLUMNS"
    and wh: "\<forall>w. sel_where stmt = Some w \<longrightarrow> tr_rows t = [] \<or> table_find_column_index t (wh_column w) \<noteq> None"
  shows "select_loaded h t stmt r = Some (select_answer t stmt sel hs r, SUCCESS)"
proof -
  let ?rows = "selected_rows t stmt sel"
  have sch: "schema_ok t" and widths: "\<forall>r \<in> set (tr_rows t). length r = tr_col_count t"
    using inv by (auto simp: table_inv_def)
  note b = projection_bound [OF pr sch]
  have hs: "length hs \<le> MAX_COLUMNS" using b(2,4) sch cnt by (auto simp: schema_ok_def split: if_splits)
  note fin = finish_select_ok [OF b(3) hs, of r ?rows]
  show ?thesis
  proof (cases "sel_where stmt")
    case None
    then have "?rows = map (project sel) (tr_rows t)" by (simp add: selected_rows_def row_matches_def)
    then show ?thesis using None inv(2) pr collect_all_ok [OF widths b(1) inv(2)] fin
      by (simp add: select_loaded_def select_answer_def uses_index_def)
  next
    case (Some w)
    then have ne: "tr_rows t = [] \<or> table_find_column_index t (wh_column w) \<noteq> None" using wh by simp
    have scan: "executor_collect_rows_by_scan t w sel = Some (Some ?rows)"
      using collect_by_scan_ok [OF widths b(1) inv(2) ne] Some by (simp add: selected_rows_def)
    show ?thesis
    proof (cases "executor_can_use_id_index t w")
      case None
      then show ?thesis using Some inv(2) pr scan fin
        by (simp add: select_loaded_def select_answer_def uses_index_def)
    next
      case (Some k)
      then have "executor_collect_rows_by_id h t k sel = Some (Some ?rows)"
        using index_eq_scan [OF inv(1) Some] scan by simp
      then show ?thesis using Some \<open>sel_where stmt = Some w\<close> inv(2) pr fin
        by (simp add: select_loaded_def select_answer_def uses_index_def)
    qed
  qed
qed

text \<open>In a table that is only safe, a SELECT is still defined.\<close>

lemma collect_indices_defined:
  assumes "\<forall>r \<in> set (tr_rows t). length r = tr_col_count t" "\<forall>i \<in> set sel. i < tr_col_count t"
  shows "\<exists>c. executor_collect_rows_by_indices t sel is = Some c"
proof (induction "is")
  case (Cons i "is")
  show ?case
  proof (cases "table_get_row_by_slot t i")
    case (Some row)
    then have "row \<in> set (tr_rows t)" by (auto simp: table_get_row_by_slot_def split: if_splits)
    then have "executor_copy_projected_row row sel = Some (project sel row)"
      using assms by (intro copy_projected) auto
    then show ?thesis using Cons Some by auto
  qed simp
qed simp

lemma select_safe:
  assumes "table_safe h t"
  shows "\<exists>out. select_loaded h t stmt r = Some out"
proof (cases "tr_loaded t")
  case False
  then show ?thesis by (simp add: select_loaded_def)
next
  case True
  then have t: "schema_ok t" "\<forall>r \<in> set (tr_rows t). length r = tr_col_count t" "\<exists>m. bp_owns h (tr_root t) m"
    using assms by (auto simp: table_safe_def)
  then obtain m where m: "\<And>k. bptree_search h (tr_root t) k = Some (m k)" using owns_search by blast
  show ?thesis
  proof (cases "executor_prepare_projection stmt t")
    case None
    then show ?thesis using True by (simp add: select_loaded_def)
  next
    case (Some p)
    obtain sel hs where p: "p = (sel, hs)" by fastforce
    note d = collect_indices_defined [OF t(2) projection_bound(1) [OF Some [unfolded p] t(1)]]
    obtain f where f: "executor_collect_rows_by_indices t sel is = Some (f is)" for "is" using d by metis
    have "\<exists>c. executor_collect_all_rows t sel = Some c"
      by (cases "table_linear_scan_by_field t None") (simp_all add: executor_collect_all_rows_def f)
    then obtain all where all: "executor_collect_all_rows t sel = Some all" by blast
    have "\<exists>c. executor_collect_rows_by_scan t w sel = Some c" for w
      by (cases "table_linear_scan_by_field t (Some w)") (simp_all add: executor_collect_rows_by_scan_def f)
    then obtain scan where scan: "executor_collect_rows_by_scan t w sel = Some (scan w)" for w by metis
    have "\<exists>c. executor_collect_rows_by_id h t k sel = Some c" for k
      by (cases "m k") (simp_all add: executor_collect_rows_by_id_def m f del: executor_collect_rows_by_indices.simps)
    then obtain byid where byid: "executor_collect_rows_by_id h t k sel = Some (byid k)" for k by metis
    show ?thesis using True Some p
      by (simp add: select_loaded_def all scan byid split: option.split)
  qed
qed

section \<open>The runtime state\<close>

definition rt_safe :: "runtime_state \<Rightarrow> bool" where
  "rt_safe rt \<longleftrightarrow> (if rt_has_active rt then table_safe (rt_heap rt) (rt_active rt)
     else cells (rt_heap rt) = Map.empty \<and> bp_memory (rt_heap rt))"

definition rt_inv :: "file_system \<Rightarrow> runtime_state \<Rightarrow> bool" where
  "rt_inv fs rt \<longleftrightarrow> (if rt_has_active rt then db_inv fs (rt_heap rt) (rt_active rt) \<and> settled fs (rt_active rt)
     else cells (rt_heap rt) = Map.empty \<and> bp_memory (rt_heap rt) \<and> stored_tables fs)"

lemma rt_inv_safe: "rt_inv fs rt \<Longrightarrow> rt_safe rt"
  using inv_safe by (auto simp: rt_inv_def rt_safe_def db_inv_def split: if_splits)

lemma table_init_inv: "cells h = Map.empty \<Longrightarrow> bp_memory h \<Longrightarrow> table_inv h table_init"
  using init_inv [of h "tr_name table_init"] by simp

definition activated :: "runtime_state \<Rightarrow> runtime_state" where
  "activated rt = (if rt_has_active rt then rt else rt\<lparr>rt_active := table_init, rt_has_active := True\<rparr>)"

lemma get_or_load_eq:
  "table_get_or_load rt name =
     (if tr_name (rt_active (activated rt)) \<noteq> [] \<and> utils_equals_ignore_case (tr_name (rt_active (activated rt))) name
      then Some (activated rt, SUCCESS)
      else do {
        (h', t') \<leftarrow> table_free (rt_heap (activated rt)) (rt_active (activated rt));
        let (t2, named) = table_set_active_name t' name;
        Some ((activated rt)\<lparr>rt_active := t2, rt_heap := h'\<rparr>, named)
      })"
  unfolding table_get_or_load_def activated_def Let_def by (rule refl)

lemma get_or_load_safe:
  assumes "rt_safe rt"
  shows "\<exists>rt' st. table_get_or_load rt name = Some (rt', st) \<and> rt_safe rt' \<and> rt_has_active rt'"
proof -
  have s1: "table_safe (rt_heap (activated rt)) (rt_active (activated rt))" "rt_has_active (activated rt)"
    using assms table_init_inv inv_safe by (auto simp: rt_safe_def activated_def)
  then obtain m where m: "bp_owns (rt_heap (activated rt)) (tr_root (rt_active (activated rt))) m" "bp_memory (rt_heap (activated rt))"
    by (auto simp: table_safe_def)
  show ?thesis
  proof (cases "tr_name (rt_active (activated rt)) \<noteq> [] \<and> utils_equals_ignore_case (tr_name (rt_active (activated rt))) name")
    case True
    then have "table_get_or_load rt name = Some (activated rt, SUCCESS)" by (simp add: get_or_load_eq)
    then show ?thesis using s1 by (simp add: rt_safe_def)
  next
    case False
    obtain h' where f: "table_free (rt_heap (activated rt)) (rt_active (activated rt)) = Some (h', table_init)" "cells h' = Map.empty"
      "bp_memory h'" using table_free_ok [OF m] by blast
    obtain v st where v: "table_set_active_name table_init name = (table_init\<lparr>tr_name := v\<rparr>, st)"
      by (cases "utils_safe_strcpy (tr_name table_init) MAX_IDENTIFIER_LEN name") (simp add: table_set_active_name_def)
    have "table_get_or_load rt name = Some ((activated rt)\<lparr>rt_active := table_init\<lparr>tr_name := v\<rparr>, rt_heap := h'\<rparr>, st)"
      using False f(1) v by (auto simp: get_or_load_eq)
    then show ?thesis using inv_safe [OF init_inv [OF f(2,3), of v]] s1(2) by (simp add: rt_safe_def)
  qed
qed

text \<open>The table about to be used: the active one, or an empty one under its name.\<close>

lemma get_or_load_stored:
  assumes inv: "rt_inv fs rt" and name: "name \<noteq> []" "length name < MAX_IDENTIFIER_LEN"
  shows "\<exists>rt'. table_get_or_load rt name = Some (rt', SUCCESS) \<and> rt_has_active rt' \<and>
     db_inv fs (rt_heap rt') (rt_active rt') \<and> utils_equals_ignore_case (tr_name (rt_active rt')) name \<and>
     (settled fs (rt_active rt') \<or> tr_name (rt_active rt') = name)"
proof -
  have init: "tr_name table_init = []" "\<not> tr_loaded table_init" by (simp_all add: table_init_def)
  have st: "stored_tables fs" using inv by (auto simp: rt_inv_def db_inv_def split: if_splits)
  have s1: "db_inv fs (rt_heap (activated rt)) (rt_active (activated rt))" "settled fs (rt_active (activated rt))" "rt_has_active (activated rt)"
    using inv table_init_inv init by (auto simp: rt_inv_def db_inv_def coherent_def settled_def MAX_IDENTIFIER_LEN_def activated_def)
  have m: "bp_owns (rt_heap (activated rt)) (tr_root (rt_active (activated rt))) (id_map (tr_id_column (rt_active (activated rt))) (tr_rows (rt_active (activated rt))))"
    "bp_memory (rt_heap (activated rt))" using s1(1) by (auto simp: db_inv_def table_inv_def index_ok_def)
  show ?thesis
  proof (cases "tr_name (rt_active (activated rt)) \<noteq> [] \<and> utils_equals_ignore_case (tr_name (rt_active (activated rt))) name")
    case True
    then have "table_get_or_load rt name = Some (activated rt, SUCCESS)" by (simp add: get_or_load_eq)
    then show ?thesis using s1 True by auto
  next
    case False
    obtain h' where f: "table_free (rt_heap (activated rt)) (rt_active (activated rt)) = Some (h', table_init)" "cells h' = Map.empty"
      "bp_memory h'" using table_free_ok [OF m] by blast
    have v: "table_set_active_name table_init name = (table_init\<lparr>tr_name := name\<rparr>, SUCCESS)"
      using name(2) by (simp add: table_set_active_name_def strcpy_fits)
    let ?rt' = "(activated rt)\<lparr>rt_active := table_init\<lparr>tr_name := name\<rparr>, rt_heap := h'\<rparr>"
    have "table_get_or_load rt name = Some (?rt', SUCCESS)"
      using False f(1) v by (auto simp: get_or_load_eq)
    moreover have "db_inv fs h' (table_init\<lparr>tr_name := name\<rparr>)"
      using st init_inv [OF f(2,3)] name init by (simp add: db_inv_def coherent_def)
    ultimately show ?thesis using s1(3) by (auto simp: equals_ignore_case_iff)
  qed
qed

lemma get_or_load_active:
  assumes "table_runtime_is_loaded_for rt name"
  shows "table_get_or_load rt name = Some (rt, SUCCESS)"
  using assms by (simp add: table_get_or_load_def table_runtime_is_loaded_for_def Let_def)

section \<open>Statements\<close>

lemma select_reads_only:
  assumes "table_runtime_is_loaded_for rt (sel_table stmt)"
  shows "executor_execute_select fs rt stmt r =
     map_option (Pair rt) (select_loaded (rt_heap rt) (rt_active rt) stmt r)"
  using assms get_or_load_active [OF assms]
  by (cases "select_loaded (rt_heap rt) (rt_active rt) stmt r")
    (auto simp: executor_execute_select_def table_load_from_storage_if_needed_def table_runtime_is_loaded_for_def)

lemma rt_safe_upd: "rt_has_active rt \<Longrightarrow> rt_safe (rt\<lparr>rt_heap := h, rt_active := t\<rparr>) \<longleftrightarrow> table_safe h t"
  by (simp add: rt_safe_def)

lemma select_stmt_safe:
  assumes "rt_safe rt"
  shows "\<exists>rt' out. executor_execute_select fs rt stmt r = Some (rt', out) \<and> rt_safe rt'"
proof -
  obtain rt1 st where g: "table_get_or_load rt (sel_table stmt) = Some (rt1, st)" "rt_safe rt1" "rt_has_active rt1"
    using get_or_load_safe [OF assms] by blast
  then have s1: "table_safe (rt_heap rt1) (rt_active rt1)" by (simp add: rt_safe_def)
  obtain h2 t2 res where l: "table_load_from_storage_if_needed fs (rt_heap rt1) (rt_active rt1) (sel_table stmt) = Some (h2, t2, res)"
    "table_safe h2 t2" using load_safe [OF s1] by blast
  obtain out where "select_loaded h2 t2 stmt r = Some out" using select_safe [OF l(2)] by blast
  then show ?thesis using g l by (cases st; cases res) (auto simp: executor_execute_select_def rt_safe_upd)
qed

lemma insert_stmt_safe:
  assumes "rt_safe rt" "length (ins_values stmt) = length (ins_columns stmt)"
  shows "\<exists>fs' rt' out. executor_execute_insert fs rt stmt r = Some (fs', rt', out) \<and> rt_safe rt'"
proof -
  obtain rt1 st where g: "table_get_or_load rt (ins_table stmt) = Some (rt1, st)" "rt_safe rt1" "rt_has_active rt1"
    using get_or_load_safe [OF assms(1)] by blast
  then have s1: "table_safe (rt_heap rt1) (rt_active rt1)" by (simp add: rt_safe_def)
  obtain h2 t2 res where l: "table_load_from_storage_if_needed fs (rt_heap rt1) (rt_active rt1) (ins_table stmt) = Some (h2, t2, res)"
    "table_safe h2 t2" using load_safe [OF s1] by blast
  obtain fs3 h3 t3 res3 where i: "table_insert_row fs h2 t2 stmt = Some (fs3, h3, t3, res3)" "table_safe h3 t3"
    using insert_row_safe [OF l(2) assms(2)] by blast
  show ?thesis using g l i by (cases st; cases res; cases res3) (auto simp: executor_execute_insert_def rt_safe_def)
qed

lemma execute_safe:
  assumes "rt_safe rt" "wf_statement stmt"
  shows "\<exists>fs' rt' r' st. executor_execute_into_result fs rt stmt r = Some (fs', rt', r', st) \<and> rt_safe rt'"
proof (cases stmt)
  case (SQL_INSERT s)
  then show ?thesis using insert_stmt_safe [OF assms(1), of s fs r] assms(2) by auto
next
  case (SQL_SELECT s)
  then show ?thesis using select_stmt_safe [OF assms(1), of fs s r] by auto
next
  case (SQL_DELETE s)
  then show ?thesis using assms by (auto simp: executor_execute_delete_def db_result_set_error_def)
qed

section \<open>Statements on stored tables\<close>

text \<open>The abstract effect of an INSERT on the database.\<close>

definition abs_insert :: "(string \<rightharpoonup> string list \<times> string list list) \<Rightarrow> string \<Rightarrow> insert_statement \<Rightarrow>
    (string \<rightharpoonup> string list \<times> string list list)" where
  "abs_insert db name stmt = (case db name of
     None \<Rightarrow> db(name \<mapsto> (''id'' # ins_columns stmt, [show_int 1 # ins_values stmt]))
   | Some (cols, rows) \<Rightarrow> db(name \<mapsto> (cols, rows @ [show_int (next_id_from 0 1 rows) # ins_values stmt])))"

lemma row_added_abs:
  assumes "row_added fs fs' t stmt n" "coherent fs' t"
  shows "abs_db fs' = abs_insert (abs_db fs) (tr_name t) stmt"
proof
  fix name
  have "abs_db fs' (tr_name t) = Some (columns_of t, tr_rows t)"
    using assms abs_db_at by (auto simp: row_added_def coherent_def)
  then show "abs_db fs' name = abs_insert (abs_db fs) (tr_name t) stmt name"
    using assms(1) by (cases "name = tr_name t") (auto simp: row_added_def abs_insert_def split: option.splits)
qed

lemma insert_stmt_stored:
  assumes inv: "rt_inv fs rt" and ok: "storable stmt"
  shows "\<exists>fs' rt' r' st. executor_execute_insert fs rt stmt r = Some (fs', rt', r', st) \<and> rt_inv fs' rt' \<and>
     rt_has_active rt' \<and> (st = FAILURE \<longrightarrow> fs' = fs \<and> \<not> res_success r') \<and>
     (st = SUCCESS \<longrightarrow> res_success r' \<and> (\<exists>n. row_added fs fs' (rt_active rt') stmt n))"
proof -
  let ?name = "ins_table stmt"
  have name: "?name \<noteq> []" "length ?name < MAX_IDENTIFIER_LEN" using ok by (auto simp: storable_def wf_name_def)
  obtain rt1 where g: "table_get_or_load rt ?name = Some (rt1, SUCCESS)" "rt_has_active rt1"
    "db_inv fs (rt_heap rt1) (rt_active rt1)" "utils_equals_ignore_case (tr_name (rt_active rt1)) ?name"
    "settled fs (rt_active rt1) \<or> tr_name (rt_active rt1) = ?name" using get_or_load_stored [OF inv name] by blast
  obtain h2 t2 where l: "table_load_from_storage_if_needed fs (rt_heap rt1) (rt_active rt1) ?name = Some (h2, t2, Inr ())"
    "db_inv fs h2 t2" "settled fs t2" "utils_equals_ignore_case (tr_name t2) ?name"
    using load_stored [OF g(3) name _ g(5)] g(4) by blast
  obtain fs3 h3 t3 res where i: "table_insert_row fs h2 t2 stmt = Some (fs3, h3, t3, res)" "db_inv fs3 h3 t3"
    "settled fs3 t3" "case res of Inl e \<Rightarrow> fs3 = fs | Inr n \<Rightarrow> row_added fs fs3 t3 stmt n"
    using insert_row_stored [OF l(2) ok] l(3,4) by blast
  show ?thesis using g(1,2) l(1) i
    by (cases res) (auto simp: executor_execute_insert_def rt_inv_def db_result_set_error_def db_result_set_message_def
        executor_finish_insert_def)
qed

text \<open>The table a SELECT reads: the stored one, now active.\<close>

lemma select_stmt_stored:
  assumes inv: "rt_inv fs rt" and name: "sel_table stmt \<noteq> []" "wf_name (sel_table stmt)"
  shows "\<exists>rt' out. executor_execute_select fs rt stmt r = Some (rt', out) \<and> rt_inv fs rt' \<and> rt_has_active rt' \<and>
     utils_equals_ignore_case (tr_name (rt_active rt')) (sel_table stmt) \<and>
     select_loaded (rt_heap rt') (rt_active rt') stmt r = Some out \<and>
     (storage_table_exists fs (sel_table stmt) \<longrightarrow> tr_loaded (rt_active rt'))"
proof -
  let ?name = "sel_table stmt"
  have len: "length ?name < MAX_IDENTIFIER_LEN" using name(2) by (simp add: wf_name_def)
  obtain rt1 where g: "table_get_or_load rt ?name = Some (rt1, SUCCESS)" "rt_has_active rt1"
    "db_inv fs (rt_heap rt1) (rt_active rt1)" "utils_equals_ignore_case (tr_name (rt_active rt1)) ?name"
    "settled fs (rt_active rt1) \<or> tr_name (rt_active rt1) = ?name" using get_or_load_stored [OF inv name(1) len] by blast
  obtain h2 t2 where l: "table_load_from_storage_if_needed fs (rt_heap rt1) (rt_active rt1) ?name = Some (h2, t2, Inr ())"
    "db_inv fs h2 t2" "settled fs t2" "utils_equals_ignore_case (tr_name t2) ?name"
    "storage_table_exists fs ?name \<longrightarrow> tr_loaded t2"
    using load_stored [OF g(3) name(1) len _ g(5)] g(4) by blast
  have "table_safe h2 t2" using l(2) inv_safe by (simp add: db_inv_def)
  then obtain out where "select_loaded h2 t2 stmt r = Some out" using select_safe by blast
  then show ?thesis using g(1,2) l by (auto simp: executor_execute_select_def rt_inv_def)
qed

lemma db_inv_table: "db_inv fs h t \<Longrightarrow> tr_loaded t \<Longrightarrow> abs_db fs (tr_name t) = Some (columns_of t, tr_rows t)"
  using abs_db_at by (auto simp: db_inv_def coherent_def)

section \<open>Reading back an inserted row\<close>

lemma filter_last_unique:
  assumes "\<And>x. x \<in> set xs \<Longrightarrow> \<not> P x" "P y"
  shows "filter P (xs @ [y]) = [y]"
  using assms by (simp add: filter_empty_conv)

lemma project_all: "length row = n \<Longrightarrow> project [0..<n] row = row"
  using map_nth [of row] by (simp add: project_def)

lemma star_projection:
  assumes "schema_ok t" "\<forall>c \<in> set (columns_of t). length c < MAX_IDENTIFIER_LEN" "sel_columns stmt = []"
  shows "executor_prepare_projection stmt t = Some ([0..<tr_col_count t], columns_of t)"
proof -
  have "map ((!) (tr_columns t)) [0..<tr_col_count t] = columns_of t"
    using assms(1) by (simp add: columns_of_def schema_ok_def map_nth take_map [symmetric] list_eq_iff_nth_eq)
  then show ?thesis using copy_headers_fits [OF assms(2)] assms(3) by (simp add: executor_prepare_projection_def)
qed

text \<open>The row an insertion added, with its id.\<close>

lemma added_row:
  assumes add: "row_added fs fs' t stmt n" and inv: "db_inv fs' h t"
  shows "\<exists>k old. tr_rows t = old @ [show_int k # ins_values stmt] \<and> 1 \<le> k \<and> k \<le> INT_MAX \<and>
     utils_parse_integer (show_int k) = k \<and> utils_is_integer (show_int k) \<and> (\<forall>r \<in> set old. row_id 0 r \<noteq> k)"
proof -
  obtain k old where rows: "tr_rows t = old @ [show_int k # ins_values stmt]" and k: "k = next_id_from 0 1 old"
    using add by (auto simp: row_added_def next_id_from_def split: option.splits)
  have ld: "tr_loaded t" using add by (simp add: row_added_def)
  then have ids: "valid_ids 0 (tr_rows t)" "distinct (map (row_id 0) (tr_rows t))"
    using inv by (auto simp: db_inv_def table_inv_def index_ok_def)
  have k1: "1 \<le> k" using next_id_ge [of 1 0 old] k by simp
  have "k \<le> INT_MAX + 1"
    unfolding k using ids(1) rows by (intro next_id_le) (force simp: valid_ids_def row_id_def INT_MAX_def)+
  then have p: "utils_parse_integer (show_int k) = k" "utils_is_integer (show_int k)"
    using parse_show_int [of k] k1 by (auto simp: INT_MAX_def LLONG_MAX_def)
  then have "k \<le> INT_MAX" "\<forall>r \<in> set old. row_id 0 r \<noteq> k"
    using ids rows by (auto simp: valid_ids_def row_id_def)
  then show ?thesis using rows k1 p by blast
qed

definition select_by_id :: "string \<Rightarrow> int \<Rightarrow> select_statement" where
  "select_by_id table k = \<lparr>sel_table = table, sel_columns = [],
     sel_where = Some \<lparr>wh_column = ''id'', wh_op = ''='', wh_value = show_int k\<rparr>\<rparr>"

lemma select_new_row:
  assumes add: "row_added fs fs' t stmt n" and inv: "db_inv fs' h t"
  shows "\<exists>k r'. select_loaded h t (select_by_id table k) r = Some (r', SUCCESS) \<and>
     res_rows r' = [show_int k # ins_values stmt] \<and> res_used_id_index r'"
proof -
  obtain k old where rows: "tr_rows t = old @ [show_int k # ins_values stmt]" and k: "1 \<le> k" "k \<le> INT_MAX"
    and ks: "utils_parse_integer (show_int k) = k" "utils_is_integer (show_int k)" and new: "\<forall>r \<in> set old. row_id 0 r \<noteq> k"
    using added_row [OF assms] by blast
  let ?w = "\<lparr>wh_column = ''id'', wh_op = ''='', wh_value = show_int k\<rparr>" and ?s = "select_by_id table k"
  have ld: "tr_loaded t" using add by (simp add: row_added_def)
  then have t: "table_inv h t" "tr_id_column t = 0" "table_at fs' (tr_name t) (columns_of t) (tr_rows t)"
    "schema_ok t" "valid_ids 0 (tr_rows t)" "table_find_column_index t ''id'' = Some 0"
    "\<forall>r \<in> set (tr_rows t). length r = tr_col_count t" "bp_owns h (tr_root t) (id_map 0 (tr_rows t))"
    using inv by (auto simp: db_inv_def coherent_def table_inv_def index_ok_def)
  have pr: "executor_prepare_projection ?s t = Some ([0..<tr_col_count t], columns_of t)"
    using star_projection [OF t(4)] t(3) by (auto simp: table_at_def wf_table_def wf_columns_def select_by_id_def)
  have idc: "utils_equals_ignore_case (tr_columns t ! 0) ''id''"
    using find_column_Some [of "columns_of t" "''id''" 0] t(6)
    by (auto simp: table_find_column_index_def storage_find_column_index_def columns_of_def)
  note m = row_matches_id [OF t(6,4,5), of ?w, simplified, OF idc ks(2), unfolded ks(1)]
  have "filter (row_matches (columns_of t) (Some ?w)) (tr_rows t) = [show_int k # ins_values stmt]"
    unfolding rows using m rows new ks(1) by (intro filter_last_unique) (auto simp: row_id_def)
  moreover have "length (show_int k # ins_values stmt) = tr_col_count t" using t(7) rows by simp
  ultimately have sel: "selected_rows t ?s [0..<tr_col_count t] = [show_int k # ins_values stmt]"
    using project_all [of "show_int k # ins_values stmt" "tr_col_count t"]
    by (simp add: selected_rows_def select_by_id_def)
  have "id_map 0 (tr_rows t) \<noteq> Map.empty" using rows by (metis id_map_None image_eqI in_set_conv_decomp)
  then have "tr_root t \<noteq> None" using t(8) by (auto simp: bp_owns_def)
  then have use_ix: "uses_index t ?s"
    using ld idc ks k t(2) by (simp add: uses_index_def select_by_id_def executor_can_use_id_index_def strcmp_zero)
  show ?thesis
  proof (intro exI conjI)
    show "select_loaded h t ?s r = Some (select_answer t ?s [0..<tr_col_count t] (columns_of t) r, SUCCESS)"
      using select_loaded_ok [OF t(1) ld pr] t(6) by (simp add: select_by_id_def)
  qed (use sel use_ix in \<open>simp_all add: select_answer_def\<close>)
qed

section \<open>Properties\<close>

definition fresh_runtime :: runtime_state where
  "fresh_runtime = \<lparr>rt_active = table_init, rt_has_active = False, rt_heap = empty_heap (\<lambda>i. True)\<rparr>"

lemma fresh_inv: "stored_tables fs \<Longrightarrow> rt_inv fs fresh_runtime"
  by (simp add: rt_inv_def fresh_runtime_def empty_heap_def bp_memory_def)

definition sample_table :: table_runtime where
  "sample_table = table_init\<lparr>tr_name := ''t'', tr_col_count := 2, tr_columns := [''id'', ''a''] @ replicate 30 [],
     tr_rows := [[''7'', ''x'']], tr_capacity := 16, tr_next_id := 8, tr_root := Some 0, tr_loaded := True\<rparr>"

definition sample_where :: where_clause where
  "sample_where = \<lparr>wh_column = ''ID'', wh_op = ''='', wh_value = ''7''\<rparr>"

definition sample_select :: select_statement where
  "sample_select = \<lparr>sel_table = ''t'', sel_columns = [''a''], sel_where = Some sample_where\<rparr>"

lemma sample_table_inv: "table_inv one_leaf_heap sample_table"
proof -
  have t: "tr_root sample_table = Some 0" "tr_rows sample_table = [[''7'', ''x'']]" "tr_id_column sample_table = 0"
    "tr_next_id sample_table = 8" "tr_loaded sample_table" "tr_col_count sample_table = 2"
    by (simp_all add: sample_table_def table_init_def)
  have id7: "row_id 0 [''7'', ''x''] = 7" "utils_is_integer ''7''" by code_simp+
  have "id_map 0 [[''7'', ''x'']] = [7 \<mapsto> 0]" by (simp add: id_map_def id7)
  then have "index_ok one_leaf_heap sample_table"
    using one_leaf_owns id7 by (simp add: index_ok_def t valid_ids_def INT_MAX_def next_id_from_def row_id_def)
  moreover have "schema_ok sample_table" by code_simp
  moreover have "table_find_column_index sample_table ''id'' = Some 0" by code_simp
  ultimately show ?thesis by (simp add: table_inv_def t one_leaf_heap_def bp_memory_def)
qed

text \<open>
  C5: where the executor may use the id index, the B+ tree lookup and the linear scan give the
  same answer: the same rows, in the same order.
\<close>

theorem index_lookup_equals_scan:
  assumes "table_inv h t" "executor_can_use_id_index t w = Some k"
  shows "executor_collect_rows_by_id h t k sel = executor_collect_rows_by_scan t w sel"
  by (rule index_eq_scan [OF assms])

theorem index_lookup_equals_scan_witness:
  "executor_collect_rows_by_id one_leaf_heap sample_table 7 [1] = executor_collect_rows_by_scan sample_table sample_where [1]"
  by (rule index_lookup_equals_scan [OF sample_table_inv]) code_simp

text \<open>
  C13: a SELECT on a loaded table succeeds and answers with the projections of exactly the rows that
  satisfy the condition, in table order, with their number; whether the index or a scan produced
  them shows only in the flag.
\<close>

theorem select_filters_and_projects:
  assumes "table_inv h t" "tr_loaded t" "executor_prepare_projection stmt t = Some (sel, hs)"
    "length (sel_columns stmt) \<le> MAX_COLUMNS"
    "\<forall>w. sel_where stmt = Some w \<longrightarrow> tr_rows t = [] \<or> table_find_column_index t (wh_column w) \<noteq> None"
  shows "\<exists>r'. select_loaded h t stmt r = Some (r', SUCCESS) \<and> res_success r' \<and> res_columns r' = hs \<and>
     res_rows r' = map (\<lambda>row. map ((!) row) sel) (filter (row_matches (columns_of t) (sel_where stmt)) (tr_rows t)) \<and>
     res_rows_affected r' = length (res_rows r') \<and> res_used_id_index r' = uses_index t stmt"
proof -
  have "project sel = (\<lambda>row. map ((!) row) sel)" by (simp add: project_def fun_eq_iff)
  then show ?thesis using select_loaded_ok [OF assms, of r] by (simp add: select_answer_def selected_rows_def)
qed

theorem select_filters_and_projects_witness:
  "\<exists>r'. select_loaded one_leaf_heap sample_table sample_select db_result_init = Some (r', SUCCESS) \<and> res_success r' \<and>
     res_columns r' = [''a''] \<and>
     res_rows r' = map (\<lambda>row. map ((!) row) [1])
       (filter (row_matches (columns_of sample_table) (sel_where sample_select)) (tr_rows sample_table)) \<and>
     res_rows_affected r' = length (res_rows r') \<and> res_used_id_index r' = uses_index sample_table sample_select"
proof (rule select_filters_and_projects [OF sample_table_inv])
  show "tr_loaded sample_table" "executor_prepare_projection sample_select sample_table = Some ([1], [''a''])"
    "length (sel_columns sample_select) \<le> MAX_COLUMNS" by code_simp+
  have "table_find_column_index sample_table ''ID'' = Some 0" by code_simp
  then show "\<forall>w. sel_where sample_select = Some w \<longrightarrow> tr_rows sample_table = [] \<or>
      table_find_column_index sample_table (wh_column w) \<noteq> None"
    by (simp add: sample_select_def sample_where_def)
qed

text \<open>
  A SELECT on the table that is loaded changes nothing: neither the files nor the runtime state,
  so the engine may run it under the shared lock.
\<close>

theorem loaded_select_changes_nothing:
  assumes "rt_safe rt" "table_runtime_is_loaded_for rt (sel_table stmt)"
  shows "\<exists>out. executor_execute_into_result fs rt (SQL_SELECT stmt) r = Some (fs, rt, out)"
proof -
  have "table_safe (rt_heap rt) (rt_active rt)"
    using assms by (simp add: rt_safe_def table_runtime_is_loaded_for_def)
  then show ?thesis using select_safe select_reads_only [OF assms(2), of fs r] by fastforce
qed

theorem loaded_select_changes_nothing_witness:
  "\<exists>out. executor_execute_into_result empty_fs \<lparr>rt_active = sample_table, rt_has_active = True, rt_heap = one_leaf_heap\<rparr>
     (SQL_SELECT sample_select) db_result_init =
     Some (empty_fs, \<lparr>rt_active = sample_table, rt_has_active = True, rt_heap = one_leaf_heap\<rparr>, out)"
  by (rule loaded_select_changes_nothing)
    (simp_all add: rt_safe_def inv_safe [OF sample_table_inv], code_simp)



end
