(* ===== verification/Engine.thy ===== *)
theory Engine
  imports Executor_Correct
begin

text \<open>
  The engine facade \<^verbatim>\<open>src/db/db_engine_facade.c\<close> and the lock manager
  \<^verbatim>\<open>src/concurrency/lock_manager.c\<close>.  A lock call is an option: \<open>None\<close> is a call that has
  to wait.  Threads are numbers; a reader/writer lock keeps its writer and its readers.
\<close>

section \<open>Lock manager\<close>

datatype lock_policy = LOCK_POLICY_GLOBAL_MUTEX | LOCK_POLICY_SPLIT_RWLOCK

datatype query_lock_mode = QUERY_LOCK_READ | QUERY_LOCK_WRITE

record lock_manager_state =
  lm_initialized :: bool
  lm_policy :: lock_policy
  lm_cache_lock_enabled :: bool
  lm_db_mutex :: "nat option"
  lm_writer :: "nat option"
  lm_readers :: "nat list"
  lm_cache_mutex :: "nat option"

definition lock_manager_zero :: lock_manager_state where
  "lock_manager_zero = \<lparr>lm_initialized = False, lm_policy = LOCK_POLICY_GLOBAL_MUTEX, lm_cache_lock_enabled = False,
     lm_db_mutex = None, lm_writer = None, lm_readers = [], lm_cache_mutex = None\<rparr>"

definition destroy_lock_manager :: "lock_manager_state \<Rightarrow> lock_manager_state" where
  "destroy_lock_manager lm = (if \<not> lm_initialized lm then lm else lock_manager_zero)"

text \<open>The three flags say whether the three \<^verbatim>\<open>pthread\<close> initialisations succeed.\<close>

definition init_lock_manager ::
  "bool \<times> bool \<times> bool \<Rightarrow> lock_policy \<Rightarrow> lock_manager_state \<Rightarrow> lock_manager_state \<times> status" where
  "init_lock_manager = (\<lambda>(mutex_ok, rwlock_ok, cache_ok) policy lm.
     let lm0 = destroy_lock_manager lm; lm1 = lock_manager_zero in
     if \<not> mutex_ok then (lm1, FAILURE)
     else if \<not> rwlock_ok then (lm1, FAILURE)
     else if \<not> cache_ok then (lm1, FAILURE)
     else (lm1\<lparr>lm_initialized := True, lm_policy := policy,
             lm_cache_lock_enabled := (policy = LOCK_POLICY_SPLIT_RWLOCK)\<rparr>, SUCCESS))"

definition lock_db_for_query ::
  "nat \<Rightarrow> query_lock_mode \<Rightarrow> lock_manager_state \<Rightarrow> (lock_manager_state \<times> status) option" where
  "lock_db_for_query i mode lm =
     (if \<not> lm_initialized lm then Some (lm, FAILURE)
      else if lm_policy lm = LOCK_POLICY_GLOBAL_MUTEX
      then (if lm_db_mutex lm = None then Some (lm\<lparr>lm_db_mutex := Some i\<rparr>, SUCCESS) else None)
      else if mode = QUERY_LOCK_READ
      then (if lm_writer lm = None then Some (lm\<lparr>lm_readers := i # lm_readers lm\<rparr>, SUCCESS) else None)
      else (if lm_writer lm = None \<and> lm_readers lm = [] then Some (lm\<lparr>lm_writer := Some i\<rparr>, SUCCESS) else None))"

definition unlock_db_for_query :: "nat \<Rightarrow> query_lock_mode \<Rightarrow> lock_manager_state \<Rightarrow> lock_manager_state" where
  "unlock_db_for_query i mode lm =
     (if \<not> lm_initialized lm then lm
      else if lm_policy lm = LOCK_POLICY_GLOBAL_MUTEX then lm\<lparr>lm_db_mutex := None\<rparr>
      else if lm_writer lm = Some i then lm\<lparr>lm_writer := None\<rparr>
      else lm\<lparr>lm_readers := remove1 i (lm_readers lm)\<rparr>)"

definition lock_tokenizer_cache :: "nat \<Rightarrow> lock_manager_state \<Rightarrow> lock_manager_state option" where
  "lock_tokenizer_cache i lm =
     (if \<not> lm_initialized lm \<or> \<not> lm_cache_lock_enabled lm then Some lm
      else if lm_cache_mutex lm = None then Some (lm\<lparr>lm_cache_mutex := Some i\<rparr>) else None)"

definition unlock_tokenizer_cache :: "lock_manager_state \<Rightarrow> lock_manager_state" where
  "unlock_tokenizer_cache lm =
     (if \<not> lm_initialized lm \<or> \<not> lm_cache_lock_enabled lm then lm else lm\<lparr>lm_cache_mutex := None\<rparr>)"

section \<open>Engine\<close>

record db_engine =
  en_initialized :: bool
  en_tokenizer :: tokenizer_state
  en_runtime :: runtime_state
  en_files :: file_system

definition db_engine_fail :: "db_result \<Rightarrow> string \<Rightarrow> db_result \<times> status" where
  "db_engine_fail r message = (fst (db_result_set_error r message), FAILURE)"

definition db_engine_parse_statement :: "tokenizer_state \<Rightarrow> string \<Rightarrow> tokenizer_state \<times> sql_statement option" where
  "db_engine_parse_statement tok sql =
     (let working_sql = utils_trim sql in
      if working_sql = [] then (tok, None)
      else case tokenizer_tokenize tok working_sql of
        (tok', None) \<Rightarrow> (tok', None)
      | (tok', Some tokens) \<Rightarrow>
          if tokens = [] then (tok', None)
          else (tok', case parser_parse tokens of Inl e \<Rightarrow> None | Inr stmt \<Rightarrow> Some stmt))"

definition db_engine_choose_initial_lock_mode :: "sql_statement option \<Rightarrow> query_lock_mode" where
  "db_engine_choose_initial_lock_mode stmt =
     (case stmt of Some (SQL_SELECT s) \<Rightarrow> QUERY_LOCK_READ | _ \<Rightarrow> QUERY_LOCK_WRITE)"

definition db_execute_sql :: "db_engine \<Rightarrow> string \<Rightarrow> (db_engine \<times> db_result \<times> status) option" where
  "db_execute_sql en sql =
     (let r = db_result_init in
      if \<not> en_initialized en then Some (en, db_engine_fail r ''DB engine is not initialized.'')
      else let working_sql = utils_trim sql in
      if working_sql = [] then Some (en, db_engine_fail r ''SQL statement is empty.'')
      else case tokenizer_tokenize (en_tokenizer en) working_sql of
        (tok, None) \<Rightarrow> Some (en\<lparr>en_tokenizer := tok\<rparr>, db_engine_fail r ''Failed to tokenize SQL statement.'')
      | (tok, Some tokens) \<Rightarrow>
          let en1 = en\<lparr>en_tokenizer := tok\<rparr> in
          if tokens = [] then Some (en1, db_engine_fail r ''Failed to tokenize SQL statement.'')
          else (case parser_parse tokens of
            Inl e \<Rightarrow> Some (en1, db_engine_fail r ''Failed to parse SQL statement.'')
          | Inr stmt \<Rightarrow> do {
              (fs, rt, r', st) \<leftarrow> executor_execute_into_result (en_files en1) (en_runtime en1) stmt r;
              Some (en1\<lparr>en_files := fs, en_runtime := rt\<rparr>,
                (if st \<noteq> SUCCESS \<and> res_message r' = [] then fst (db_engine_fail r' ''Failed to execute SQL statement.'')
                 else r'), st)
            }))"

text \<open>
  \<^verbatim>\<open>execute_query_with_lock\<close> as one thread runs it; the result is \<open>None\<close> also where a lock
  call would wait.  A NULL text leaves the caller's result as it was.
\<close>

definition execute_query_with_lock ::
  "nat \<Rightarrow> db_engine \<Rightarrow> lock_manager_state \<Rightarrow> string option \<Rightarrow> db_result \<Rightarrow>
   (db_engine \<times> lock_manager_state \<times> db_result \<times> status) option" where
  "execute_query_with_lock i en lm sql_arg r = (case sql_arg of
     None \<Rightarrow> Some (en, lm, r, FAILURE)
   | Some sql \<Rightarrow>
       let (tok, parsed) = db_engine_parse_statement (en_tokenizer en) sql;
           en1 = en\<lparr>en_tokenizer := tok\<rparr>;
           mode = db_engine_choose_initial_lock_mode parsed in
       do {
         (lm1, st1) \<leftarrow> lock_db_for_query i mode lm;
         if st1 = FAILURE then Some (en1, lm1, db_engine_fail r ''Failed to acquire DB lock.'')
         else do {
           (lm2, mode2, st2) \<leftarrow>
             (case (mode, parsed) of
                (QUERY_LOCK_READ, Some (SQL_SELECT s)) \<Rightarrow>
                  if \<not> table_runtime_is_loaded_for (en_runtime en1) (sel_table s)
                  then map_option (\<lambda>(lm', st'). (lm', QUERY_LOCK_WRITE, st'))
                    (lock_db_for_query i QUERY_LOCK_WRITE (unlock_db_for_query i mode lm1))
                  else Some (lm1, mode, SUCCESS)
              | _ \<Rightarrow> Some (lm1, mode, SUCCESS));
           if st2 = FAILURE then Some (en1, lm2, db_engine_fail r ''Failed to upgrade DB lock.'')
           else do {
             (en2, out) \<leftarrow> db_execute_sql en1 sql;
             Some (en2, unlock_db_for_query i mode2 lm2, out)
           }
         }
       })"

definition db_engine_init ::
  "bool \<times> bool \<times> bool \<Rightarrow> db_engine \<Rightarrow> lock_manager_state \<Rightarrow> db_engine \<times> lock_manager_state \<times> status" where
  "db_engine_init oks en lm =
     (case init_lock_manager oks LOCK_POLICY_SPLIT_RWLOCK lm of
        (lm', FAILURE) \<Rightarrow> (en, lm', FAILURE)
      | (lm', SUCCESS) \<Rightarrow> (en\<lparr>en_initialized := True\<rparr>, lm', SUCCESS))"

definition db_engine_shutdown :: "db_engine \<Rightarrow> lock_manager_state \<Rightarrow> (db_engine \<times> lock_manager_state) option" where
  "db_engine_shutdown en lm = do {
     rt \<leftarrow> table_runtime_cleanup (en_runtime en);
     Some (en\<lparr>en_initialized := False, en_runtime := rt, en_tokenizer := tokenizer_cleanup_cache (en_tokenizer en)\<rparr>,
       destroy_lock_manager lm)
   }"

end
