(* ===== verification/Engine_Correct.thy ===== *)
theory Engine_Correct
  imports Engine
begin

text \<open>
  The engine end to end: the tokenizer cache does not show, every SQL text on every data
  directory has a defined result, names cannot leave the data directory, and on a data
  directory written by the program each statement acts on the stored tables as specified.
\<close>

section \<open>The statement of a text\<close>

definition statement_of :: "string \<Rightarrow> sql_statement option" where
  "statement_of sql = (case tokens_of sql of None \<Rightarrow> None
     | Some tokens \<Rightarrow> (case parser_parse tokens of Inl e \<Rightarrow> None | Inr stmt \<Rightarrow> Some stmt))"

lemma tokens_of_trim: "tokens_of (utils_trim sql) = tokens_of sql"
  by (simp add: tokens_of_def trim_idem)

lemma parse_statement_eq:
  assumes "cache_inv tok"
  shows "snd (db_engine_parse_statement tok sql) = statement_of sql \<and> cache_inv (fst (db_engine_parse_statement tok sql))"
proof -
  obtain tok' res where t: "tokenizer_tokenize tok (utils_trim sql) = (tok', res)" by fastforce
  have r: "res = tokens_of sql" "cache_inv tok'"
    using tokenize_transparent [OF assms, of "utils_trim sql"] t tokens_of_trim by auto
  have ne: "tokens_of sql \<noteq> Some []" using tokenize_sql_valid by (auto simp: tokens_of_def)
  show ?thesis
  proof (cases "utils_trim sql = []")
    case True
    then show ?thesis using assms by (simp add: db_engine_parse_statement_def statement_of_def tokens_of_def)
  next
    case False
    then show ?thesis using t r ne
      by (cases "tokens_of sql") (auto simp: db_engine_parse_statement_def statement_of_def split: sum.split)
  qed
qed

text \<open>A statement that parses is well-formed, and its names are words.\<close>

lemma statement_wf: "statement_of sql = Some stmt \<Longrightarrow> wf_statement stmt"
  using parse_sound grammar_wf by (auto simp: statement_of_def split: option.splits sum.splits)

lemma message_kept:
  assumes "executor_execute_into_result fs rt stmt r = Some (fs', rt', r', st)" "st = FAILURE"
  shows "res_message r' \<noteq> []"
proof -
  show ?thesis
  proof (cases stmt)
    case (SQL_INSERT s)
    then show ?thesis using assms
      by (auto simp: executor_execute_insert_def db_result_set_error_def db_result_set_message_def MAX_DB_RESULT_MESSAGE_LEN_def
          executor_finish_insert_def Let_def split: bind_splits if_splits sum.splits)
  next
    case (SQL_SELECT s)
    have "select_loaded h t s r = Some (r', FAILURE) \<Longrightarrow> res_message r' \<noteq> []" for h t
      by (auto simp: select_loaded_def db_result_set_error_def db_result_set_message_def MAX_DB_RESULT_MESSAGE_LEN_def
          executor_finish_select_def split: bind_splits if_splits option.splits prod.splits status.splits)
    then show ?thesis using assms SQL_SELECT
      by (auto simp: executor_execute_select_def db_result_set_error_def db_result_set_message_def MAX_DB_RESULT_MESSAGE_LEN_def Let_def
          split: bind_splits if_splits sum.splits)
  next
    case (SQL_DELETE s)
    then show ?thesis using assms
      by (auto simp: executor_execute_delete_def db_result_set_error_def db_result_set_message_def MAX_DB_RESULT_MESSAGE_LEN_def)
  qed
qed

section \<open>Names\<close>

fun table_of :: "sql_statement \<Rightarrow> string" where
  "table_of (SQL_INSERT s) = ins_table s"
| "table_of (SQL_SELECT s) = sel_table s"
| "table_of (SQL_DELETE s) = del_table s"

definition name_ok :: "string \<Rightarrow> bool" where
  "name_ok v \<longleftrightarrow> v = ''*'' \<or> is_word v"

lemma word_char_plain: "word_char c \<Longrightarrow> c \<noteq> NL \<and> c \<noteq> CR \<and> c \<noteq> CHR ''/'' \<and> c \<noteq> CHR ''.''"
  by (auto simp: word_char_def is_alnum_def is_alpha_def is_lower_def is_upper_def is_digit_def)

lemma name_ok_plain:
  assumes "name_ok v"
  shows "v \<noteq> [] \<and> line_safe v \<and> CHR ''/'' \<notin> set v \<and> CHR ''.'' \<notin> set v"
proof (cases "v = ''*''")
  case False
  then have "v \<noteq> []" "\<forall>c \<in> set v. word_char c"
    using assms by (cases v; auto simp: name_ok_def is_word_def word_char_def is_alnum_def list_all_iff)+
  then show ?thesis using word_char_plain by (fastforce simp: line_safe_def)
qed (simp add: line_safe_def)

lemma ident_name: "valid_token t \<Longrightarrow> is_ident t \<Longrightarrow> name_ok (tok_value t)"
  by (auto simp: valid_token_def is_ident_def name_ok_def)

lemma commas_set: "set ts \<subseteq> set (commas ts)"
  by (induction ts rule: commas.induct) auto

lemma commas_idents:
  "list_all valid_token (commas cols) \<Longrightarrow> items is_ident cols \<Longrightarrow> list_all name_ok (map tok_value cols)"
  using commas_set [of cols] ident_name by (fastforce simp: list_all_iff items_def)

lemma grammar_names:
  "sql_grammar ts s \<Longrightarrow> list_all valid_token ts \<Longrightarrow>
   name_ok (table_of s) \<and> (\<forall>i. s = SQL_INSERT i \<longrightarrow> list_all name_ok (ins_columns i))"
  by (induction rule: sql_grammar.induct) (auto simp: ident_name intro: commas_idents)

lemma statement_names:
  assumes "statement_of sql = Some stmt"
  shows "name_ok (table_of stmt)" "stmt = SQL_INSERT i \<Longrightarrow> list_all name_ok (ins_columns i)"
proof -
  obtain ts where ts: "tokens_of sql = Some ts" "parser_parse ts = Inr stmt"
    using assms by (auto simp: statement_of_def split: option.splits sum.splits)
  have "list_all valid_token ts" using ts(1) tokenize_sql_valid by (auto simp: tokens_of_def split: if_splits)
  note n = grammar_names [OF parse_sound [OF ts(2)] this]
  show "name_ok (table_of stmt)" using n by simp
  show "stmt = SQL_INSERT i \<Longrightarrow> list_all name_ok (ins_columns i)" using n by simp
qed

text \<open>Statements the storage keeps exactly: no repeated column, no line break in a value.\<close>

definition keepable :: "sql_statement \<Rightarrow> bool" where
  "keepable stmt \<longleftrightarrow> (case stmt of SQL_INSERT s \<Rightarrow> distinct_names (ins_columns s) \<and> list_all line_safe (ins_values s)
     | _ \<Rightarrow> True)"

lemma keepable_storable:
  assumes "statement_of sql = Some (SQL_INSERT s)" "keepable (SQL_INSERT s)"
  shows "storable s"
  using statement_names(1) [OF assms(1)] statement_names(2) [OF assms(1) refl] statement_wf [OF assms(1)] assms(2)
    name_ok_plain
  by (auto simp: storable_def keepable_def list_all_iff)

section \<open>The engine as a whole\<close>

definition en_safe :: "db_engine \<Rightarrow> bool" where
  "en_safe en \<longleftrightarrow> cache_inv (en_tokenizer en) \<and> rt_safe (en_runtime en)"

definition en_inv :: "db_engine \<Rightarrow> bool" where
  "en_inv en \<longleftrightarrow> cache_inv (en_tokenizer en) \<and> rt_inv (en_files en) (en_runtime en)"

lemma execute_sql_parsed:
  assumes "cache_inv (en_tokenizer en)" "en_initialized en" "statement_of sql = Some stmt"
  shows "\<exists>tok. cache_inv tok \<and> db_execute_sql en sql =
     map_option (\<lambda>(fs, rt, r, st). (en\<lparr>en_tokenizer := tok, en_files := fs, en_runtime := rt\<rparr>, r, st))
       (executor_execute_into_result (en_files en) (en_runtime en) stmt db_result_init)"
proof -
  obtain tok res where t: "tokenizer_tokenize (en_tokenizer en) (utils_trim sql) = (tok, res)" by fastforce
  have r: "res = tokens_of sql" "cache_inv tok"
    using tokenize_transparent [OF assms(1), of "utils_trim sql"] t tokens_of_trim by auto
  obtain ts where ts: "tokens_of sql = Some ts" "parser_parse ts = Inr stmt"
    using assms(3) by (auto simp: statement_of_def split: option.splits sum.splits)
  have ne: "utils_trim sql \<noteq> []" "ts \<noteq> []"
    using ts(1) tokenize_sql_valid by (auto simp: tokens_of_def split: if_splits)
  show ?thesis
  proof (cases "executor_execute_into_result (en_files en) (en_runtime en) stmt db_result_init")
    case None
    then show ?thesis using assms(2) t r ts ne by (auto simp: db_execute_sql_def Let_def)
  next
    case (Some out)
    obtain fs rt r' st where out: "out = (fs, rt, r', st)" by (cases out)
    have "st \<noteq> SUCCESS \<longrightarrow> res_message r' \<noteq> []" using message_kept [OF Some [unfolded out]] by (cases st) auto
    then show ?thesis using Some out assms(2) t r ts ne by (auto simp: db_execute_sql_def Let_def)
  qed
qed

definition reject_message :: "string \<Rightarrow> string" where
  "reject_message sql = (if utils_trim sql = [] then ''SQL statement is empty.''
     else if tokens_of sql = None then ''Failed to tokenize SQL statement.'' else ''Failed to parse SQL statement.'')"

lemma execute_sql_rejected:
  assumes "cache_inv (en_tokenizer en)" "en_initialized en" "statement_of sql = None"
  shows "\<exists>tok. cache_inv tok \<and>
     db_execute_sql en sql = Some (en\<lparr>en_tokenizer := tok\<rparr>, db_engine_fail db_result_init (reject_message sql))"
proof -
  obtain tok res where t: "tokenizer_tokenize (en_tokenizer en) (utils_trim sql) = (tok, res)" by fastforce
  have r: "res = tokens_of sql" "cache_inv tok"
    using tokenize_transparent [OF assms(1), of "utils_trim sql"] t tokens_of_trim by auto
  have ne: "tokens_of sql \<noteq> Some []" using tokenize_sql_valid by (auto simp: tokens_of_def)
  show ?thesis
  proof (cases "utils_trim sql = []")
    case True
    then show ?thesis using assms
      by (auto simp: db_execute_sql_def Let_def reject_message_def intro: exI [of _ "en_tokenizer en"])
  next
    case False
    then show ?thesis using assms t r ne
      by (cases "tokens_of sql") (auto simp: db_execute_sql_def Let_def statement_of_def reject_message_def split: sum.splits)
  qed
qed

text \<open>One call on files and runtime, with the cache left out.\<close>

definition run_sql :: "file_system \<Rightarrow> runtime_state \<Rightarrow> string \<Rightarrow>
    (file_system \<times> runtime_state \<times> db_result \<times> status) option" where
  "run_sql fs rt sql = (case statement_of sql of
     None \<Rightarrow> Some (fs, rt, db_engine_fail db_result_init (reject_message sql))
   | Some stmt \<Rightarrow> executor_execute_into_result fs rt stmt db_result_init)"

lemma execute_sql_run:
  assumes "cache_inv (en_tokenizer en)" "en_initialized en"
  shows "\<exists>tok. cache_inv tok \<and> db_execute_sql en sql =
     map_option (\<lambda>(fs, rt, r, st). (en\<lparr>en_tokenizer := tok, en_files := fs, en_runtime := rt\<rparr>, r, st))
       (run_sql (en_files en) (en_runtime en) sql)"
proof (cases "statement_of sql")
  case None
  then show ?thesis using execute_sql_rejected [OF assms None] by (auto simp: run_sql_def db_engine_fail_def)
next
  case (Some stmt)
  then show ?thesis using execute_sql_parsed [OF assms Some] by (simp add: run_sql_def)
qed

lemma run_sql_safe:
  assumes "rt_safe rt"
  shows "\<exists>fs' rt' r st. run_sql fs rt sql = Some (fs', rt', r, st) \<and> rt_safe rt'"
proof (cases "statement_of sql")
  case None
  then show ?thesis using assms by (simp add: run_sql_def db_engine_fail_def)
next
  case (Some stmt)
  then show ?thesis using execute_safe [OF assms statement_wf [OF Some]] by (simp add: run_sql_def)
qed

lemma run_sql_reads_only:
  assumes "statement_of sql = Some (SQL_SELECT s)" "table_runtime_is_loaded_for rt (sel_table s)"
    and "run_sql fs rt sql = Some (fs', rt', out)"
  shows "fs' = fs \<and> rt' = rt"
  using assms select_reads_only [OF assms(2), of fs db_result_init] by (auto simp: run_sql_def)

lemma execute_sql_safe:
  assumes "en_safe en"
  shows "\<exists>en' r st. db_execute_sql en sql = Some (en', r, st) \<and> en_safe en' \<and> en_initialized en' = en_initialized en"
proof (cases "en_initialized en")
  case False
  then show ?thesis using assms by (auto simp: db_execute_sql_def Let_def db_engine_fail_def)
next
  case True
  have inv: "cache_inv (en_tokenizer en)" "rt_safe (en_runtime en)" using assms by (auto simp: en_safe_def)
  obtain fs rt r st where "run_sql (en_files en) (en_runtime en) sql = Some (fs, rt, r, st)" "rt_safe rt"
    using run_sql_safe [OF inv(2)] by blast
  then show ?thesis using execute_sql_run [OF inv(1) True, of sql] by (auto simp: en_safe_def)
qed

text \<open>The effect of one call on the stored tables.\<close>

definition sql_effect :: "string \<Rightarrow> (string \<rightharpoonup> string list \<times> string list list) \<Rightarrow> status \<Rightarrow>
    (string \<rightharpoonup> string list \<times> string list list) \<Rightarrow> bool" where
  "sql_effect sql db st db' \<longleftrightarrow> (case statement_of sql of
     Some (SQL_INSERT s) \<Rightarrow> (if st = SUCCESS
       then \<exists>name. utils_equals_ignore_case name (ins_table s) \<and> db' = abs_insert db name s else db' = db)
   | _ \<Rightarrow> db' = db)"

lemma execute_stored:
  assumes inv: "rt_inv fs rt" and stmt: "statement_of sql = Some stmt" "keepable stmt"
  shows "\<exists>fs' rt' r' st. executor_execute_into_result fs rt stmt r = Some (fs', rt', r', st) \<and> rt_inv fs' rt' \<and>
     sql_effect sql (abs_db fs) st (abs_db fs')"
proof (cases stmt)
  case (SQL_INSERT s)
  then have ok: "storable s" using keepable_storable stmt by blast
  obtain fs' rt' r' st where x: "executor_execute_insert fs rt s r = Some (fs', rt', r', st)" "rt_inv fs' rt'"
    "rt_has_active rt'" "st = FAILURE \<longrightarrow> fs' = fs" "st = SUCCESS \<longrightarrow> (\<exists>n. row_added fs fs' (rt_active rt') s n)"
    using insert_stmt_stored [OF inv ok] by blast
  have coh: "coherent fs' (rt_active rt')" using x(2,3) by (simp add: rt_inv_def db_inv_def)
  have eff: "\<exists>name. utils_equals_ignore_case name (ins_table s) \<and> abs_db fs' = abs_insert (abs_db fs) name s"
    if done_ok: "st = SUCCESS"
  proof -
    obtain n where n: "row_added fs fs' (rt_active rt') s n" using x(5) done_ok by blast
    then have "utils_equals_ignore_case (tr_name (rt_active rt')) (ins_table s)" unfolding row_added_def by blast
    then show ?thesis using row_added_abs [OF n coh] by blast
  qed
  have "sql_effect sql (abs_db fs) st (abs_db fs')"
    using eff x(4) SQL_INSERT stmt(1) by (cases st) (simp_all add: sql_effect_def)
  then show ?thesis using x(1,2) SQL_INSERT by simp
next
  case (SQL_SELECT s)
  have "sel_table s \<noteq> []" "wf_name (sel_table s)"
    using name_ok_plain [OF statement_names(1) [OF stmt(1)]] statement_wf [OF stmt(1)] SQL_SELECT by simp_all
  then obtain rt' r' st where "executor_execute_select fs rt s r = Some (rt', r', st)" "rt_inv fs rt'"
    using select_stmt_stored [OF inv, of s r] by (metis prod.exhaust)
  then show ?thesis using SQL_SELECT stmt(1) by (simp add: sql_effect_def)
next
  case (SQL_DELETE s)
  then show ?thesis using inv stmt(1)
    by (auto simp: executor_execute_delete_def db_result_set_error_def sql_effect_def)
qed

lemma execute_sql_inv:
  assumes inv: "en_inv en" "en_initialized en" and keep: "\<forall>stmt. statement_of sql = Some stmt \<longrightarrow> keepable stmt"
  shows "\<exists>en' r st. db_execute_sql en sql = Some (en', r, st) \<and> en_inv en' \<and> en_initialized en' \<and>
     sql_effect sql (abs_db (en_files en)) st (abs_db (en_files en'))"
proof -
  have c: "cache_inv (en_tokenizer en)" "rt_inv (en_files en) (en_runtime en)" using inv by (auto simp: en_inv_def)
  show ?thesis
  proof (cases "statement_of sql")
    case None
    then show ?thesis using execute_sql_rejected [OF c(1) inv(2) None] c(2) inv(2)
      by (auto simp: en_inv_def sql_effect_def db_engine_fail_def)
  next
    case (Some stmt)
    obtain fs rt r st where "executor_execute_into_result (en_files en) (en_runtime en) stmt db_result_init = Some (fs, rt, r, st)"
      "rt_inv fs rt" "sql_effect sql (abs_db (en_files en)) st (abs_db fs)"
      using execute_stored [OF c(2) Some] keep Some by blast
    then show ?thesis using execute_sql_parsed [OF c(1) inv(2) Some] inv(2) by (auto simp: en_inv_def)
  qed
qed

section \<open>Scripts\<close>

text \<open>A sequence of calls, and the abstract databases it may end in.\<close>

fun run_script :: "db_engine \<Rightarrow> string list \<Rightarrow> (db_engine \<times> status list) option" where
  "run_script en [] = Some (en, [])"
| "run_script en (sql # sqls) = do {
     (en1, r, st) \<leftarrow> db_execute_sql en sql;
     (en2, sts) \<leftarrow> run_script en1 sqls;
     Some (en2, st # sts)
   }"

inductive script_effect :: "string list \<Rightarrow> (string \<rightharpoonup> string list \<times> string list list) \<Rightarrow> status list \<Rightarrow>
    (string \<rightharpoonup> string list \<times> string list list) \<Rightarrow> bool" where
  no_more: "script_effect [] db [] db"
| one_more: "sql_effect sql db st db1 \<Longrightarrow> script_effect sqls db1 sts db2 \<Longrightarrow>
    script_effect (sql # sqls) db (st # sts) db2"

lemma run_script_safe:
  "en_safe en \<Longrightarrow> \<exists>en' sts. run_script en sqls = Some (en', sts) \<and> en_safe en' \<and> length sts = length sqls"
proof (induction sqls arbitrary: en)
  case (Cons sql sqls)
  obtain en1 r st where e: "db_execute_sql en sql = Some (en1, r, st)" "en_safe en1"
    using execute_sql_safe [OF Cons.prems] by blast
  then show ?case using Cons.IH [OF e(2)] by auto
qed simp

lemma run_script_inv:
  "en_inv en \<Longrightarrow> en_initialized en \<Longrightarrow> \<forall>sql \<in> set sqls. \<forall>stmt. statement_of sql = Some stmt \<longrightarrow> keepable stmt \<Longrightarrow>
   \<exists>en' sts. run_script en sqls = Some (en', sts) \<and> en_inv en' \<and>
     script_effect sqls (abs_db (en_files en)) sts (abs_db (en_files en'))"
proof (induction sqls arbitrary: en)
  case Nil
  then show ?case using no_more by simp
next
  case (Cons sql sqls)
  obtain en1 r st where e: "db_execute_sql en sql = Some (en1, r, st)" "en_inv en1" "en_initialized en1"
    "sql_effect sql (abs_db (en_files en)) st (abs_db (en_files en1))"
    using execute_sql_inv [OF Cons.prems(1,2), of sql] Cons.prems(3) by auto
  obtain en2 sts where "run_script en1 sqls = Some (en2, sts)" "en_inv en2"
    "script_effect sqls (abs_db (en_files en1)) sts (abs_db (en_files en2))"
    using Cons.IH [OF e(2,3)] Cons.prems(3) by auto
  then show ?case using e one_more [OF e(4)] by auto
qed

section \<open>Locking around a call\<close>

definition locks_free :: "lock_manager_state \<Rightarrow> bool" where
  "locks_free lm \<longleftrightarrow> lm_initialized lm \<and> lm_db_mutex lm = None \<and> lm_writer lm = None \<and> lm_readers lm = []"

lemma lock_unlock:
  assumes "locks_free lm"
  shows "\<exists>lm'. lock_db_for_query i mode lm = Some (lm', SUCCESS) \<and> unlock_db_for_query i mode lm' = lm"
  using assms by (cases mode; cases "lm_policy lm") (auto simp: locks_free_def lock_db_for_query_def unlock_db_for_query_def)

lemma locked_call:
  assumes lk: "locks_free lm" and en: "cache_inv (en_tokenizer en)" "en_initialized en" "rt_safe (en_runtime en)"
  shows "\<exists>tok fs rt out. cache_inv tok \<and> run_sql (en_files en) (en_runtime en) sql = Some (fs, rt, out) \<and> rt_safe rt \<and>
     execute_query_with_lock i en lm (Some sql) r =
       Some (en\<lparr>en_tokenizer := tok, en_files := fs, en_runtime := rt\<rparr>, lm, out)"
proof -
  obtain tok parsed where p: "db_engine_parse_statement (en_tokenizer en) sql = (tok, parsed)" by fastforce
  have tok: "cache_inv tok" using parse_statement_eq [OF en(1), of sql] p by simp
  let ?en1 = "en\<lparr>en_tokenizer := tok\<rparr>" and ?m = "db_engine_choose_initial_lock_mode parsed"
  obtain lm1 where l1: "lock_db_for_query i ?m lm = Some (lm1, SUCCESS)" "unlock_db_for_query i ?m lm1 = lm"
    using lock_unlock [OF lk] by blast
  obtain lm2 where l2: "lock_db_for_query i QUERY_LOCK_WRITE lm = Some (lm2, SUCCESS)" "unlock_db_for_query i QUERY_LOCK_WRITE lm2 = lm"
    using lock_unlock [OF lk] by blast
  obtain fs rt ou st where run: "run_sql (en_files en) (en_runtime en) sql = Some (fs, rt, ou, st)" "rt_safe rt"
    using run_sql_safe [OF en(3)] by blast
  obtain tok2 where x: "cache_inv tok2" "db_execute_sql ?en1 sql =
      Some (?en1\<lparr>en_tokenizer := tok2, en_files := fs, en_runtime := rt\<rparr>, ou, st)"
    using execute_sql_run [of ?en1 sql] tok en(2) run(1) by auto
  have "execute_query_with_lock i en lm (Some sql) r =
      Some (en\<lparr>en_tokenizer := tok2, en_files := fs, en_runtime := rt\<rparr>, lm, ou, st)"
    using p l1 l2 x(2)
    by (auto simp: execute_query_with_lock_def db_engine_choose_initial_lock_mode_def
        split: option.splits sql_statement.splits)
  then show ?thesis using x(1) run by blast
qed

section \<open>Shutdown\<close>

lemma cleanup_ok:
  assumes "rt_safe rt"
  shows "\<exists>rt'. table_runtime_cleanup rt = Some rt' \<and> rt_safe rt' \<and> \<not> rt_has_active rt' \<and> cells (rt_heap rt') = Map.empty"
proof (cases "rt_has_active rt")
  case True
  then obtain m where "bp_owns (rt_heap rt) (tr_root (rt_active rt)) m" "bp_memory (rt_heap rt)"
    using assms by (auto simp: rt_safe_def table_safe_def)
  then show ?thesis using True table_free_ok by (fastforce simp: table_runtime_cleanup_def rt_safe_def)
next
  case False
  then show ?thesis using assms by (simp add: table_runtime_cleanup_def rt_safe_def)
qed

section \<open>Properties\<close>

definition fresh_engine :: "file_system \<Rightarrow> db_engine" where
  "fresh_engine fs = \<lparr>en_initialized = True, en_tokenizer = tokenizer_initial, en_runtime = fresh_runtime, en_files = fs\<rparr>"

lemma fresh_engine_safe: "en_safe (fresh_engine fs)"
  using fresh_inv rt_inv_safe stored_empty cache_inv_initial by (simp add: en_safe_def fresh_engine_def) blast

lemma fresh_engine_inv: "stored_tables fs \<Longrightarrow> en_inv (fresh_engine fs)"
  using fresh_inv cache_inv_initial by (simp add: en_inv_def fresh_engine_def)


text \<open>
  C1: on a data directory written by the program, a sequence of SQL texts acts on the stored tables
  like the abstract database: an accepted INSERT adds one row with the next id to its table (and
  creates the table if needed), and every other call, rejected or not, changes no table.  The values
  must be free of line breaks and the columns of an INSERT distinct.
\<close>

theorem script_refines_database:
  assumes "stored_tables fs" "\<forall>sql \<in> set sqls. \<forall>stmt. statement_of sql = Some stmt \<longrightarrow> keepable stmt"
  shows "\<exists>en' sts. run_script (fresh_engine fs) sqls = Some (en', sts) \<and> stored_tables (en_files en') \<and>
     script_effect sqls (abs_db fs) sts (abs_db (en_files en'))"
proof -
  obtain en' sts where "run_script (fresh_engine fs) sqls = Some (en', sts)" "en_inv en'"
    "script_effect sqls (abs_db (en_files (fresh_engine fs))) sts (abs_db (en_files en'))"
    using run_script_inv [OF fresh_engine_inv [OF assms(1)] _ assms(2)] by (auto simp: fresh_engine_def)
  moreover from this have "stored_tables (en_files en')"
    by (auto simp: en_inv_def rt_inv_def db_inv_def split: if_splits)
  ultimately show ?thesis by (auto simp: fresh_engine_def)
qed

definition sample_script :: "string list" where
  "sample_script = [''INSERT INTO t (a) VALUES (1);'', ''SELECT * FROM t'', ''what?'']"

theorem script_refines_database_witness:
  "\<exists>en' sts. run_script (fresh_engine empty_fs) sample_script = Some (en', sts) \<and> stored_tables (en_files en') \<and>
     script_effect sample_script (abs_db empty_fs) sts (abs_db (en_files en'))"
proof (rule script_refines_database [OF stored_empty])
  have "list_all (\<lambda>sql. case statement_of sql of None \<Rightarrow> True | Some stmt \<Rightarrow> keepable stmt) sample_script" by code_simp
  then show "\<forall>sql \<in> set sample_script. \<forall>stmt. statement_of sql = Some stmt \<longrightarrow> keepable stmt"
    by (auto simp: list_all_iff split: option.splits)
qed

text \<open>
  C38: the table name of every accepted statement consists of letters, digits and underscores or is a
  single star: it is not empty and holds no slash and no dot, so the table file always lies
  directly in the data directory.
\<close>

theorem table_names_confined:
  assumes "statement_of sql = Some stmt"
  shows "\<exists>name. storage_build_path (table_of stmt) = Some (''data/'' @ name @ ''.csv'') \<and> name \<noteq> [] \<and>
     CHR ''/'' \<notin> set name \<and> CHR ''.'' \<notin> set name"
proof -
  have "length (table_of stmt) < MAX_IDENTIFIER_LEN"
    using statement_wf [OF assms] by (cases stmt) (auto simp: wf_name_def)
  then show ?thesis using build_path_ok name_ok_plain [OF statement_names(1) [OF assms]] by blast
qed

theorem table_names_confined_witness:
  "\<exists>name. storage_build_path (table_of (SQL_SELECT \<lparr>sel_table = ''t'', sel_columns = [], sel_where = None\<rparr>)) =
      Some (''data/'' @ name @ ''.csv'') \<and> name \<noteq> [] \<and> CHR ''/'' \<notin> set name \<and> CHR ''.'' \<notin> set name"
  by (rule table_names_confined [of "''SELECT * FROM t''"]) code_simp

text \<open>
  A call through the locks with no other thread active returns what the unlocked execution
  returns and leaves every lock free again, also when the shared lock was exchanged for the
  exclusive one on the way.
\<close>

theorem locked_call_releases:
  assumes "locks_free lm" "cache_inv (en_tokenizer en)" "en_initialized en" "rt_safe (en_runtime en)"
  shows "\<exists>en' out. execute_query_with_lock i en lm (Some sql) r = Some (en', lm, out) \<and>
     run_sql (en_files en) (en_runtime en) sql = Some (en_files en', en_runtime en', out) \<and> rt_safe (en_runtime en')"
  using locked_call [OF assms, of sql i r] by auto

theorem locked_call_releases_witness:
  "\<exists>en' out. execute_query_with_lock 3 (fresh_engine empty_fs)
      (fst (init_lock_manager (True, True, True) LOCK_POLICY_SPLIT_RWLOCK lock_manager_zero)) (Some ''SELECT * FROM t'') db_result_init =
      Some (en', fst (init_lock_manager (True, True, True) LOCK_POLICY_SPLIT_RWLOCK lock_manager_zero), out) \<and>
     run_sql (en_files (fresh_engine empty_fs)) (en_runtime (fresh_engine empty_fs)) ''SELECT * FROM t'' =
       Some (en_files en', en_runtime en', out) \<and> rt_safe (en_runtime en')"
proof (rule locked_call_releases)
  show "locks_free (fst (init_lock_manager (True, True, True) LOCK_POLICY_SPLIT_RWLOCK lock_manager_zero))" by code_simp
  show "cache_inv (en_tokenizer (fresh_engine empty_fs))" "rt_safe (en_runtime (fresh_engine empty_fs))"
    using fresh_engine_safe by (simp_all add: en_safe_def)
qed (simp add: fresh_engine_def)

text \<open>
  C37: shutting the engine down frees every node of the index, empties the token cache and destroys
  the locks, and keeps the files.
\<close>

theorem shutdown_frees_everything:
  assumes "en_safe en"
  shows "\<exists>en' lm'. db_engine_shutdown en lm = Some (en', lm') \<and> \<not> en_initialized en' \<and>
     cells (rt_heap (en_runtime en')) = Map.empty \<and> tokenizer_get_cache_entry_count (en_tokenizer en') = 0 \<and>
     en_files en' = en_files en \<and> \<not> lm_initialized lm'"
  using cleanup_ok [of "en_runtime en"] assms
  by (auto simp: db_engine_shutdown_def en_safe_def destroy_lock_manager_def lock_manager_zero_def
      tokenizer_cleanup_cache_def tokenizer_get_cache_entry_count_def)

theorem shutdown_frees_everything_witness:
  "\<exists>en' lm'. db_engine_shutdown (fresh_engine empty_fs) lock_manager_zero = Some (en', lm') \<and> \<not> en_initialized en' \<and>
     cells (rt_heap (en_runtime en')) = Map.empty \<and> tokenizer_get_cache_entry_count (en_tokenizer en') = 0 \<and>
     en_files en' = en_files (fresh_engine empty_fs) \<and> \<not> lm_initialized lm'"
  by (rule shutdown_frees_everything [OF fresh_engine_safe])

end
