(* ===== verification/Engine_Concurrent.thy ===== *)
theory Engine_Concurrent
  imports Engine_Correct
begin

text \<open>
  Concurrent calls of \<^verbatim>\<open>execute_query_with_lock\<close>.  Each thread walks through the phases of
  the function; the steps of different threads interleave.  A running query works on the
  files and the runtime as it found them when it entered \<^verbatim>\<open>db_execute_sql\<close> and publishes its
  result when it leaves: a lock protocol that let two such queries overlap would lose
  updates in this model.  Parsing uses the token cache, whose interleavings do not show
  (theory \<open>Tokenizer_Correct\<close>), so a phase depends on the statement of its text only.
  The history of finished queries is a ghost variable.
\<close>

section \<open>Threads\<close>

datatype phase =
    Arrived string
  | Waiting string query_lock_mode
  | Checking string select_statement
  | Upgrading string
  | Running string query_lock_mode file_system runtime_state
  | Unlocking query_lock_mode db_result status
  | Answered db_result status

record shared =
  sh_files :: file_system
  sh_runtime :: runtime_state
  sh_locks :: lock_manager_state
  sh_history :: "(string \<times> db_result \<times> status) list"

type_synonym system = "shared \<times> (nat \<Rightarrow> phase)"

definition lock_error :: "string \<Rightarrow> phase" where
  "lock_error message = (case db_engine_fail db_result_init message of (r, st) \<Rightarrow> Answered r st)"

text \<open>After the first lock is taken: a SELECT under the read lock checks the table first.\<close>

definition after_lock :: "shared \<Rightarrow> string \<Rightarrow> query_lock_mode \<Rightarrow> phase" where
  "after_lock sh sql mode = (case (mode, statement_of sql) of
     (QUERY_LOCK_READ, Some (SQL_SELECT s)) \<Rightarrow> Checking sql s
   | _ \<Rightarrow> Running sql mode (sh_files sh) (sh_runtime sh))"

inductive query_step :: "system \<Rightarrow> system \<Rightarrow> bool" where
  parse: "ph i = Arrived sql \<Longrightarrow>
    query_step (sh, ph) (sh, ph(i := Waiting sql (db_engine_choose_initial_lock_mode (statement_of sql))))"
| refused: "ph i = Waiting sql mode \<Longrightarrow> lock_db_for_query i mode (sh_locks sh) = Some (lm, FAILURE) \<Longrightarrow>
    query_step (sh, ph) (sh\<lparr>sh_locks := lm\<rparr>, ph(i := lock_error ''Failed to acquire DB lock.''))"
| locked: "ph i = Waiting sql mode \<Longrightarrow> lock_db_for_query i mode (sh_locks sh) = Some (lm, SUCCESS) \<Longrightarrow>
    query_step (sh, ph) (sh\<lparr>sh_locks := lm\<rparr>, ph(i := after_lock sh sql mode))"
| loaded: "ph i = Checking sql s \<Longrightarrow> table_runtime_is_loaded_for (sh_runtime sh) (sel_table s) \<Longrightarrow>
    query_step (sh, ph) (sh, ph(i := Running sql QUERY_LOCK_READ (sh_files sh) (sh_runtime sh)))"
| release: "ph i = Checking sql s \<Longrightarrow> \<not> table_runtime_is_loaded_for (sh_runtime sh) (sel_table s) \<Longrightarrow>
    query_step (sh, ph) (sh\<lparr>sh_locks := unlock_db_for_query i QUERY_LOCK_READ (sh_locks sh)\<rparr>, ph(i := Upgrading sql))"
| upgrade_refused: "ph i = Upgrading sql \<Longrightarrow>
    lock_db_for_query i QUERY_LOCK_WRITE (sh_locks sh) = Some (lm, FAILURE) \<Longrightarrow>
    query_step (sh, ph) (sh\<lparr>sh_locks := lm\<rparr>, ph(i := lock_error ''Failed to upgrade DB lock.''))"
| upgraded: "ph i = Upgrading sql \<Longrightarrow>
    lock_db_for_query i QUERY_LOCK_WRITE (sh_locks sh) = Some (lm, SUCCESS) \<Longrightarrow>
    query_step (sh, ph) (sh\<lparr>sh_locks := lm\<rparr>,
      ph(i := Running sql QUERY_LOCK_WRITE (sh_files sh) (sh_runtime sh)))"
| finish: "ph i = Running sql mode fs rt \<Longrightarrow> run_sql fs rt sql = Some (fs', rt', r, st) \<Longrightarrow>
    query_step (sh, ph) (sh\<lparr>sh_files := fs', sh_runtime := rt', sh_history := sh_history sh @ [(sql, r, st)]\<rparr>,
      ph(i := Unlocking mode r st))"
| unlock: "ph i = Unlocking mode r st \<Longrightarrow>
    query_step (sh, ph) (sh\<lparr>sh_locks := unlock_db_for_query i mode (sh_locks sh)\<rparr>, ph(i := Answered r st))"

section \<open>The lock protocol\<close>

fun holds_read :: "phase \<Rightarrow> bool" where
  "holds_read (Checking sql s) = True"
| "holds_read (Running sql mode fs rt) = (mode = QUERY_LOCK_READ)"
| "holds_read (Unlocking mode r st) = (mode = QUERY_LOCK_READ)"
| "holds_read _ = False"

fun holds_write :: "phase \<Rightarrow> bool" where
  "holds_write (Running sql mode fs rt) = (mode = QUERY_LOCK_WRITE)"
| "holds_write (Unlocking mode r st) = (mode = QUERY_LOCK_WRITE)"
| "holds_write _ = False"

definition lock_inv :: "lock_manager_state \<Rightarrow> (nat \<Rightarrow> phase) \<Rightarrow> bool" where
  "lock_inv lm ph \<longleftrightarrow> lm_initialized lm \<and> lm_policy lm = LOCK_POLICY_SPLIT_RWLOCK \<and> distinct (lm_readers lm) \<and>
     (\<forall>i. i \<in> set (lm_readers lm) \<longleftrightarrow> holds_read (ph i)) \<and> (\<forall>i. lm_writer lm = Some i \<longleftrightarrow> holds_write (ph i)) \<and>
     (lm_writer lm \<noteq> None \<longrightarrow> lm_readers lm = [])"

lemma lock_same:
  assumes "lock_inv lm ph" "holds_read p = holds_read (ph i)" "holds_write p = holds_write (ph i)"
  shows "lock_inv lm (ph(i := p))"
  using assms by (auto simp: lock_inv_def)

lemma lock_taken:
  assumes inv: "lock_inv lm ph" and free: "\<not> holds_read (ph i)" "\<not> holds_write (ph i)"
    and lk: "lock_db_for_query i mode lm = Some (lm', SUCCESS)"
    and p: "holds_read p \<longleftrightarrow> mode = QUERY_LOCK_READ" "holds_write p \<longleftrightarrow> mode = QUERY_LOCK_WRITE"
  shows "lock_inv lm' (ph(i := p))"
proof (cases mode)
  case QUERY_LOCK_READ
  then have "lm_writer lm = None" "lm' = lm\<lparr>lm_readers := i # lm_readers lm\<rparr>"
    using inv lk by (auto simp: lock_inv_def lock_db_for_query_def split: if_splits)
  then show ?thesis using inv free p QUERY_LOCK_READ by (auto simp: lock_inv_def)
next
  case QUERY_LOCK_WRITE
  then have "lm_writer lm = None" "lm_readers lm = []" "lm' = lm\<lparr>lm_writer := Some i\<rparr>"
    using inv lk by (auto simp: lock_inv_def lock_db_for_query_def split: if_splits)
  then show ?thesis using inv free p QUERY_LOCK_WRITE by (auto simp: lock_inv_def)
qed

lemma lock_released:
  assumes inv: "lock_inv lm ph" and held: "holds_read (ph i) \<noteq> holds_write (ph i)"
    and p: "\<not> holds_read p" "\<not> holds_write p"
  shows "lock_inv (unlock_db_for_query i mode lm) (ph(i := p))"
proof (cases "holds_write (ph i)")
  case True
  then have "unlock_db_for_query i mode lm = lm\<lparr>lm_writer := None\<rparr>"
    using inv by (auto simp: lock_inv_def unlock_db_for_query_def)
  moreover have "\<not> holds_write (ph j)" if "j \<noteq> i" for j
    using inv True that by (metis lock_inv_def option.inject)
  moreover have "lm_readers lm = []" using inv True by (auto simp: lock_inv_def)
  ultimately show ?thesis using inv p by (auto simp: lock_inv_def)
next
  case False
  then have "unlock_db_for_query i mode lm = lm\<lparr>lm_readers := remove1 i (lm_readers lm)\<rparr>"
    using inv by (auto simp: lock_inv_def unlock_db_for_query_def)
  moreover have "lm_writer lm = None" using inv held False by (auto simp: lock_inv_def)
  ultimately show ?thesis using inv p held False by (auto simp: lock_inv_def)
qed

lemma lock_never_refused:
  "lock_inv lm ph \<Longrightarrow> lock_db_for_query i mode lm = Some (lm', st) \<Longrightarrow> st = SUCCESS"
  by (auto simp: lock_inv_def lock_db_for_query_def split: if_splits)

section \<open>The invariant of the system\<close>

fun phase_ok :: "shared \<Rightarrow> phase \<Rightarrow> bool" where
  "phase_ok sh (Waiting sql mode) \<longleftrightarrow> mode = db_engine_choose_initial_lock_mode (statement_of sql)"
| "phase_ok sh (Checking sql s) \<longleftrightarrow> statement_of sql = Some (SQL_SELECT s)"
| "phase_ok sh (Running sql mode fs rt) \<longleftrightarrow> fs = sh_files sh \<and> rt = sh_runtime sh \<and>
     (mode = QUERY_LOCK_READ \<longrightarrow>
        (\<exists>s. statement_of sql = Some (SQL_SELECT s) \<and> table_runtime_is_loaded_for rt (sel_table s)))"
| "phase_ok sh _ \<longleftrightarrow> True"

text \<open>The sequential execution of a list of queries.\<close>

fun seq_run :: "file_system \<Rightarrow> runtime_state \<Rightarrow> string list \<Rightarrow>
    (file_system \<times> runtime_state \<times> (string \<times> db_result \<times> status) list) option" where
  "seq_run fs rt [] = Some (fs, rt, [])"
| "seq_run fs rt (sql # sqls) = do {
     (fs1, rt1, r, st) \<leftarrow> run_sql fs rt sql;
     (fs2, rt2, outs) \<leftarrow> seq_run fs1 rt1 sqls;
     Some (fs2, rt2, (sql, r, st) # outs)
   }"

lemma seq_run_snoc:
  "seq_run fs rt sqls = Some (fs1, rt1, outs) \<Longrightarrow> run_sql fs1 rt1 sql = Some (fs2, rt2, r, st) \<Longrightarrow>
   seq_run fs rt (sqls @ [sql]) = Some (fs2, rt2, outs @ [(sql, r, st)])"
proof (induction sqls arbitrary: fs rt outs)
  case (Cons q sqls)
  obtain fs' rt' r' st' outs' where a: "run_sql fs rt q = Some (fs', rt', r', st')"
    "seq_run fs' rt' sqls = Some (fs1, rt1, outs')" "outs = (q, r', st') # outs'"
    using Cons.prems(1) by (auto split: bind_splits)
  then show ?case using Cons.IH [OF a(2) Cons.prems(2)] by simp
qed simp

definition system_inv :: "file_system \<Rightarrow> runtime_state \<Rightarrow> system \<Rightarrow> bool" where
  "system_inv fs0 rt0 = (\<lambda>(sh, ph). lock_inv (sh_locks sh) ph \<and> rt_safe (sh_runtime sh) \<and> (\<forall>i. phase_ok sh (ph i)) \<and>
     seq_run fs0 rt0 (map fst (sh_history sh)) = Some (sh_files sh, sh_runtime sh, sh_history sh))"

lemma phase_ok_cong:
  "sh_files sh' = sh_files sh \<Longrightarrow> sh_runtime sh' = sh_runtime sh \<Longrightarrow> phase_ok sh' p = phase_ok sh p"
  by (cases p) auto

lemma phase_ok_other:
  "phase_ok sh p \<Longrightarrow> \<not> holds_read p \<Longrightarrow> \<not> holds_write p \<Longrightarrow> phase_ok sh' p"
  by (cases p) (auto intro: query_lock_mode.exhaust)

text \<open>Steps that leave files, runtime and history alone.\<close>

lemma quiet_step:
  assumes "system_inv fs0 rt0 (sh, ph)" "lock_inv lm (ph(i := p))" "phase_ok sh p"
  shows "system_inv fs0 rt0 (sh\<lparr>sh_locks := lm\<rparr>, ph(i := p))"
  using assms phase_ok_cong [of "sh\<lparr>sh_locks := lm\<rparr>" sh] by (auto simp: system_inv_def)

lemma after_lock_ok:
  assumes "mode = db_engine_choose_initial_lock_mode (statement_of sql)"
  shows "phase_ok sh (after_lock sh sql mode)" "holds_read (after_lock sh sql mode) \<longleftrightarrow> mode = QUERY_LOCK_READ"
    "holds_write (after_lock sh sql mode) \<longleftrightarrow> mode = QUERY_LOCK_WRITE"
  using assms
  by (auto simp: after_lock_def db_engine_choose_initial_lock_mode_def split: option.splits sql_statement.splits)

lemma finish_inv:
  assumes inv: "system_inv fs0 rt0 (sh, ph)" and ph: "ph i = Running sql mode fs rt"
    and run: "run_sql fs rt sql = Some (fs', rt', r, st)"
  shows "system_inv fs0 rt0 (sh\<lparr>sh_files := fs', sh_runtime := rt', sh_history := sh_history sh @ [(sql, r, st)]\<rparr>,
      ph(i := Unlocking mode r st))"
proof -
  let ?sh' = "sh\<lparr>sh_files := fs', sh_runtime := rt', sh_history := sh_history sh @ [(sql, r, st)]\<rparr>"
  have lk: "lock_inv (sh_locks sh) ph" and ok: "\<And>j. phase_ok sh (ph j)" and safe: "rt_safe (sh_runtime sh)"
    and sq: "seq_run fs0 rt0 (map fst (sh_history sh)) = Some (sh_files sh, sh_runtime sh, sh_history sh)"
    using inv by (auto simp: system_inv_def)
  have cur: "fs = sh_files sh" "rt = sh_runtime sh" using ok [of i] ph by auto
  have "phase_ok ?sh' (ph j)" if "j \<noteq> i" for j
  proof (cases mode)
    case QUERY_LOCK_READ
    then have "fs' = fs \<and> rt' = rt" using ok [of i] ph run run_sql_reads_only by auto
    then show ?thesis using ok [of j] cur phase_ok_cong [of ?sh' sh] by simp
  next
    case QUERY_LOCK_WRITE
    then have w: "lm_writer (sh_locks sh) = Some i" using lk ph by (simp add: lock_inv_def)
    then have "\<not> holds_write (ph j)" "\<not> holds_read (ph j)" using lk that by (auto simp: lock_inv_def)
    then show ?thesis using ok [of j] phase_ok_other by blast
  qed
  moreover have "lock_inv (sh_locks sh) (ph(i := Unlocking mode r st))"
    using lk by (rule lock_same) (simp_all add: ph)
  moreover have "rt_safe rt'" using run_sql_safe [OF safe, of fs sql] run cur by auto
  moreover have "seq_run fs0 rt0 (map fst (sh_history ?sh')) = Some (fs', rt', sh_history ?sh')"
    using seq_run_snoc [OF sq] run cur by simp
  ultimately show ?thesis by (simp add: system_inv_def)
qed

lemma query_step_inv:
  assumes "query_step (sh, ph) (sh', ph')" "system_inv fs0 rt0 (sh, ph)"
  shows "system_inv fs0 rt0 (sh', ph')"
proof -
  have lk: "lock_inv (sh_locks sh) ph" and ok: "\<And>i. phase_ok sh (ph i)" using assms(2) by (auto simp: system_inv_def)
  show ?thesis using assms(1)
  proof cases
    case (parse i sql)
    have "lock_inv (sh_locks sh) ph'" unfolding parse using lk by (rule lock_same) (simp_all add: parse)
    then show ?thesis using assms(2) parse by (auto simp: system_inv_def)
  next
    case (refused i sql mode lm)
    then show ?thesis using lock_never_refused [OF lk] by blast
  next
    case (locked i sql mode lm)
    have m: "mode = db_engine_choose_initial_lock_mode (statement_of sql)" using ok [of i] locked by simp
    have "lock_inv lm (ph(i := after_lock sh sql mode))"
      using locked after_lock_ok(2,3) [OF m] by (intro lock_taken [OF lk _ _ locked(4)]) auto
    then show ?thesis using quiet_step [OF assms(2) _ after_lock_ok(1) [OF m]] locked by simp
  next
    case (loaded i sql s)
    let ?p = "Running sql QUERY_LOCK_READ (sh_files sh) (sh_runtime sh)"
    have "lock_inv (sh_locks sh) (ph(i := ?p))" using lk by (rule lock_same) (simp_all add: loaded)
    moreover have "phase_ok sh ?p" using ok [of i] loaded by auto
    ultimately show ?thesis using quiet_step [OF assms(2), of "sh_locks sh"] loaded by simp
  next
    case (release i sql s)
    have "lock_inv (unlock_db_for_query i QUERY_LOCK_READ (sh_locks sh)) (ph(i := Upgrading sql))"
      by (rule lock_released [OF lk]) (simp_all add: release)
    then show ?thesis using quiet_step [OF assms(2)] release by simp
  next
    case (upgrade_refused i sql lm)
    then show ?thesis using lock_never_refused [OF lk] by blast
  next
    case (upgraded i sql lm)
    let ?p = "Running sql QUERY_LOCK_WRITE (sh_files sh) (sh_runtime sh)"
    have "lock_inv lm (ph(i := ?p))" using upgraded by (intro lock_taken [OF lk _ _ upgraded(4)]) auto
    then show ?thesis using quiet_step [OF assms(2), of lm i ?p] upgraded by simp
  next
    case (finish i sql mode fs rt fs' rt' r st)
    then show ?thesis using finish_inv [OF assms(2) finish(3,4)] by simp
  next
    case (unlock i mode r st)
    have "lock_inv (unlock_db_for_query i mode (sh_locks sh)) (ph(i := Answered r st))"
      by (rule lock_released [OF lk]) (cases mode; simp add: unlock)+
    then show ?thesis using quiet_step [OF assms(2)] unlock by simp
  qed
qed

interpretation queries: invariant_steps query_step "system_inv fs0 rt0" for fs0 rt0
  by unfold_locales (metis query_step_inv prod.exhaust)

section \<open>Start and progress\<close>

definition start_system :: "file_system \<Rightarrow> runtime_state \<Rightarrow> string list \<Rightarrow> system" where
  "start_system fs rt sqls =
     (\<lparr>sh_files = fs, sh_runtime = rt,
        sh_locks = fst (init_lock_manager (True, True, True) LOCK_POLICY_SPLIT_RWLOCK lock_manager_zero), sh_history = []\<rparr>,
      \<lambda>i. if i < length sqls then Arrived (sqls ! i) else Answered db_result_init SUCCESS)"

lemma start_inv: "rt_safe rt \<Longrightarrow> system_inv fs rt (start_system fs rt sqls)"
  by (auto simp: system_inv_def start_system_def lock_inv_def init_lock_manager_def lock_manager_zero_def)

lemma reachable_inv:
  "rt_safe rt \<Longrightarrow> query_step\<^sup>*\<^sup>* (start_system fs rt sqls) (sh, ph) \<Longrightarrow> system_inv fs rt (sh, ph)"
  using queries.steps_inv start_inv by blast

definition answered :: "phase \<Rightarrow> bool" where
  "answered p = (case p of Answered r st \<Rightarrow> True | _ \<Rightarrow> False)"

text \<open>A thread that holds a lock can always take its next step.\<close>

lemma holder_moves:
  assumes inv: "system_inv fs0 rt0 (sh, ph)" and held: "holds_read (ph i) \<or> holds_write (ph i)"
  shows "\<exists>s'. query_step (sh, ph) s'"
proof (cases "ph i")
  case (Checking sql s)
  then show ?thesis using query_step.loaded query_step.release by blast
next
  case (Running sql mode fs rt)
  have "rt_safe rt" using inv Running by (metis (mono_tags, lifting) case_prodD phase_ok.simps(3) system_inv_def)
  then obtain fs' rt' r st where "run_sql fs rt sql = Some (fs', rt', r, st)" using run_sql_safe by blast
  then show ?thesis using query_step.finish [of ph i sql mode fs rt] Running by blast
next
  case (Unlocking mode r st)
  then show ?thesis using query_step.unlock by blast
qed (use held in simp_all)

lemma lock_or_holder:
  assumes "lock_inv lm ph"
  shows "(\<exists>lm'. lock_db_for_query i mode lm = Some (lm', SUCCESS)) \<or> (\<exists>j. holds_read (ph j) \<or> holds_write (ph j))"
proof (cases "lm_writer lm = None \<and> lm_readers lm = []")
  case True
  then show ?thesis using assms by (cases mode) (auto simp: lock_inv_def lock_db_for_query_def)
next
  case False
  then show ?thesis using assms by (auto simp: lock_inv_def neq_Nil_conv)
qed

lemma no_deadlock:
  assumes inv: "system_inv fs0 rt0 (sh, ph)" and open_call: "\<not> answered (ph i)"
  shows "\<exists>s'. query_step (sh, ph) s'"
proof (cases "ph i")
  case (Arrived sql)
  then show ?thesis using query_step.parse by blast
next
  case (Waiting sql mode)
  then show ?thesis using lock_or_holder [of "sh_locks sh" ph i mode] holder_moves [OF inv] inv query_step.locked [of ph i sql mode sh]
    by (auto simp: system_inv_def)
next
  case (Upgrading sql)
  then show ?thesis using lock_or_holder [of "sh_locks sh" ph i QUERY_LOCK_WRITE] holder_moves [OF inv] inv
      query_step.upgraded [of ph i sql sh] by (auto simp: system_inv_def)
next
  case (Answered r st)
  then show ?thesis using open_call by (simp add: answered_def)
next
  case (Running sql mode fs rt)
  then show ?thesis using holder_moves [OF inv, of i] by (cases mode) simp_all
next
  case (Unlocking mode r st)
  then show ?thesis using query_step.unlock by blast
qed (use holder_moves [OF inv, of i] in simp)

text \<open>Every step brings one call nearer to its answer.\<close>

fun steps_left :: "phase \<Rightarrow> nat" where
  "steps_left (Arrived sql) = 6"
| "steps_left (Waiting sql mode) = 5"
| "steps_left (Checking sql s) = 4"
| "steps_left (Upgrading sql) = 3"
| "steps_left (Running sql mode fs rt) = 2"
| "steps_left (Unlocking mode r st) = 1"
| "steps_left (Answered r st) = 0"

lemma after_lock_steps: "steps_left (after_lock sh sql mode) \<le> 4"
  by (auto simp: after_lock_def split: option.splits sql_statement.splits query_lock_mode.splits)

lemma step_decreases:
  assumes "query_step (sh, ph) (sh', ph')"
  shows "\<exists>i p. ph' = ph(i := p) \<and> steps_left p < steps_left (ph i)"
  using assms
proof cases
  case (locked i sql mode lm)
  then show ?thesis using after_lock_steps [of sh sql mode] by (metis le_imp_less_Suc steps_left.simps(2) Suc_numeral semiring_norm(5,2))
qed (auto simp: lock_error_def db_engine_fail_def intro!: exI)

definition calls_left :: "nat \<Rightarrow> system \<Rightarrow> nat" where
  "calls_left n s = (\<Sum>i < n. steps_left (snd s i))"

lemma step_count:
  assumes "query_step s s'" "\<forall>i \<ge> n. steps_left (snd s i) = 0"
  shows "calls_left n s' < calls_left n s \<and> (\<forall>i \<ge> n. steps_left (snd s' i) = 0)"
proof -
  obtain sh ph sh' ph' where s: "s = (sh, ph)" "s' = (sh', ph')" by (cases s, cases s')
  then obtain i p where st: "ph' = ph(i := p)" "steps_left p < steps_left (ph i)" using step_decreases assms(1) by blast
  have i: "i < n" using st(2) assms(2) s by (metis not_less snd_conv not_less_zero)
  have "calls_left n s' < calls_left n s"
    unfolding calls_left_def by (rule sum_strict_mono_ex1) (use st s i in auto)
  then show ?thesis using assms(2) i s st by auto
qed

interpretation calls: terminating_steps query_step "\<lambda>s. \<forall>i \<ge> n. steps_left (snd s i) = 0" "calls_left n" for n
  by unfold_locales (blast dest: step_count)+

lemma start_left: "calls_left (length sqls) (start_system fs rt sqls) = 6 * length sqls"
  "\<forall>i \<ge> length sqls. steps_left (snd (start_system fs rt sqls) i) = 0"
  by (simp_all add: calls_left_def start_system_def)

section \<open>Properties\<close>

lemma fresh_safe: "rt_safe fresh_runtime"
  by (rule rt_inv_safe [OF fresh_inv [OF stored_empty]])

definition one_query :: system where
  "one_query = (let (sh, ph) = start_system empty_fs fresh_runtime [''x''];
     lm = fst (the (lock_db_for_query 0 QUERY_LOCK_WRITE (sh_locks sh)));
     sh' = sh\<lparr>sh_locks := lm\<rparr> in
     (sh', ph(0 := Running ''x'' QUERY_LOCK_WRITE empty_fs fresh_runtime)))"

lemma one_query_reachable: "query_step\<^sup>*\<^sup>* (start_system empty_fs fresh_runtime [''x'']) one_query"
proof -
  let ?sh = "fst (start_system empty_fs fresh_runtime [''x''])" and ?ph = "snd (start_system empty_fs fresh_runtime [''x''])"
  have none: "statement_of ''x'' = None" by code_simp
  have "query_step (?sh, ?ph) (?sh, ?ph(0 := Waiting ''x'' QUERY_LOCK_WRITE))"
    using query_step.parse [of ?ph 0 "''x''" ?sh] none
    by (simp add: start_system_def db_engine_choose_initial_lock_mode_def)
  moreover obtain lm where lm: "lock_db_for_query 0 QUERY_LOCK_WRITE (sh_locks ?sh) = Some (lm, SUCCESS)"
    by (simp add: start_system_def init_lock_manager_def lock_manager_zero_def lock_db_for_query_def)
  moreover have "query_step (?sh, ?ph(0 := Waiting ''x'' QUERY_LOCK_WRITE))
      (?sh\<lparr>sh_locks := lm\<rparr>, ?ph(0 := Waiting ''x'' QUERY_LOCK_WRITE, 0 := after_lock ?sh ''x'' QUERY_LOCK_WRITE))"
    using query_step.locked [of "?ph(0 := Waiting ''x'' QUERY_LOCK_WRITE)" 0 "''x''" QUERY_LOCK_WRITE ?sh lm] lm by simp
  moreover have "after_lock ?sh ''x'' QUERY_LOCK_WRITE = Running ''x'' QUERY_LOCK_WRITE empty_fs fresh_runtime"
    by (simp add: after_lock_def start_system_def)
  ultimately show ?thesis
    by (simp add: one_query_def Let_def case_prod_unfold)
qed

lemma one_query_phase: "snd one_query 0 = Running ''x'' QUERY_LOCK_WRITE empty_fs fresh_runtime"
  by (simp add: one_query_def Let_def case_prod_unfold)

definition one_done :: system where
  "one_done = (let out = db_engine_fail db_result_init (reject_message ''x'') in
     ((fst one_query)\<lparr>sh_files := empty_fs, sh_runtime := fresh_runtime,
        sh_history := sh_history (fst one_query) @ [(''x'', fst out, snd out)]\<rparr>,
      (snd one_query)(0 := Unlocking QUERY_LOCK_WRITE (fst out) (snd out))))"

lemma one_query_pair: "one_query = (fst one_query, snd one_query)"
  by simp

lemma one_done_step: "query_step one_query one_done"
proof -
  let ?out = "db_engine_fail db_result_init (reject_message ''x'')"
  have "statement_of ''x'' = None" by code_simp
  then have run: "run_sql empty_fs fresh_runtime ''x'' = Some (empty_fs, fresh_runtime, fst ?out, snd ?out)"
    by (simp add: run_sql_def)
  show ?thesis unfolding one_done_def Let_def
    by (subst one_query_pair) (rule query_step.finish [of "snd one_query" 0 "''x''" QUERY_LOCK_WRITE empty_fs fresh_runtime
          empty_fs fresh_runtime "fst ?out" "snd ?out" "fst one_query", OF one_query_phase run])
qed

lemma one_done_reachable: "query_step\<^sup>*\<^sup>* (start_system empty_fs fresh_runtime [''x'']) (fst one_done, snd one_done)"
  using one_query_reachable one_done_step by simp

definition one_answered :: system where
  "one_answered = (let out = db_engine_fail db_result_init (reject_message ''x'') in
     ((fst one_done)\<lparr>sh_locks := unlock_db_for_query 0 QUERY_LOCK_WRITE (sh_locks (fst one_done))\<rparr>,
      (snd one_done)(0 := Answered (fst out) (snd out))))"

lemma one_done_phase:
  "snd one_done 0 = Unlocking QUERY_LOCK_WRITE (fst (db_engine_fail db_result_init (reject_message ''x'')))
     (snd (db_engine_fail db_result_init (reject_message ''x'')))"
  by (simp add: one_done_def Let_def)

lemma one_answered_step: "query_step one_done one_answered"
proof -
  have "query_step (fst one_done, snd one_done) one_answered"
    unfolding one_answered_def Let_def
    by (rule query_step.unlock [of "snd one_done" 0 QUERY_LOCK_WRITE, OF one_done_phase])
  then show ?thesis by simp
qed

lemma one_answered_stuck: "\<not> query_step (fst one_answered, snd one_answered) s'"
proof
  assume "query_step (fst one_answered, snd one_answered) s'"
  then obtain i p where "steps_left p < steps_left (snd one_answered i)"
    using step_decreases [of "fst one_answered" "snd one_answered" "fst s'" "snd s'"] by auto
  then show False by (auto simp: one_answered_def one_done_def one_query_def start_system_def Let_def split: if_splits)
qed

text \<open>
  C2: concurrent queries are linearizable: in every reachable state the files, the runtime and all
  answers given so far are those of running the finished queries one after the other, in the
  order in which they finished.
\<close>

theorem queries_linearizable:
  assumes "rt_safe rt" "query_step\<^sup>*\<^sup>* (start_system fs rt sqls) (sh, ph)"
  shows "seq_run fs rt (map fst (sh_history sh)) = Some (sh_files sh, sh_runtime sh, sh_history sh)"
  using reachable_inv [OF assms] by (simp add: system_inv_def)

theorem queries_linearizable_witness:
  "seq_run empty_fs fresh_runtime (map fst (sh_history (fst one_done))) =
   Some (sh_files (fst one_done), sh_runtime (fst one_done), sh_history (fst one_done))"
  by (rule queries_linearizable [OF fresh_safe one_done_reachable])

text \<open>
  C14: the lock protocol excludes: while one thread executes under the exclusive lock no other thread
  holds either lock, and every executing thread still sees the files and the runtime it started
  from, so readers never observe a change.
\<close>

theorem running_queries_undisturbed:
  assumes "rt_safe rt0" "query_step\<^sup>*\<^sup>* (start_system fs0 rt0 sqls) (sh, ph)" "ph i = Running sql mode fs rt"
  shows "fs = sh_files sh \<and> rt = sh_runtime sh \<and>
     (mode = QUERY_LOCK_WRITE \<longrightarrow> (\<forall>j. j \<noteq> i \<longrightarrow> \<not> holds_read (ph j) \<and> \<not> holds_write (ph j)))"
proof -
  have lk: "lock_inv (sh_locks sh) ph" and ok: "phase_ok sh (ph i)"
    using reachable_inv [OF assms(1,2)] by (auto simp: system_inv_def)
  have "\<not> holds_read (ph j) \<and> \<not> holds_write (ph j)" if "mode = QUERY_LOCK_WRITE" "j \<noteq> i" for j
  proof -
    have "lm_writer (sh_locks sh) = Some i" using lk assms(3) that(1) by (simp add: lock_inv_def)
    then show ?thesis using lk that(2) by (auto simp: lock_inv_def)
  qed
  then show ?thesis using ok assms(3) by auto
qed

theorem running_queries_undisturbed_witness:
  "empty_fs = sh_files (fst one_query) \<and> fresh_runtime = sh_runtime (fst one_query) \<and>
   \<not> holds_read (snd one_query 1) \<and> \<not> holds_write (snd one_query 1)"
  using running_queries_undisturbed [of fresh_runtime empty_fs "[''x'']" "fst one_query" "snd one_query" 0 "''x''"
      QUERY_LOCK_WRITE empty_fs fresh_runtime] fresh_safe one_query_reachable one_query_phase
  by simp

text \<open>
  C3: every call is answered: a run of n concurrent calls takes at most 6n steps, whatever the
  scheduling, and when no step is possible any more all calls are answered (no deadlock, also
  around the exchange of the shared lock for the exclusive one).
\<close>

theorem all_queries_answered:
  assumes "rt_safe rt" "(query_step ^^ k) (start_system fs rt sqls) (sh, ph)"
  shows "k \<le> 6 * length sqls \<and> ((\<nexists>s'. query_step (sh, ph) s') \<longrightarrow> (\<forall>i. answered (ph i)))"
proof -
  have "query_step\<^sup>*\<^sup>* (start_system fs rt sqls) (sh, ph)" using assms(2) by (rule relpowp_imp_rtranclp)
  then have "system_inv fs rt (sh, ph)" by (rule reachable_inv [OF assms(1)])
  then have "(\<nexists>s'. query_step (sh, ph) s') \<longrightarrow> (\<forall>i. answered (ph i))" using no_deadlock by blast
  then show ?thesis using calls.run_bounded [OF assms(2) start_left(2)] by (simp add: start_left)
qed

theorem all_queries_answered_witness:
  "2 \<le> 6 * length [''x''] \<and> (\<forall>i. answered (snd one_answered i))"
proof -
  have "\<exists>k \<ge> 2. (query_step ^^ k) (start_system empty_fs fresh_runtime [''x'']) (fst one_answered, snd one_answered)"
  proof -
    obtain k where "(query_step ^^ k) (start_system empty_fs fresh_runtime [''x'']) one_query"
      using one_query_reachable by (auto simp: rtranclp_power)
    then have "(query_step ^^ Suc (Suc k)) (start_system empty_fs fresh_runtime [''x'']) one_answered"
      using one_done_step one_answered_step by auto
    then show ?thesis by (intro exI [of _ "Suc (Suc k)"]) simp
  qed
  then obtain k where "2 \<le> k" "(query_step ^^ k) (start_system empty_fs fresh_runtime [''x'']) (fst one_answered, snd one_answered)"
    by blast
  then show ?thesis using all_queries_answered [OF fresh_safe] one_answered_stuck by (meson le_trans)
qed

end
