(* ===== verification/Result_Shape.thy ===== *)
theory Result_Shape
  imports Engine_Correct
begin

text \<open>
  The shape of the results the engine hands to its clients: at most \<^verbatim>\<open>MAX_COLUMNS\<close> columns
  and a cell for every column in every row, so that the JSON bodies and the printed tables
  never read beyond a row; and a failed call is marked as an error.
\<close>

definition rectangular :: "db_result \<Rightarrow> bool" where
  "rectangular r \<longleftrightarrow> length (res_columns r) \<le> MAX_COLUMNS \<and> (\<forall>row \<in> set (res_rows r). length row = length (res_columns r))"

lemma projected_length: "executor_copy_projected_row row sel = Some v \<Longrightarrow> length v = length sel"
  by (induction sel arbitrary: v) (auto split: bind_splits)

lemma collected_length:
  "executor_collect_rows_by_indices t sel rs = Some (Some rows) \<Longrightarrow> \<forall>row \<in> set rows. length row = length sel"
proof (induction rs arbitrary: rows)
  case (Cons x rs)
  then show ?case by (auto split: option.splits bind_splits dest!: projected_length)
qed simp

lemma all_rows_length:
  "executor_collect_all_rows t sel = Some (Some rows) \<Longrightarrow> \<forall>row \<in> set rows. length row = length sel"
  by (cases "table_linear_scan_by_field t None") (auto simp: executor_collect_all_rows_def dest: collected_length)

lemma scan_rows_length:
  "executor_collect_rows_by_scan t w sel = Some (Some rows) \<Longrightarrow> \<forall>row \<in> set rows. length row = length sel"
  by (cases "table_linear_scan_by_field t (Some w)") (auto simp: executor_collect_rows_by_scan_def dest: collected_length)

lemma id_rows_length:
  assumes "executor_collect_rows_by_id h t k sel = Some (Some rows)"
  shows "\<forall>row \<in> set rows. length row = length sel"
proof -
  obtain found where f: "bptree_search h (tr_root t) k = Some found"
    using assms by (auto simp: executor_collect_rows_by_id_def split: bind_splits)
  then show ?thesis using assms collected_length [of t sel _ rows]
    by (cases found) (auto simp: executor_collect_rows_by_id_def simp del: executor_collect_rows_by_indices.simps)
qed

lemma projection_length: "executor_prepare_projection stmt t = Some (sel, hs) \<Longrightarrow> length hs = length sel"
  using copy_headers_eq by (fastforce simp: executor_prepare_projection_def split: option.splits)

lemma finish_select_shape:
  assumes "executor_finish_select r hs rows used = (r', SUCCESS)" "\<forall>row \<in> set rows. length row = length hs"
  shows "rectangular r' \<and> res_type r' = DB_RESULT_SELECT"
  using assms copy_headers_eq [of hs]
  by (auto simp: executor_finish_select_def executor_copy_headers_to_result_def db_result_set_message_def
      db_result_set_error_def rectangular_def split: if_splits option.splits)

lemma select_loaded_shape:
  assumes "select_loaded h t stmt r = Some (r', SUCCESS)"
  shows "rectangular r' \<and> res_type r' = DB_RESULT_SELECT"
proof -
  have err: "db_result_set_error r m \<noteq> (r', SUCCESS)" for m by (simp add: db_result_set_error_def)
  obtain sel hs where pr: "executor_prepare_projection stmt t = Some (sel, hs)"
    using assms err by (auto simp: select_loaded_def split: if_splits option.splits)
  obtain rows used where fin: "executor_finish_select r hs rows used = (r', SUCCESS)"
    and rows: "executor_collect_all_rows t sel = Some (Some rows) \<or>
      (\<exists>k. executor_collect_rows_by_id h t k sel = Some (Some rows)) \<or>
      (\<exists>w. executor_collect_rows_by_scan t w sel = Some (Some rows))"
    using assms err pr by (fastforce simp: select_loaded_def split: if_splits option.splits bind_splits)
  then have "\<forall>row \<in> set rows. length row = length sel"
    using all_rows_length id_rows_length scan_rows_length by metis
  then show ?thesis using finish_select_shape [OF fin] projection_length [OF pr] by simp
qed

lemma run_sql_shape:
  assumes "run_sql fs rt sql = Some (fs', rt', r, SUCCESS)"
  shows "rectangular r \<and> (res_type r = DB_RESULT_SELECT \<or> res_type r = DB_RESULT_INSERT \<and> res_rows_affected r = 1)"
proof (cases "statement_of sql")
  case None
  then show ?thesis using assms by (simp add: run_sql_def db_engine_fail_def)
next
  case (Some stmt)
  then show ?thesis
  proof (cases stmt)
    case (SQL_INSERT s)
    then show ?thesis using Some assms
      by (auto simp: run_sql_def executor_execute_insert_def executor_finish_insert_def db_result_set_message_def
          db_result_set_error_def db_result_init_def rectangular_def Let_def split: bind_splits if_splits sum.splits)
  next
    case (SQL_SELECT s)
    then show ?thesis using Some assms select_loaded_shape
      by (fastforce simp: run_sql_def executor_execute_select_def db_result_set_error_def Let_def
          split: bind_splits if_splits sum.splits)
  next
    case (SQL_DELETE s)
    then show ?thesis using Some assms by (simp add: run_sql_def executor_execute_delete_def db_result_set_error_def)
  qed
qed

text \<open>Failed calls.\<close>

lemma set_error_fails: "db_result_set_error r m = (r', st) \<Longrightarrow> \<not> res_success r' \<and> st = FAILURE"
  by (auto simp: db_result_set_error_def db_result_set_message_def)

lemma finish_select_fails: "executor_finish_select r hs rows used = (r', FAILURE) \<Longrightarrow> \<not> res_success r'"
  by (auto simp: executor_finish_select_def db_result_set_message_def split: prod.splits status.splits dest: set_error_fails)

lemma select_loaded_fails: "select_loaded h t stmt r = Some (r', FAILURE) \<Longrightarrow> \<not> res_success r'"
  by (auto simp: select_loaded_def split: if_splits option.splits prod.splits bind_splits
      dest: set_error_fails finish_select_fails)

lemma run_sql_fails:
  assumes "run_sql fs rt sql = Some (fs', rt', r, FAILURE)"
  shows "\<not> res_success r"
proof (cases "statement_of sql")
  case None
  then show ?thesis using assms by (auto simp: run_sql_def db_engine_fail_def db_result_set_error_def db_result_set_message_def)
next
  case (Some stmt)
  then show ?thesis
  proof (cases stmt)
    case (SQL_INSERT s)
    then show ?thesis using Some assms
      by (auto simp: run_sql_def executor_execute_insert_def executor_finish_insert_def db_result_set_message_def
          db_result_set_error_def Let_def split: bind_splits if_splits sum.splits)
  next
    case (SQL_SELECT s)
    then show ?thesis using Some assms
      by (auto simp: run_sql_def executor_execute_select_def db_result_set_error_def db_result_set_message_def Let_def
          split: bind_splits if_splits sum.splits dest!: select_loaded_fails)
  next
    case (SQL_DELETE s)
    then show ?thesis using Some assms by (auto simp: run_sql_def executor_execute_delete_def dest: set_error_fails)
  qed
qed

end
