(* ===== verification/Job_Queue.thy ===== *)
theory Job_Queue
  imports Prelude
begin

text \<open>
  The bounded job queue of \<^verbatim>\<open>src/concurrency/job_queue.c\<close>, a ring buffer of client sockets
  guarded by one mutex: every operation below is one critical section.  \<open>None\<close> is an
  access outside the array.  A pop that has to wait on the condition variable is the
  result \<open>Pop_waits\<close>.
\<close>

section \<open>Model\<close>

record job_queue =
  jq_client_fds :: "int list"
  jq_capacity :: nat
  jq_head :: nat
  jq_tail :: nat
  jq_count :: nat
  jq_shutting_down :: bool

text \<open>The flags say whether \<^verbatim>\<open>malloc\<close> and the two \<^verbatim>\<open>pthread\<close> initialisations succeed.\<close>

definition queue_init :: "bool \<times> bool \<times> bool \<Rightarrow> int \<Rightarrow> job_queue option" where
  "queue_init = (\<lambda>(malloc_ok, mutex_ok, cond_ok) capacity.
     if capacity \<le> 0 then None
     else if \<not> malloc_ok then None
     else if \<not> mutex_ok then None
     else if \<not> cond_ok then None
     else Some \<lparr>jq_client_fds = replicate (nat capacity) 0, jq_capacity = nat capacity, jq_head = 0, jq_tail = 0,
            jq_count = 0, jq_shutting_down = False\<rparr>)"

definition queue_push :: "job_queue \<Rightarrow> int \<Rightarrow> (job_queue \<times> status) option" where
  "queue_push q client_fd =
     (if \<not> jq_shutting_down q \<and> jq_count q < jq_capacity q
      then do {
        fds \<leftarrow> aset (jq_client_fds q) (jq_tail q) client_fd;
        Some (q\<lparr>jq_client_fds := fds, jq_tail := (jq_tail q + 1) mod jq_capacity q, jq_count := jq_count q + 1\<rparr>,
          SUCCESS)
      }
      else Some (q, FAILURE))"

datatype pop_result = Pop_waits | Pop_fails | Pop_returns int job_queue

definition queue_pop :: "job_queue \<Rightarrow> pop_result option" where
  "queue_pop q =
     (if jq_count q = 0 \<and> \<not> jq_shutting_down q then Some Pop_waits
      else if jq_count q = 0 \<and> jq_shutting_down q then Some Pop_fails
      else do {
        fd \<leftarrow> aget (jq_client_fds q) (jq_head q);
        Some (Pop_returns fd (q\<lparr>jq_head := (jq_head q + 1) mod jq_capacity q, jq_count := jq_count q - 1\<rparr>))
      })"

definition queue_shutdown :: "job_queue \<Rightarrow> job_queue" where
  "queue_shutdown q = q\<lparr>jq_shutting_down := True\<rparr>"

definition queue_destroy :: "job_queue \<Rightarrow> job_queue" where
  "queue_destroy q = q\<lparr>jq_client_fds := [], jq_capacity := 0, jq_count := 0\<rparr>"

section \<open>The interface of a bounded first-in first-out queue\<close>

text \<open>Clients mix pushes and pops; a run lists what was accepted and what came out.\<close>

datatype queue_op = Push int | Pop

fun run_ops :: "('q \<Rightarrow> int \<Rightarrow> ('q \<times> status) option) \<Rightarrow> ('q \<Rightarrow> (int \<times> 'q) option option) \<Rightarrow> 'q \<Rightarrow> queue_op list \<Rightarrow>
    ('q \<times> int list \<times> int list) option" where
  "run_ops push pop q [] = Some (q, [], [])"
| "run_ops push pop q (Push x # ops) = do {
     (q1, st) \<leftarrow> push q x;
     (q2, ins, outs) \<leftarrow> run_ops push pop q1 ops;
     Some (q2, (if st = SUCCESS then x # ins else ins), outs)
   }"
| "run_ops push pop q (Pop # ops) = do {
     r \<leftarrow> pop q;
     case r of
       None \<Rightarrow> run_ops push pop q ops
     | Some (x, q1) \<Rightarrow> do {
         (q2, ins, outs) \<leftarrow> run_ops push pop q1 ops;
         Some (q2, ins, x # outs)
       }
   }"

locale bounded_fifo =
  fixes push :: "'q \<Rightarrow> int \<Rightarrow> ('q \<times> status) option" and pop :: "'q \<Rightarrow> (int \<times> 'q) option option"
    and contents :: "'q \<Rightarrow> int list" and capacity :: "'q \<Rightarrow> nat" and accepting :: "'q \<Rightarrow> bool" and valid :: "'q \<Rightarrow> bool"
  assumes push_accepts: "valid q \<Longrightarrow> accepting q \<Longrightarrow> length (contents q) < capacity q \<Longrightarrow>
      \<exists>q'. push q x = Some (q', SUCCESS) \<and> valid q' \<and> contents q' = contents q @ [x] \<and>
        capacity q' = capacity q \<and> accepting q' = accepting q"
    and push_refuses: "valid q \<Longrightarrow> \<not> (accepting q \<and> length (contents q) < capacity q) \<Longrightarrow> push q x = Some (q, FAILURE)"
    and pop_empty: "valid q \<Longrightarrow> contents q = [] \<Longrightarrow> pop q = Some None"
    and pop_first: "valid q \<Longrightarrow> contents q = x # xs \<Longrightarrow>
      \<exists>q'. pop q = Some (Some (x, q')) \<and> valid q' \<and> contents q' = xs \<and> capacity q' = capacity q \<and> accepting q' = accepting q"
    and bounded: "valid q \<Longrightarrow> length (contents q) \<le> capacity q"
begin

lemma push_total:
  assumes "valid q"
  shows "\<exists>q' st. push q x = Some (q', st) \<and> valid q' \<and> capacity q' = capacity q \<and> accepting q' = accepting q \<and>
     contents q' = contents q @ (if st = SUCCESS then [x] else [])"
proof (cases "accepting q \<and> length (contents q) < capacity q")
  case True
  then show ?thesis using push_accepts [OF assms, of x] by auto
next
  case False
  then show ?thesis using push_refuses [OF assms False, of x] assms by auto
qed

lemma runs_in_order:
  "valid q \<Longrightarrow> \<exists>q' ins outs. run_ops push pop q ops = Some (q', ins, outs) \<and> valid q' \<and>
     contents q @ ins = outs @ contents q'"
proof (induction ops arbitrary: q)
  case (Cons op ops)
  show ?case
  proof (cases op)
    case (Push x)
    obtain q1 st where p: "push q x = Some (q1, st)" "valid q1" "contents q1 = contents q @ (if st = SUCCESS then [x] else [])"
      using push_total [OF Cons.prems] by blast
    obtain q2 ins outs where "run_ops push pop q1 ops = Some (q2, ins, outs)" "valid q2" "contents q1 @ ins = outs @ contents q2"
      using Cons.IH [OF p(2)] by blast
    then show ?thesis using p Push by auto
  next
    case Pop
    show ?thesis
    proof (cases "contents q")
      case Nil
      then show ?thesis using pop_empty [OF Cons.prems Nil] Cons.IH [OF Cons.prems] Pop by auto
    next
      case (Cons y ys)
      obtain q1 where p: "pop q = Some (Some (y, q1))" "valid q1" "contents q1 = ys"
        using pop_first [OF \<open>valid q\<close> Cons] by blast
      then show ?thesis using \<open>op = Pop\<close> Cons Cons.IH [OF p(2)] by auto
    qed
  qed
qed simp

lemma run_capacity:
  "valid q \<Longrightarrow> run_ops push pop q ops = Some (q', ins, outs) \<Longrightarrow> capacity q' = capacity q"
proof (induction ops arbitrary: q ins outs)
  case (Cons op ops)
  show ?case
  proof (cases op)
    case (Push x)
    then show ?thesis using push_total [OF Cons.prems(1), of x] Cons by (auto split: bind_splits)
  next
    case Pop
    show ?thesis
    proof (cases "contents q")
      case Nil
      then show ?thesis using pop_empty [OF Cons.prems(1) Nil] Cons Pop by auto
    next
      case (Cons y ys)
      then show ?thesis using pop_first [OF \<open>valid q\<close> Cons] Cons.IH Cons.prems(2) Pop by (auto split: bind_splits)
    qed
  qed
qed simp

end

section \<open>The ring buffer implements it\<close>

definition queue_valid :: "job_queue \<Rightarrow> bool" where
  "queue_valid q \<longleftrightarrow> 0 < jq_capacity q \<and> length (jq_client_fds q) = jq_capacity q \<and> jq_head q < jq_capacity q \<and>
     jq_count q \<le> jq_capacity q \<and> jq_tail q = (jq_head q + jq_count q) mod jq_capacity q"

definition queue_contents :: "job_queue \<Rightarrow> int list" where
  "queue_contents q = map (\<lambda>i. jq_client_fds q ! ((jq_head q + i) mod jq_capacity q)) [0..<jq_count q]"

text \<open>A pop that does not have to wait, or has nothing to return.\<close>

definition try_pop :: "job_queue \<Rightarrow> (int \<times> job_queue) option option" where
  "try_pop q = map_option (\<lambda>r. case r of Pop_returns fd q' \<Rightarrow> Some (fd, q') | _ \<Rightarrow> None) (queue_pop q)"

lemma contents_length [simp]: "length (queue_contents q) = jq_count q"
  by (simp add: queue_contents_def)

lemma ring_slot:
  fixes n :: nat
  assumes "(h + i) mod n = (h + j) mod n" "i < n" "j < n"
  shows "i = j"
proof -
  have close: "b \<le> a \<Longrightarrow> a < n \<Longrightarrow> (h + a) mod n = (h + b) mod n \<Longrightarrow> a = b" for a b
  proof -
    assume ab: "b \<le> a" "a < n" "(h + a) mod n = (h + b) mod n"
    then have "n dvd (h + a) - (h + b)" by (simp add: mod_eq_dvd_iff_nat)
    then have "n dvd a - b" by simp
    then show "a = b" using ab by (metis diff_is_0_eq le_antisym less_imp_diff_less nat_dvd_not_less neq0_conv)
  qed
  show ?thesis using close [of i j] close [of j i] assms by (metis linear)
qed

lemma push_contents:
  assumes "queue_valid q" "\<not> jq_shutting_down q" "jq_count q < jq_capacity q"
  shows "\<exists>q'. queue_push q x = Some (q', SUCCESS) \<and> queue_valid q' \<and> queue_contents q' = queue_contents q @ [x] \<and>
     jq_capacity q' = jq_capacity q \<and> jq_shutting_down q' = jq_shutting_down q"
proof -
  let ?q = "q\<lparr>jq_client_fds := (jq_client_fds q)[jq_tail q := x], jq_tail := (jq_tail q + 1) mod jq_capacity q,
      jq_count := jq_count q + 1\<rparr>"
  have t: "jq_tail q < length (jq_client_fds q)" "jq_tail q = (jq_head q + jq_count q) mod jq_capacity q"
    using assms by (auto simp: queue_valid_def)
  have run: "queue_push q x = Some (?q, SUCCESS)" using assms t by (simp add: queue_push_def aset_def)
  have "queue_valid ?q" using assms t by (auto simp: queue_valid_def mod_simps)
  moreover have "(jq_client_fds q)[jq_tail q := x] ! ((jq_head q + i) mod jq_capacity q) =
      jq_client_fds q ! ((jq_head q + i) mod jq_capacity q)" if "i < jq_count q" for i
  proof -
    have "jq_tail q \<noteq> (jq_head q + i) mod jq_capacity q"
      using ring_slot [of "jq_head q" i "jq_capacity q" "jq_count q"] assms(3) that t(2) by auto
    then show ?thesis by simp
  qed
  then have "queue_contents ?q = queue_contents q @ [x]" using t by (simp add: queue_contents_def)
  ultimately show ?thesis using run by auto
qed

lemma pop_contents:
  assumes "queue_valid q" "queue_contents q = x # xs"
  shows "\<exists>q'. queue_pop q = Some (Pop_returns x q') \<and> queue_valid q' \<and> queue_contents q' = xs \<and>
     jq_capacity q' = jq_capacity q \<and> jq_shutting_down q' = jq_shutting_down q"
proof -
  let ?q = "q\<lparr>jq_head := (jq_head q + 1) mod jq_capacity q, jq_count := jq_count q - 1\<rparr>"
  have c: "jq_count q = Suc (length xs)" using assms(2) contents_length [of q] by simp
  have upt: "[0..<jq_count q] = 0 # map Suc [0..<length xs]" by (simp add: c upt_conv_Cons map_Suc_upt del: upt_Suc)
  have h: "jq_head q < length (jq_client_fds q)" "jq_head q mod jq_capacity q = jq_head q"
    using assms(1) by (auto simp: queue_valid_def)
  have hd: "x = jq_client_fds q ! jq_head q"
    and tl: "xs = map (\<lambda>i. jq_client_fds q ! ((jq_head q + Suc i) mod jq_capacity q)) [0..<length xs]"
    using assms(2) h(2) unfolding queue_contents_def upt by (auto simp: comp_def)
  have run: "queue_pop q = Some (Pop_returns x ?q)" using c h(1) hd by (simp add: queue_pop_def aget_def)
  have "queue_contents ?q = xs" using tl c by (simp add: queue_contents_def mod_simps)
  moreover have "queue_valid ?q" using assms(1) c by (auto simp: queue_valid_def mod_simps)
  ultimately show ?thesis using run by auto
qed

interpretation ring: bounded_fifo queue_push try_pop queue_contents jq_capacity "\<lambda>q. \<not> jq_shutting_down q" queue_valid
proof
  show "\<exists>q'. queue_push q x = Some (q', SUCCESS) \<and> queue_valid q' \<and> queue_contents q' = queue_contents q @ [x] \<and>
      jq_capacity q' = jq_capacity q \<and> (\<not> jq_shutting_down q') = (\<not> jq_shutting_down q)"
    if "queue_valid q" "\<not> jq_shutting_down q" "length (queue_contents q) < jq_capacity q" for q x
    using push_contents [of q x] that by simp
  show "queue_push q x = Some (q, FAILURE)"
    if "queue_valid q" "\<not> (\<not> jq_shutting_down q \<and> length (queue_contents q) < jq_capacity q)" for q x
    using that by (auto simp: queue_push_def)
  show "try_pop q = Some None" if "queue_valid q" "queue_contents q = []" for q
    using that contents_length [of q] by (simp add: try_pop_def queue_pop_def)
  show "\<exists>q'. try_pop q = Some (Some (x, q')) \<and> queue_valid q' \<and> queue_contents q' = xs \<and> jq_capacity q' = jq_capacity q \<and>
      (\<not> jq_shutting_down q') = (\<not> jq_shutting_down q)"
    if "queue_valid q" "queue_contents q = x # xs" for q x xs
    using pop_contents [OF that] by (auto simp: try_pop_def)
  show "length (queue_contents q) \<le> jq_capacity q" if "queue_valid q" for q
    using that by (simp add: queue_valid_def)
qed

lemma queue_init_valid: "queue_init oks n = Some q \<Longrightarrow> queue_valid q \<and> queue_contents q = [] \<and> jq_capacity q = nat n"
  by (auto simp: queue_init_def queue_valid_def queue_contents_def split: prod.splits if_splits)

lemma shutdown_valid:
  "queue_valid q \<Longrightarrow> queue_valid (queue_shutdown q) \<and> queue_contents (queue_shutdown q) = queue_contents q"
  by (simp add: queue_valid_def queue_contents_def queue_shutdown_def)

section \<open>Properties\<close>

text \<open>
  C12: the ring buffer is a bounded first-in first-out queue: for any sequence of pushes and pops on a
  fresh queue no access leaves the array, the sockets come out in the order in which they
  were accepted, none is lost or duplicated, and never more than the capacity are waiting.
\<close>

theorem queue_first_in_first_out:
  assumes "queue_init oks capacity = Some q"
  shows "\<exists>q' ins outs. run_ops queue_push try_pop q ops = Some (q', ins, outs) \<and>
     ins = outs @ queue_contents q' \<and> length (queue_contents q') \<le> nat capacity"
proof -
  have q: "queue_valid q" "queue_contents q = []" "jq_capacity q = nat capacity" using queue_init_valid [OF assms] by auto
  obtain q' ins outs where r: "run_ops queue_push try_pop q ops = Some (q', ins, outs)" "queue_valid q'"
    "ins = outs @ queue_contents q'" using ring.runs_in_order [OF q(1), of ops] q(2) by auto
  then show ?thesis using ring.run_capacity [OF q(1) r(1)] ring.bounded [OF r(2)] q(3) by auto
qed

theorem queue_first_in_first_out_witness:
  "\<exists>q' ins outs. run_ops queue_push try_pop (the (queue_init (True, True, True) 2)) [Push 5, Push 6, Push 7, Pop, Push 8] =
     Some (q', ins, outs) \<and> ins = outs @ queue_contents q' \<and> length (queue_contents q') \<le> nat 2"
  by (rule queue_first_in_first_out [of "(True, True, True)"]) (simp add: queue_init_def)

end
