(* ===== verification/Thread_Pool.thy ===== *)
theory Thread_Pool
  imports Job_Queue Transitions "HOL-Library.Multiset"
begin

text \<open>
  The thread pool of \<^verbatim>\<open>src/concurrency/thread_pool.c\<close>: workers take client sockets from the
  job queue, count themselves as active while the handler runs, and leave when the queue
  is shut down and empty.  The worker loop is a step relation with one step per critical
  section and one for the handler; steps of workers and of the submitting thread
  interleave.  Which sockets were accepted, taken and handled is kept in ghost variables.
\<close>

section \<open>Model\<close>

datatype worker = W_popping | W_got int | W_handling int | W_finished int | W_exited

record thread_pool =
  tp_worker_count :: nat
  tp_active_worker_count :: int
  tp_queue :: job_queue
  tp_workers :: "worker list"
  tp_accepted :: "int list"
  tp_taken :: "int list"
  tp_handled :: "int list"

text \<open>
  \<^verbatim>\<open>thread_pool_init\<close>: the flags say which initialisations and allocations succeed; if one
  worker cannot be started, the pool is shut down again, which is \<open>None\<close>.
\<close>

definition thread_pool_init :: "bool \<times> bool \<times> bool \<Rightarrow> bool \<Rightarrow> (nat \<Rightarrow> bool) \<Rightarrow> int \<Rightarrow> int \<Rightarrow> thread_pool option" where
  "thread_pool_init queue_oks calloc_ok create_ok worker_count queue_capacity =
     (if worker_count \<le> 0 \<or> queue_capacity \<le> 0 then None
      else case queue_init queue_oks queue_capacity of
        None \<Rightarrow> None
      | Some q \<Rightarrow>
          if \<not> calloc_ok then None
          else if \<not> list_all create_ok [0..<nat worker_count] then None
          else Some \<lparr>tp_worker_count = nat worker_count, tp_active_worker_count = 0, tp_queue = q,
                 tp_workers = replicate (nat worker_count) W_popping, tp_accepted = [], tp_taken = [], tp_handled = []\<rparr>)"

definition thread_pool_submit :: "thread_pool \<Rightarrow> int \<Rightarrow> (thread_pool \<times> status) option" where
  "thread_pool_submit p client_fd = do {
     (q, st) \<leftarrow> queue_push (tp_queue p) client_fd;
     Some (p\<lparr>tp_queue := q, tp_accepted := (if st = SUCCESS then tp_accepted p @ [client_fd] else tp_accepted p)\<rparr>, st)
   }"

record thread_pool_stats =
  ts_worker_count :: int
  ts_busy_worker_count :: int
  ts_idle_worker_count :: int
  ts_queue_length :: int
  ts_queue_capacity :: int
  ts_available_queue_slots :: int

definition thread_pool_get_stats :: "thread_pool \<Rightarrow> thread_pool_stats" where
  "thread_pool_get_stats p =
     \<lparr>ts_worker_count = int (tp_worker_count p),
      ts_busy_worker_count = tp_active_worker_count p,
      ts_idle_worker_count = int (tp_worker_count p) - tp_active_worker_count p,
      ts_queue_length = int (jq_count (tp_queue p)),
      ts_queue_capacity = int (jq_capacity (tp_queue p)),
      ts_available_queue_slots = int (jq_capacity (tp_queue p)) - int (jq_count (tp_queue p))\<rparr>"

text \<open>One step of worker \<open>i\<close> in \<^verbatim>\<open>thread_pool_worker_main\<close>.\<close>

inductive worker_step :: "thread_pool \<Rightarrow> thread_pool \<Rightarrow> bool" where
  take_job: "i < length (tp_workers p) \<Longrightarrow> tp_workers p ! i = W_popping \<Longrightarrow>
    queue_pop (tp_queue p) = Some (Pop_returns fd q) \<Longrightarrow>
    worker_step p (p\<lparr>tp_queue := q, tp_workers := (tp_workers p)[i := W_got fd], tp_taken := tp_taken p @ [fd]\<rparr>)"
| leave: "i < length (tp_workers p) \<Longrightarrow> tp_workers p ! i = W_popping \<Longrightarrow> queue_pop (tp_queue p) = Some Pop_fails \<Longrightarrow>
    worker_step p (p\<lparr>tp_workers := (tp_workers p)[i := W_exited]\<rparr>)"
| begin_job: "i < length (tp_workers p) \<Longrightarrow> tp_workers p ! i = W_got fd \<Longrightarrow>
    worker_step p (p\<lparr>tp_active_worker_count := tp_active_worker_count p + 1,
      tp_workers := (tp_workers p)[i := W_handling fd]\<rparr>)"
| handle: "i < length (tp_workers p) \<Longrightarrow> tp_workers p ! i = W_handling fd \<Longrightarrow>
    worker_step p (p\<lparr>tp_workers := (tp_workers p)[i := W_finished fd], tp_handled := tp_handled p @ [fd]\<rparr>)"
| end_job: "i < length (tp_workers p) \<Longrightarrow> tp_workers p ! i = W_finished fd \<Longrightarrow>
    worker_step p (p\<lparr>tp_active_worker_count := tp_active_worker_count p - 1,
      tp_workers := (tp_workers p)[i := W_popping]\<rparr>)"

text \<open>
  The rest of \<^verbatim>\<open>thread_pool_shutdown\<close>: joining waits until every worker has left its loop
  (\<open>None\<close> while one has not), then the pool is taken down.
\<close>

definition thread_pool_join :: "thread_pool \<Rightarrow> thread_pool option" where
  "thread_pool_join p =
     (if \<forall>w \<in> set (tp_workers p). w = W_exited
      then Some (p\<lparr>tp_workers := [], tp_worker_count := 0, tp_active_worker_count := 0, tp_queue := queue_destroy (tp_queue p)\<rparr>)
      else None)"

text \<open>
  The pool with its clients: submissions, and the first action of \<^verbatim>\<open>thread_pool_shutdown\<close>,
  which then waits for all workers.
\<close>

inductive pool_step :: "thread_pool \<Rightarrow> thread_pool \<Rightarrow> bool" where
  submit: "thread_pool_submit p fd = Some (p', st) \<Longrightarrow> pool_step p p'"
| work: "worker_step p p' \<Longrightarrow> pool_step p p'"
| close: "pool_step p (p\<lparr>tp_queue := queue_shutdown (tp_queue p)\<rparr>)"

section \<open>Workers and counters\<close>

fun in_hand :: "worker \<Rightarrow> int list" where
  "in_hand (W_got fd) = [fd]"
| "in_hand (W_handling fd) = [fd]"
| "in_hand _ = []"

fun busy :: "worker \<Rightarrow> nat" where
  "busy (W_handling fd) = 1"
| "busy (W_finished fd) = 1"
| "busy _ = 0"

lemma mset_concat_update:
  "i < length ws \<Longrightarrow> mset (concat (map f (ws[i := w]))) + mset (f (ws ! i)) = mset (concat (map f ws)) + mset (f w)"
proof (induction ws arbitrary: i)
  case (Cons v ws)
  then show ?case by (cases i) (auto simp: add.commute add.left_commute)
qed simp

lemma exchange_cancel:
  fixes c c' h h' :: "'a multiset"
  assumes "c' + b = c + w" "h' + w = h + b"
  shows "h' + c' = h + c"
proof -
  have "(h' + c') + (w + b) = (h' + w) + (c' + b)" by (simp add: ac_simps)
  also have "\<dots> = (h + c) + (w + b)" unfolding assms by (simp add: ac_simps)
  finally show ?thesis by simp
qed

lemma sum_update: "i < length ws \<Longrightarrow> sum_list (map f (ws[i := w])) + f (ws ! i) = sum_list (map f ws) + (f w :: nat)"
proof (induction ws arbitrary: i)
  case (Cons v ws)
  then show ?case by (cases i) (auto simp: add.commute add.left_commute)
qed simp

lemma busy_le: "sum_list (map busy ws) \<le> length ws"
proof (induction ws)
  case (Cons w ws)
  then show ?case by (cases w) auto
qed simp

section \<open>Invariant\<close>

definition pool_inv :: "thread_pool \<Rightarrow> bool" where
  "pool_inv p \<longleftrightarrow> queue_valid (tp_queue p) \<and> length (tp_workers p) = tp_worker_count p \<and>
     tp_active_worker_count p = int (sum_list (map busy (tp_workers p))) \<and>
     tp_accepted p = tp_taken p @ queue_contents (tp_queue p) \<and>
     mset (tp_taken p) = mset (tp_handled p) + mset (concat (map in_hand (tp_workers p))) \<and>
     (W_exited \<in> set (tp_workers p) \<longrightarrow> jq_shutting_down (tp_queue p) \<and> queue_contents (tp_queue p) = [])"

lemma pool_init_inv:
  assumes "thread_pool_init oks c cr n cap = Some p"
  shows "pool_inv p \<and> tp_accepted p = [] \<and> 0 < tp_worker_count p"
proof -
  obtain q where q: "queue_init oks cap = Some q" "0 < n"
    and p: "p = \<lparr>tp_worker_count = nat n, tp_active_worker_count = 0, tp_queue = q,
                 tp_workers = replicate (nat n) W_popping, tp_accepted = [], tp_taken = [], tp_handled = []\<rparr>"
    using assms by (auto simp: thread_pool_init_def split: if_splits option.splits)
  have "sum_list (map busy (replicate k W_popping)) = 0" "concat (map in_hand (replicate k W_popping)) = []" for k
    by (induction k) auto
  then show ?thesis using queue_init_valid [OF q(1)] q(2) by (simp add: p pool_inv_def)
qed

lemma exited_update:
  "W_exited \<in> set (ws[i := w]) \<Longrightarrow> w \<noteq> W_exited \<Longrightarrow> W_exited \<in> set ws"
  using set_update_subset_insert [of ws i w] by auto

text \<open>A step of a worker that does not touch the queue.\<close>

lemma worker_update_inv:
  assumes inv: "pool_inv p" and i: "i < length (tp_workers p)" "w \<noteq> W_exited"
    and p': "tp_queue p' = tp_queue p" "tp_accepted p' = tp_accepted p" "tp_taken p' = tp_taken p"
      "tp_worker_count p' = tp_worker_count p" "tp_workers p' = (tp_workers p)[i := w]"
    and act: "tp_active_worker_count p' + int (busy (tp_workers p ! i)) = tp_active_worker_count p + int (busy w)"
    and hand: "mset (tp_handled p') + mset (in_hand w) = mset (tp_handled p) + mset (in_hand (tp_workers p ! i))"
  shows "pool_inv p'"
proof -
  let ?c = "\<lambda>ws. mset (concat (map in_hand ws))"
  have "?c ((tp_workers p)[i := w]) + mset (in_hand (tp_workers p ! i)) = ?c (tp_workers p) + mset (in_hand w)"
    by (rule mset_concat_update [OF i(1)])
  then have "mset (tp_handled p') + ?c ((tp_workers p)[i := w]) = mset (tp_handled p) + ?c (tp_workers p)"
    by (rule exchange_cancel [OF _ hand])
  moreover have "int (sum_list (map busy ((tp_workers p)[i := w]))) + int (busy (tp_workers p ! i)) =
      int (sum_list (map busy (tp_workers p))) + int (busy w)"
    using sum_update [OF i(1), of busy w] by linarith
  ultimately show ?thesis using inv p' act exited_update [of "tp_workers p" i w] i(2)
    by (simp add: pool_inv_def)
qed

lemma worker_step_inv:
  assumes "worker_step p p'" "pool_inv p"
  shows "pool_inv p'"
  using assms(1)
proof cases
  case (take_job i fd q)
  have v: "queue_valid (tp_queue p)" using assms(2) by (simp add: pool_inv_def)
  obtain xs where c: "queue_contents (tp_queue p) = fd # xs" "queue_valid q" "queue_contents q = xs"
    "jq_shutting_down q = jq_shutting_down (tp_queue p)"
  proof (cases "queue_contents (tp_queue p)")
    case Nil
    then have "jq_count (tp_queue p) = 0" using contents_length [of "tp_queue p"] by simp
    then show thesis using take_job(4) by (auto simp: queue_pop_def split: if_splits)
  next
    case (Cons x xs)
    then show thesis using that pop_contents [OF v Cons] take_job(4) by auto
  qed
  have "sum_list (map busy ((tp_workers p)[i := W_got fd])) = sum_list (map busy (tp_workers p))"
    using sum_update [OF take_job(2), of busy "W_got fd"] take_job(3) by simp
  moreover have "mset (concat (map in_hand ((tp_workers p)[i := W_got fd]))) =
      mset (concat (map in_hand (tp_workers p))) + {#fd#}"
    using mset_concat_update [OF take_job(2), of in_hand "W_got fd"] take_job(3) by simp
  moreover have "W_exited \<notin> set ((tp_workers p)[i := W_got fd])"
    using exited_update [of "tp_workers p" i "W_got fd"] assms(2) c(1) by (auto simp: pool_inv_def)
  ultimately show ?thesis using assms(2) take_job c by (simp add: pool_inv_def)
next
  case (leave i)
  then have sd: "jq_shutting_down (tp_queue p)" "jq_count (tp_queue p) = 0"
    by (auto simp: queue_pop_def split: if_splits bind_splits)
  then have "queue_contents (tp_queue p) = []" by (simp add: queue_contents_def)
  moreover have "sum_list (map busy ((tp_workers p)[i := W_exited])) = sum_list (map busy (tp_workers p))"
    using sum_update [OF leave(2), of busy W_exited] leave(3) by simp
  moreover have "mset (concat (map in_hand ((tp_workers p)[i := W_exited]))) = mset (concat (map in_hand (tp_workers p)))"
    using mset_concat_update [OF leave(2), of in_hand W_exited] leave(3) by simp
  ultimately show ?thesis using assms(2) leave sd by (simp add: pool_inv_def)
next
  case (begin_job i fd)
  then show ?thesis by (intro worker_update_inv [OF assms(2) begin_job(2), of "W_handling fd"]) simp_all
next
  case (handle i fd)
  then show ?thesis by (intro worker_update_inv [OF assms(2) handle(2), of "W_finished fd"]) simp_all
next
  case (end_job i fd)
  then show ?thesis by (intro worker_update_inv [OF assms(2) end_job(2), of W_popping]) simp_all
qed

lemma pool_step_inv:
  assumes "pool_step p p'" "pool_inv p"
  shows "pool_inv p'"
  using assms(1)
proof cases
  case (submit fd st)
  have v: "queue_valid (tp_queue p)" using assms(2) by (simp add: pool_inv_def)
  obtain q st' where q: "queue_push (tp_queue p) fd = Some (q, st')" "queue_valid q"
    "queue_contents q = queue_contents (tp_queue p) @ (if st' = SUCCESS then [fd] else [])"
    "jq_shutting_down q = jq_shutting_down (tp_queue p)" using ring.push_total [OF v] by blast
  have "jq_shutting_down (tp_queue p) \<Longrightarrow> st' = FAILURE" using q(1) by (auto simp: queue_push_def)
  then show ?thesis using submit q assms(2)
    by (cases st') (auto simp: pool_inv_def thread_pool_submit_def)
next
  case work
  then show ?thesis using worker_step_inv assms(2) by blast
next
  case close
  then show ?thesis using assms(2) shutdown_valid [of "tp_queue p"]
    by (auto simp: pool_inv_def queue_shutdown_def)
qed

interpretation pool: invariant_steps pool_step pool_inv
  by unfold_locales (rule pool_step_inv)

section \<open>Shutdown\<close>

lemma worker_moves:
  assumes inv: "pool_inv p" "jq_shutting_down (tp_queue p)" and w: "w \<in> set (tp_workers p)" "w \<noteq> W_exited"
  shows "\<exists>p'. worker_step p p'"
proof -
  obtain i where i: "i < length (tp_workers p)" "tp_workers p ! i = w" using w(1) by (auto simp: in_set_conv_nth)
  have v: "queue_valid (tp_queue p)" using inv(1) by (simp add: pool_inv_def)
  show ?thesis
  proof (cases w)
    case W_popping
    show ?thesis
    proof (cases "queue_contents (tp_queue p)")
      case Nil
      then have "queue_pop (tp_queue p) = Some Pop_fails"
        using inv(2) contents_length [of "tp_queue p"] by (simp add: queue_pop_def)
      then show ?thesis using leave i W_popping by blast
    next
      case (Cons x xs)
      then show ?thesis using pop_contents [OF v Cons] take_job i W_popping by blast
    qed
  next
    case (W_got fd)
    then show ?thesis using begin_job i by blast
  next
    case (W_handling fd)
    then show ?thesis using handle i by blast
  next
    case (W_finished fd)
    then show ?thesis using end_job i by blast
  qed (use w in simp)
qed

fun work_left :: "worker \<Rightarrow> nat" where
  "work_left (W_got fd) = 4"
| "work_left (W_handling fd) = 3"
| "work_left (W_finished fd) = 2"
| "work_left W_popping = 1"
| "work_left W_exited = 0"

definition pool_left :: "thread_pool \<Rightarrow> nat" where
  "pool_left p = 5 * jq_count (tp_queue p) + sum_list (map work_left (tp_workers p))"

lemma worker_step_decreases:
  assumes "worker_step p p'"
  shows "pool_left p' < pool_left p"
  using assms
proof cases
  case (take_job i fd q)
  have "jq_count (tp_queue p) = Suc (jq_count q)"
    using take_job(4) by (auto simp: queue_pop_def split: if_splits bind_splits)
  then show ?thesis using take_job sum_update [OF take_job(2), of work_left "W_got fd"] by (simp add: pool_left_def)
next
  case (leave i)
  then show ?thesis using sum_update [OF leave(2), of work_left W_exited] by (simp add: pool_left_def)
next
  case (begin_job i fd)
  then show ?thesis using sum_update [OF begin_job(2), of work_left "W_handling fd"] by (simp add: pool_left_def)
next
  case (handle i fd)
  then show ?thesis using sum_update [OF handle(2), of work_left "W_finished fd"] by (simp add: pool_left_def)
next
  case (end_job i fd)
  then show ?thesis using sum_update [OF end_job(2), of work_left W_popping] by (simp add: pool_left_def)
qed

lemma worker_step_shutdown:
  "worker_step p p' \<Longrightarrow> jq_shutting_down (tp_queue p') = jq_shutting_down (tp_queue p) \<and> tp_accepted p' = tp_accepted p"
  by (induction rule: worker_step.induct) (auto simp: queue_pop_def split: if_splits bind_splits)

lemma all_exited:
  assumes "pool_inv p" "0 < tp_worker_count p" "set (tp_workers p) \<subseteq> {W_exited}"
  shows "mset (tp_handled p) = mset (tp_accepted p)"
proof -
  obtain w ws where "tp_workers p = w # ws" using assms(1,2) by (cases "tp_workers p") (auto simp: pool_inv_def)
  then have "W_exited \<in> set (tp_workers p)" using assms(3) by auto
  moreover have "concat (map in_hand (tp_workers p)) = []" using assms(3) by auto
  ultimately show ?thesis using assms(1) by (simp add: pool_inv_def)
qed

text \<open>After the shutdown every run of the workers is finite and ends with all jobs done.\<close>

definition closing :: "int list \<Rightarrow> nat \<Rightarrow> thread_pool \<Rightarrow> bool" where
  "closing jobs n p \<longleftrightarrow> pool_inv p \<and> jq_shutting_down (tp_queue p) \<and> tp_accepted p = jobs \<and> tp_worker_count p = n"

lemma worker_step_count: "worker_step p p' \<Longrightarrow> tp_worker_count p' = tp_worker_count p"
  by (induction rule: worker_step.induct) auto

interpretation workers: terminating_steps worker_step "closing jobs n" pool_left for jobs n
  by unfold_locales (auto simp: closing_def worker_step_inv worker_step_shutdown worker_step_count worker_step_decreases)

lemma stuck_joins:
  assumes "closing jobs n p" "0 < n" "\<nexists>p'. worker_step p p'"
  shows "\<exists>p'. thread_pool_join p = Some p' \<and> mset (tp_handled p') = mset jobs"
proof -
  have "set (tp_workers p) \<subseteq> {W_exited}" using worker_moves [of p] assms by (auto simp: closing_def)
  then show ?thesis using all_exited [of p] assms(1,2) by (auto simp: closing_def thread_pool_join_def)
qed

lemma pool_left_bound: "pool_left p \<le> 5 * jq_count (tp_queue p) + 4 * length (tp_workers p)"
proof -
  have "sum_list (map work_left ws) \<le> 4 * length ws" for ws
  proof (induction ws)
    case (Cons w ws)
    then show ?case by (cases w) auto
  qed simp
  then show ?thesis by (simp add: pool_left_def)
qed

section \<open>Properties\<close>

text \<open>Reachable states: a started pool, then any interleaving of submissions, workers and a shutdown request.\<close>

lemma pool_step_count: "pool_step p p' \<Longrightarrow> tp_worker_count p' = tp_worker_count p"
  by (induction rule: pool_step.induct) (auto simp: thread_pool_submit_def elim!: worker_step.cases split: bind_splits)

lemma pool_reachable:
  assumes "thread_pool_init oks calloc_ok create_ok n capacity = Some p0" "pool_step\<^sup>*\<^sup>* p0 p"
  shows "pool_inv p" "0 < tp_worker_count p"
proof -
  show "pool_inv p" using pool.steps_inv [OF assms(2)] pool_init_inv [OF assms(1)] by blast
  have "tp_worker_count p = tp_worker_count p0" using assms(2) by (induction rule: rtranclp_induct) (auto simp: pool_step_count)
  then show "0 < tp_worker_count p" using pool_init_inv [OF assms(1)] by simp
qed

definition started_pool :: thread_pool where
  "started_pool = the (thread_pool_init (True, True, True) True (\<lambda>_. True) 2 3)"

lemma started_pool_init: "thread_pool_init (True, True, True) True (\<lambda>_. True) 2 3 = Some started_pool"
proof -
  have "list_all (\<lambda>_. True) xs" for xs :: "nat list" by (induction xs) auto
  then show ?thesis by (simp add: started_pool_def thread_pool_init_def queue_init_def)
qed

text \<open>
  C17: the books of the pool always balance, whatever the interleaving: the statistics never report a
  negative or excessive number of busy or idle workers or of queue slots, and every accepted
  socket is exactly once either handled, in the hands of a worker, or still waiting in the queue.
\<close>

theorem pool_accounts_balance:
  assumes "thread_pool_init oks calloc_ok create_ok n capacity = Some p0" "pool_step\<^sup>*\<^sup>* p0 p"
  shows "0 \<le> ts_busy_worker_count (thread_pool_get_stats p) \<and> 0 \<le> ts_idle_worker_count (thread_pool_get_stats p) \<and>
     0 \<le> ts_available_queue_slots (thread_pool_get_stats p) \<and>
     ts_busy_worker_count (thread_pool_get_stats p) + ts_idle_worker_count (thread_pool_get_stats p) =
       ts_worker_count (thread_pool_get_stats p) \<and>
     ts_queue_length (thread_pool_get_stats p) + ts_available_queue_slots (thread_pool_get_stats p) =
       ts_queue_capacity (thread_pool_get_stats p) \<and>
     mset (tp_accepted p) = mset (tp_handled p) + mset (concat (map in_hand (tp_workers p))) + mset (queue_contents (tp_queue p))"
proof -
  have inv: "pool_inv p" by (rule pool_reachable [OF assms])
  then have "tp_active_worker_count p \<le> int (tp_worker_count p)" using busy_le [of "tp_workers p"] by (simp add: pool_inv_def)
  moreover have "jq_count (tp_queue p) \<le> jq_capacity (tp_queue p)" using inv by (simp add: pool_inv_def queue_valid_def)
  ultimately show ?thesis using inv by (simp add: thread_pool_get_stats_def pool_inv_def)
qed

theorem pool_accounts_balance_witness:
  "ts_idle_worker_count (thread_pool_get_stats (fst (the (thread_pool_submit started_pool 7)))) \<ge> 0 \<and>
   mset (tp_accepted (fst (the (thread_pool_submit started_pool 7)))) =
     mset (tp_handled (fst (the (thread_pool_submit started_pool 7)))) +
     mset (concat (map in_hand (tp_workers (fst (the (thread_pool_submit started_pool 7)))))) +
     mset (queue_contents (tp_queue (fst (the (thread_pool_submit started_pool 7)))))"
proof -
  have "queue_valid (tp_queue started_pool)" using pool_reachable(1) [OF started_pool_init] by (simp add: pool_inv_def)
  then obtain p st where p: "thread_pool_submit started_pool 7 = Some (p, st)"
    using ring.push_total [of "tp_queue started_pool" 7] by (auto simp: thread_pool_submit_def)
  then have "pool_step\<^sup>*\<^sup>* started_pool p" by (blast intro: pool_step.submit)
  then show ?thesis using pool_accounts_balance [OF started_pool_init, of p] by (simp add: p)
qed



end
