(* ===== verification/Responses.thy ===== *)
theory Responses
  imports Result_Shape Thread_Pool
begin

text \<open>
  The JSON bodies and HTTP responses of \<^verbatim>\<open>src/api/response_builder.c\<close>.  A body is built in
  the growing buffer of \<^verbatim>\<open>utils_append_buffer\<close>; \<open>None\<close> is an access outside an array or an
  endless doubling of the capacity.  A failing \<^verbatim>\<open>malloc\<close> is not modelled here.

  The reference is a datatype of JSON values with its text form: the bodies of errors, of
  INSERT and of the health check are the text of a JSON object; the body of a SELECT is such
  a text with one closing bracket missing.
\<close>

section \<open>Building text\<close>

definition response_builder_append_char :: "text_buffer \<Rightarrow> char \<Rightarrow> text_buffer option" where
  "response_builder_append_char b c = utils_append_buffer b [c]"

fun append_json_chars :: "text_buffer \<Rightarrow> string \<Rightarrow> text_buffer option" where
  "append_json_chars b [] = Some b"
| "append_json_chars b (c # cs) = do {
     b' \<leftarrow> (if c = BACKSLASH then utils_append_buffer b [BACKSLASH, BACKSLASH]
           else if c = DQUOTE then utils_append_buffer b [BACKSLASH, DQUOTE]
           else if c = NL then utils_append_buffer b [BACKSLASH, CHR ''n'']
           else if c = CR then utils_append_buffer b [BACKSLASH, CHR ''r'']
           else if c = TAB then utils_append_buffer b [BACKSLASH, CHR ''t'']
           else response_builder_append_char b c);
     append_json_chars b' cs
   }"

definition response_builder_append_json_string :: "text_buffer \<Rightarrow> string \<Rightarrow> text_buffer option" where
  "response_builder_append_json_string b text = do {
     b1 \<leftarrow> response_builder_append_char b DQUOTE;
     b2 \<leftarrow> append_json_chars b1 text;
     response_builder_append_char b2 DQUOTE
   }"

definition response_builder_result_type_name :: "db_result_type \<Rightarrow> string" where
  "response_builder_result_type_name ty = (case ty of
     DB_RESULT_INSERT \<Rightarrow> ''insert'' | DB_RESULT_SELECT \<Rightarrow> ''select'' | DB_RESULT_DELETE \<Rightarrow> ''delete'' | _ \<Rightarrow> ''unknown'')"

definition response_builder_status_text :: "int \<Rightarrow> string" where
  "response_builder_status_text code =
     (if code = 200 then ''OK''
      else if code = 400 then ''Bad Request''
      else if code = 404 then ''Not Found''
      else if code = 405 then ''Method Not Allowed''
      else ''Internal Server Error'')"

text \<open>The loops over the columns and over the cells of a row: a comma before all but the first.\<close>

fun append_json_list :: "bool \<Rightarrow> text_buffer \<Rightarrow> string list \<Rightarrow> text_buffer option" where
  "append_json_list first b [] = Some b"
| "append_json_list first b (x # xs) = do {
     b1 \<leftarrow> (if first then Some b else response_builder_append_char b (CHR '',''));
     b2 \<leftarrow> response_builder_append_json_string b1 x;
     append_json_list False b2 xs
   }"

text \<open>The cells \<^verbatim>\<open>rows[i][0]\<close> to \<^verbatim>\<open>rows[i][column_count - 1]\<close>; a shorter row is read beyond its end.\<close>

definition row_cells :: "nat \<Rightarrow> string list \<Rightarrow> string list option" where
  "row_cells n row = (if n \<le> length row then Some (take n row) else None)"

fun append_json_rows :: "nat \<Rightarrow> bool \<Rightarrow> text_buffer \<Rightarrow> string list list \<Rightarrow> text_buffer option" where
  "append_json_rows n first b [] = Some b"
| "append_json_rows n first b (row # rows) = do {
     b1 \<leftarrow> (if first then Some b else response_builder_append_char b (CHR '',''));
     b2 \<leftarrow> response_builder_append_char b1 (CHR ''['');
     values \<leftarrow> row_cells n row;
     b3 \<leftarrow> append_json_list True b2 values;
     b4 \<leftarrow> response_builder_append_char b3 (CHR '']'');
     append_json_rows n False b4 rows
   }"

definition build_query_json_response :: "db_result \<Rightarrow> (int \<times> string) option" where
  "build_query_json_response r = do {
     b1 \<leftarrow> utils_append_buffer (None, 0) ''{\"ok\":true,\"type\":'';
     b2 \<leftarrow> response_builder_append_json_string b1 (response_builder_result_type_name (res_type r));
     b3 \<leftarrow> utils_append_buffer b2 '',\"message\":'';
     b4 \<leftarrow> response_builder_append_json_string b3 (res_message r);
     b5 \<leftarrow> (case res_type r of
        DB_RESULT_INSERT \<Rightarrow>
          utils_append_buffer b4 (snprintf 64 ('',\"rows_affected\":'' @ show_int (int (res_rows_affected r)) @ ''}''))
      | DB_RESULT_SELECT \<Rightarrow> do {
          c1 \<leftarrow> utils_append_buffer b4 (snprintf 64 ('',\"used_id_index\":'' @ (if res_used_id_index r then ''true'' else ''false'') @
            '',\"row_count\":'' @ show_int (int (length (res_rows r))) @ '',\"columns\":[''));
          c2 \<leftarrow> append_json_list True c1 (res_columns r);
          c3 \<leftarrow> utils_append_buffer c2 ''],\"rows\":['';
          c4 \<leftarrow> append_json_rows (length (res_columns r)) True c3 (res_rows r);
          response_builder_append_char c4 (CHR ''}'')
        }
      | _ \<Rightarrow> response_builder_append_char b4 (CHR ''}''));
     body \<leftarrow> fst b5;
     Some (200, body)
   }"

definition build_json_error_response :: "int \<Rightarrow> string \<Rightarrow> string option" where
  "build_json_error_response status_code message = do {
     b1 \<leftarrow> utils_append_buffer (None, 0) (snprintf 64 (''{\"ok\":false,\"status\":'' @ show_int status_code @ '',\"error\":''));
     b2 \<leftarrow> response_builder_append_json_string b1 message;
     b3 \<leftarrow> response_builder_append_char b2 (CHR ''}'');
     fst b3
   }"

definition build_health_json_response :: "thread_pool_stats \<Rightarrow> string" where
  "build_health_json_response stats = snprintf 256
     (''{\"status\":\"ok\",\"worker_count\":'' @ show_int (ts_worker_count stats) @
      '',\"busy_workers\":'' @ show_int (ts_busy_worker_count stats) @
      '',\"idle_workers\":'' @ show_int (ts_idle_worker_count stats) @
      '',\"queue_length\":'' @ show_int (ts_queue_length stats) @
      '',\"queue_capacity\":'' @ show_int (ts_queue_capacity stats) @
      '',\"available_queue_slots\":'' @ show_int (ts_available_queue_slots stats) @ ''}'')"

text \<open>
  \<^verbatim>\<open>build_http_response\<close>; the text is cut and the call fails if it does not fit the
  allocation of 256 bytes more than the body.
\<close>

definition http_header :: "int \<Rightarrow> nat \<Rightarrow> string" where
  "http_header status_code body_length =
     ''HTTP/1.1 '' @ show_int status_code @ '' '' @ response_builder_status_text status_code @ [CR, NL] @
     ''Content-Type: application/json'' @ [CR, NL] @
     ''Content-Length: '' @ show_nat body_length @ [CR, NL] @
     ''Connection: close'' @ [CR, NL] @ [CR, NL]"

definition build_http_response :: "int \<Rightarrow> string \<Rightarrow> string option" where
  "build_http_response status_code body =
     (let text = http_header status_code (length body) @ body in
      if length body + 256 \<le> length text then None else Some text)"

section \<open>What a builder appends\<close>

definition appends :: "(text_buffer \<Rightarrow> text_buffer option) \<Rightarrow> string \<Rightarrow> bool" where
  "appends f s \<longleftrightarrow> (\<forall>b. buffer_ok b \<longrightarrow> (\<exists>b'. f b = Some b' \<and> buffer_ok b' \<and> buffer_text b' = buffer_text b @ s))"

named_theorems appending \<open>what the functions that write into a buffer append\<close>

lemma appends_seq [appending]:
  "appends f s \<Longrightarrow> appends g t \<Longrightarrow> appends (\<lambda>b. f b \<bind> g) (s @ t)"
  unfolding appends_def by fastforce

lemma appends_nothing: "appends Some []"
  by (simp add: appends_def)

lemma appends_buffer: "appends (\<lambda>b. utils_append_buffer b s) s"
  using append_buffer_ok by (fastforce simp: appends_def)

lemma appends_char: "appends (\<lambda>b. response_builder_append_char b c) [c]"
  unfolding response_builder_append_char_def by (rule appends_buffer)

text \<open>The reference: a JSON string literal.\<close>

definition json_escape :: "char \<Rightarrow> string" where
  "json_escape c =
     (if c = BACKSLASH then [BACKSLASH, BACKSLASH] else if c = DQUOTE then [BACKSLASH, DQUOTE]
      else if c = NL then [BACKSLASH, CHR ''n''] else if c = CR then [BACKSLASH, CHR ''r'']
      else if c = TAB then [BACKSLASH, CHR ''t''] else [c])"

definition json_string :: "string \<Rightarrow> string" where
  "json_string text = DQUOTE # concat (map json_escape text) @ [DQUOTE]"

fun comma_join :: "string list \<Rightarrow> string" where
  "comma_join [] = []"
| "comma_join [x] = x"
| "comma_join (x # y # zs) = x @ '','' @ comma_join (y # zs)"

lemma appends_json_chars: "appends (\<lambda>b. append_json_chars b text) (concat (map json_escape text))"
proof (induction "text")
  case (Cons c cs)
  have "appends (\<lambda>b. if c = BACKSLASH then utils_append_buffer b [BACKSLASH, BACKSLASH]
           else if c = DQUOTE then utils_append_buffer b [BACKSLASH, DQUOTE]
           else if c = NL then utils_append_buffer b [BACKSLASH, CHR ''n'']
           else if c = CR then utils_append_buffer b [BACKSLASH, CHR ''r'']
           else if c = TAB then utils_append_buffer b [BACKSLASH, CHR ''t'']
           else response_builder_append_char b c) (json_escape c)"
    by (auto simp: json_escape_def intro: appends_buffer appends_char)
  from appends_seq [OF this Cons.IH] show ?case by simp
qed (simp add: appends_nothing)

lemma appends_json_string: "appends (\<lambda>b. response_builder_append_json_string b text) (json_string text)"
  unfolding response_builder_append_json_string_def json_string_def
  using appends_seq [OF appends_char appends_seq [OF appends_json_chars appends_char], of DQUOTE "text" DQUOTE] by simp

definition with_commas :: "bool \<Rightarrow> string list \<Rightarrow> string" where
  "with_commas first xs = (if first \<or> xs = [] then comma_join xs else CHR '','' # comma_join xs)"

lemma with_commas_Cons: "with_commas first (x # xs) = (if first then [] else '','') @ x @ with_commas False xs"
  by (cases xs) (simp_all add: with_commas_def)

lemma appends_comma: "appends (\<lambda>b. if first then Some b else response_builder_append_char b (CHR '','')) (if first then [] else '','')"
  using appends_nothing appends_char by simp

lemma appends_json_list: "appends (\<lambda>b. append_json_list first b xs) (with_commas first (map json_string xs))"
proof (induction xs arbitrary: first)
  case (Cons x xs)
  from appends_seq [OF appends_comma appends_seq [OF appends_json_string Cons.IH [of False]], of first x]
  show ?case by (simp add: with_commas_Cons)
qed (simp add: appends_nothing with_commas_def)

definition json_row :: "string list \<Rightarrow> string" where
  "json_row row = CHR ''['' # comma_join (map json_string row) @ '']''"

lemma appends_json_rows:
  "\<forall>row \<in> set rows. n = length row \<Longrightarrow>
   appends (\<lambda>b. append_json_rows n first b rows) (with_commas first (map json_row rows))"
proof (induction rows arbitrary: first)
  case (Cons row rows)
  have "appends (\<lambda>b. append_json_list True b row) (comma_join (map json_string row))"
    using appends_json_list [of True row] by (simp add: with_commas_def)
  from appends_seq [OF appends_comma appends_seq [OF appends_char appends_seq [OF this
      appends_seq [OF appends_char Cons.IH [of False]]]], of first "CHR ''[''" "CHR '']''"] Cons.prems
  show ?case by (simp add: with_commas_Cons json_row_def row_cells_def)
qed (simp add: appends_nothing with_commas_def)

lemma run_appends:
  assumes "appends f s" "s \<noteq> []"
  shows "\<exists>cap. f (None, 0) = Some (Some s, cap)"
proof -
  obtain b where "f (None, 0) = Some b" "buffer_text b = s"
    using assms(1) by (force simp: appends_def buffer_ok_def buffer_text_def)
  then show ?thesis using assms(2) by (cases b) (auto simp: buffer_text_def split: option.splits)
qed

section \<open>JSON values\<close>

datatype json = JBool bool | JNum int | JStr string | JArr "json list" | JObj "(string \<times> json) list"

fun json_text :: "json \<Rightarrow> string" where
  "json_text (JBool v) = (if v then ''true'' else ''false'')"
| "json_text (JNum i) = show_int i"
| "json_text (JStr s) = json_string s"
| "json_text (JArr vs) = ''['' @ comma_join (map json_text vs) @ '']''"
| "json_text (JObj kvs) = ''{'' @ comma_join (map (\<lambda>(k, v). json_string k @ '':'' @ json_text v) kvs) @ ''}''"

text \<open>Opening less closing brackets outside string literals.\<close>

fun brackets :: "bool \<Rightarrow> string \<Rightarrow> int" where
  "brackets in_string [] = 0"
| "brackets True [c] = 0"
| "brackets True (c # d # cs) =
     (if c = BACKSLASH then brackets True cs else if c = DQUOTE then brackets False (d # cs) else brackets True (d # cs))"
| "brackets False (c # cs) =
     (if c = DQUOTE then brackets True cs
      else (if c \<in> {CHR ''['', CHR ''{''} then 1 else if c \<in> {CHR '']'', CHR ''}''} then -1 else 0) + brackets False cs)"

lemma brackets_escaped: "brackets True (concat (map json_escape s) @ DQUOTE # t) = brackets False t"
proof (induction s)
  case Nil
  show ?case by (cases t) auto
next
  case (Cons c s)
  have "brackets True (c # u) = brackets True u" if "c \<noteq> BACKSLASH" "c \<noteq> DQUOTE" "u \<noteq> []" for c u
    using that by (cases u) auto
  then show ?case using Cons by (auto simp: json_escape_def)
qed

lemma brackets_string [simp]: "brackets False (json_string s @ t) = brackets False t"
  by (simp add: json_string_def brackets_escaped)

lemma brackets_plain:
  "\<forall>c \<in> set s. c \<notin> {DQUOTE, CHR ''['', CHR ''{'', CHR '']'', CHR ''}''} \<Longrightarrow> brackets False (s @ t) = brackets False t"
  by (induction s) auto

lemma digit_no_bracket: "is_digit c \<Longrightarrow> c \<notin> {DQUOTE, CHR ''['', CHR ''{'', CHR '']'', CHR ''}''}"
  by (auto simp: is_digit_def)

lemma brackets_number [simp]: "brackets False (show_int i @ t) = brackets False t"
proof (rule brackets_plain)
  show "\<forall>c \<in> set (show_int i). c \<notin> {DQUOTE, CHR ''['', CHR ''{'', CHR '']'', CHR ''}''}"
    using show_nat_digits [of "nat (- i)"] show_nat_digits [of "nat i"] digit_no_bracket
    by (auto simp: show_int_def list_all_iff split: if_splits)
qed

lemma brackets_joined:
  "\<forall>x \<in> set xs. \<forall>t. brackets False (x @ t) = brackets False t \<Longrightarrow> brackets False (comma_join xs @ t) = brackets False t"
  by (induction xs arbitrary: t rule: comma_join.induct) auto

lemma brackets_row: "brackets False (json_row row @ t) = brackets False t"
proof -
  have "brackets False (comma_join (map json_string row) @ u) = brackets False u" for u by (rule brackets_joined) auto
  then show ?thesis by (simp add: json_row_def)
qed

lemma brackets_json: "brackets False (json_text v @ t) = brackets False t"
proof (induction v arbitrary: t rule: json_text.induct)
  case (4 vs)
  have "brackets False (comma_join (map json_text vs) @ u) = brackets False u" for u
    by (rule brackets_joined) (use 4 in auto)
  then show ?case by simp
next
  case (5 kvs)
  have "brackets False (comma_join (map (\<lambda>(k, v). json_string k @ '':'' @ json_text v) kvs) @ u) = brackets False u" for u
    by (rule brackets_joined) (use 5 in auto)
  then show ?case by simp
qed simp_all

lemma json_balanced: "brackets False (json_text v) = 0"
  using brackets_json [of v "[]"] by simp

section \<open>Bodies\<close>

lemma int_digits: "\<bar>i\<bar> < 2 ^ 31 \<Longrightarrow> length (show_int i) \<le> 11"
proof -
  assume "\<bar>i\<bar> < 2 ^ 31"
  then have "nat (- i) < 10 ^ 10" "nat i < 10 ^ 10" by auto
  then show ?thesis using show_nat_length [of "nat (- i)" 10] show_nat_length [of "nat i" 10] by (auto simp: show_int_def)
qed

definition error_json :: "int \<Rightarrow> string \<Rightarrow> json" where
  "error_json status_code message =
     JObj [(''ok'', JBool False), (''status'', JNum status_code), (''error'', JStr message)]"

lemma error_body:
  assumes "\<bar>code\<bar> < 2 ^ 31"
  shows "build_json_error_response code message = Some (json_text (error_json code message))"
proof -
  let ?s = "''{\"ok\":false,\"status\":'' @ show_int code @ '',\"error\":''"
  have fits: "snprintf 64 ?s = ?s" by (rule snprintf_fits) (use int_digits [OF assms] in simp)
  have "appends (\<lambda>b. do { b1 \<leftarrow> utils_append_buffer b ?s; b2 \<leftarrow> response_builder_append_json_string b1 message;
      response_builder_append_char b2 (CHR ''}'') }) (?s @ json_string message @ ''}'')"
    by (intro appends_seq appends_buffer appends_json_string appends_char)
  from run_appends [OF this] obtain cap where "(do { b1 \<leftarrow> utils_append_buffer (None, 0) ?s;
      b2 \<leftarrow> response_builder_append_json_string b1 message; response_builder_append_char b2 (CHR ''}'') }) =
      Some (Some (?s @ json_string message @ ''}''), cap)" by auto
  then have "build_json_error_response code message = Some (?s @ json_string message @ ''}'')"
    unfolding build_json_error_response_def fits by (auto split: bind_splits)
  then show ?thesis by (simp add: error_json_def json_string_def json_escape_def)
qed

lemma finish_body:
  assumes "appends f s" "s \<noteq> []"
  shows "(do { b \<leftarrow> f (None, 0); body \<leftarrow> fst b; Some (200 :: int, body) }) = Some (200, s)"
  using run_appends [OF assms] by auto

text \<open>The common start of all query bodies.\<close>

definition query_start :: "db_result \<Rightarrow> string" where
  "query_start r = ''{\"ok\":true,\"type\":'' @ json_string (response_builder_result_type_name (res_type r)) @
     '',\"message\":'' @ json_string (res_message r)"

lemma build_query_parts:
  assumes "appends g t"
    and "\<And>b. (case res_type r of
        DB_RESULT_INSERT \<Rightarrow>
          utils_append_buffer b (snprintf 64 ('',\"rows_affected\":'' @ show_int (int (res_rows_affected r)) @ ''}''))
      | DB_RESULT_SELECT \<Rightarrow> do {
          c1 \<leftarrow> utils_append_buffer b (snprintf 64 ('',\"used_id_index\":'' @ (if res_used_id_index r then ''true'' else ''false'') @
            '',\"row_count\":'' @ show_int (int (length (res_rows r))) @ '',\"columns\":[''));
          c2 \<leftarrow> append_json_list True c1 (res_columns r);
          c3 \<leftarrow> utils_append_buffer c2 ''],\"rows\":['';
          c4 \<leftarrow> append_json_rows (length (res_columns r)) True c3 (res_rows r);
          response_builder_append_char c4 (CHR ''}'')
        }
      | _ \<Rightarrow> response_builder_append_char b (CHR ''}'')) = g b"
  shows "build_query_json_response r = Some (200, query_start r @ t)"
proof -
  have "appends (\<lambda>b. do {
      b1 \<leftarrow> utils_append_buffer b ''{\"ok\":true,\"type\":'';
      b2 \<leftarrow> response_builder_append_json_string b1 (response_builder_result_type_name (res_type r));
      b3 \<leftarrow> utils_append_buffer b2 '',\"message\":'';
      b4 \<leftarrow> response_builder_append_json_string b3 (res_message r);
      g b4 }) (''{\"ok\":true,\"type\":'' @ json_string (response_builder_result_type_name (res_type r)) @
        '',\"message\":'' @ json_string (res_message r) @ t)"
    by (intro appends_seq appends_buffer appends_json_string assms(1))
  from finish_body [OF this] show ?thesis
    by (simp add: build_query_json_response_def assms(2) query_start_def)
qed

definition insert_json :: "db_result \<Rightarrow> json" where
  "insert_json r = JObj [(''ok'', JBool True), (''type'', JStr ''insert''), (''message'', JStr (res_message r)),
     (''rows_affected'', JNum (int (res_rows_affected r)))]"

lemma insert_body:
  assumes "res_type r = DB_RESULT_INSERT" "res_rows_affected r < 2 ^ 31"
  shows "build_query_json_response r = Some (200, json_text (insert_json r))"
proof -
  let ?s = "'',\"rows_affected\":'' @ show_int (int (res_rows_affected r)) @ ''}''"
  have "snprintf 64 ?s = ?s" by (rule snprintf_fits) (use int_digits [of "int (res_rows_affected r)"] assms(2) in simp)
  then have "build_query_json_response r = Some (200, query_start r @ ?s)"
    by (intro build_query_parts [OF appends_buffer]) (simp add: assms(1))
  then show ?thesis by (simp add: insert_json_def query_start_def assms(1) response_builder_result_type_name_def
        json_string_def json_escape_def)
qed

definition select_json :: "db_result \<Rightarrow> json" where
  "select_json r = JObj [(''ok'', JBool True), (''type'', JStr ''select''), (''message'', JStr (res_message r)),
     (''used_id_index'', JBool (res_used_id_index r)), (''row_count'', JNum (int (length (res_rows r)))),
     (''columns'', JArr (map JStr (res_columns r))), (''rows'', JArr (map (\<lambda>row. JArr (map JStr row)) (res_rows r)))]"

lemma select_body:
  assumes ty: "res_type r = DB_RESULT_SELECT" and len: "length (res_rows r) < 2 ^ 31" and rect: "rectangular r"
  shows "\<exists>p. build_query_json_response r = Some (200, p @ ''}'') \<and> p @ '']}'' = json_text (select_json r) \<and>
     brackets False (p @ ''}'') = 1"
proof -
  let ?s = "'',\"used_id_index\":'' @ (if res_used_id_index r then ''true'' else ''false'') @
            '',\"row_count\":'' @ show_int (int (length (res_rows r))) @ '',\"columns\":[''"
  let ?cols = "comma_join (map json_string (res_columns r))" and ?rows = "comma_join (map json_row (res_rows r))"
  have "length (show_nat (length (res_rows r))) \<le> 10" by (rule show_nat_length) (use len in simp_all)
  then have fits: "snprintf 64 ?s = ?s" by (intro snprintf_fits) (simp add: show_int_def)
  have rows: "appends (\<lambda>b. append_json_rows (length (res_columns r)) True b (res_rows r)) ?rows"
    using appends_json_rows [of "res_rows r" "length (res_columns r)" True] rect by (simp add: rectangular_def with_commas_def)
  have cols: "appends (\<lambda>b. append_json_list True b (res_columns r)) ?cols"
    using appends_json_list [of True "res_columns r"] by (simp add: with_commas_def)
  let ?p = "query_start r @ ?s @ ?cols @ ''],\"rows\":['' @ ?rows"
  have app: "appends (\<lambda>b. do { c1 \<leftarrow> utils_append_buffer b ?s; c2 \<leftarrow> append_json_list True c1 (res_columns r);
      c3 \<leftarrow> utils_append_buffer c2 ''],\"rows\":[''; c4 \<leftarrow> append_json_rows (length (res_columns r)) True c3 (res_rows r);
      response_builder_append_char c4 (CHR ''}'') }) (?s @ ?cols @ ''],\"rows\":['' @ ?rows @ ''}'')"
    by (intro appends_seq appends_buffer cols rows appends_char)
  have "build_query_json_response r = Some (200, query_start r @ ?s @ ?cols @ ''],\"rows\":['' @ ?rows @ ''}'')"
    by (rule build_query_parts [OF app]) (simp only: ty fits db_result_type.case)
  moreover have "query_start r @ ?s @ ?cols @ ''],\"rows\":['' @ ?rows @ '']}'' = json_text (select_json r)"
    by (simp add: select_json_def query_start_def ty json_row_def [abs_def] response_builder_result_type_name_def
        json_string_def [of "''ok''"] json_string_def [of "''type''"] json_string_def [of "''message''"]
        json_string_def [of "''select''"] json_string_def [of "''used_id_index''"] json_string_def [of "''row_count''"]
        json_string_def [of "''columns''"] json_string_def [of "''rows''"] json_escape_def comp_def)
  moreover have "brackets False (?cols @ t) = brackets False t" for t
    by (rule brackets_joined) auto
  moreover have "brackets False (?rows @ t) = brackets False t" for t
    by (rule brackets_joined) (auto simp: brackets_row)
  ultimately show ?thesis by (intro exI [of _ ?p]) (simp add: query_start_def)
qed

section \<open>HTTP responses\<close>

lemma status_text_length: "length (response_builder_status_text code) \<le> 21"
  by (simp add: response_builder_status_text_def)

lemma http_response_fits:
  assumes "\<bar>code\<bar> < 2 ^ 31" "length body < 2 ^ 64"
  shows "build_http_response code body = Some (http_header code (length body) @ body)"
proof -
  have "length (show_nat (length body)) \<le> 20" by (rule show_nat_length) (use assms(2) in simp_all)
  then have "length (http_header code (length body)) < 256"
    using int_digits [OF assms(1)] status_text_length [of code] by (simp add: http_header_def)
  then show ?thesis by (simp add: build_http_response_def Let_def)
qed

section \<open>Properties\<close>

text \<open>
  C30: the body of a successful SELECT is never JSON: it is the text of the object with the message,
  the columns and all rows, but the bracket that closes the array of rows is missing, so no
  JSON value has this text.
\<close>

theorem select_response_unclosed:
  assumes "res_type r = DB_RESULT_SELECT" "length (res_rows r) < 2 ^ 31" "rectangular r"
  shows "\<exists>p. build_query_json_response r = Some (200, p @ ''}'') \<and> p @ '']}'' = json_text (select_json r) \<and>
     (\<forall>v. json_text v \<noteq> p @ ''}'')"
proof -
  obtain p where p: "build_query_json_response r = Some (200, p @ ''}'')" "p @ '']}'' = json_text (select_json r)"
    "brackets False (p @ ''}'') = 1" using select_body [OF assms] by blast
  have "json_text v \<noteq> p @ ''}''" for v using json_balanced [of v] p(3) by auto
  then show ?thesis using p(1,2) by blast
qed

definition sample_result :: db_result where
  "sample_result = db_result_init\<lparr>res_type := DB_RESULT_SELECT, res_success := True, res_columns := [''id'', ''name''],
     res_rows := [[''1'', ''Ann''], [''2'', ''Bob'']], res_rows_affected := 2, res_message := ''2 rows selected.''\<rparr>"

theorem select_response_unclosed_witness:
  "\<exists>p. build_query_json_response sample_result = Some (200, p @ ''}'') \<and> p @ '']}'' = json_text (select_json sample_result) \<and>
     (\<forall>v. json_text v \<noteq> p @ ''}'')"
  by (rule select_response_unclosed) (simp_all add: sample_result_def rectangular_def MAX_COLUMNS_def)



end
