(* ===== verification/Http.thy ===== *)
theory Http
  imports Engine_Correct Responses
begin

text \<open>
  Requests: the HTTP parser of \<^verbatim>\<open>src/api/http_parser.c\<close>, the JSON field extraction and the
  routing of \<^verbatim>\<open>src/api/request_router.c\<close>.  The reference is the text of a well-formed request
  (request line, header lines, blank line, body).
\<close>

section \<open>Parser\<close>

definition MAX_HTTP_METHOD_LEN :: nat where "MAX_HTTP_METHOD_LEN = 8"
definition MAX_HTTP_PATH_LEN :: nat where "MAX_HTTP_PATH_LEN = 128"
definition MAX_HTTP_PROTOCOL_LEN :: nat where "MAX_HTTP_PROTOCOL_LEN = 16"

lemmas http_limits = MAX_HTTP_METHOD_LEN_def MAX_HTTP_PATH_LEN_def MAX_HTTP_PROTOCOL_LEN_def

abbreviation CRLF :: string where "CRLF \<equiv> [CR, NL]"

record http_request =
  hr_method :: string
  hr_path :: string
  hr_protocol :: string
  hr_body :: string
  hr_body_length :: nat

text \<open>One conversion of \<^verbatim>\<open>sscanf\<close>, \<^verbatim>\<open>%<width>s\<close>: skip white space, then take up to \<open>width\<close> other characters.\<close>

definition scan_word :: "nat \<Rightarrow> string \<Rightarrow> (string \<times> string) option" where
  "scan_word width text =
     (let t = dropWhile is_space text; w = take width (takeWhile (\<lambda>c. \<not> is_space c) t) in
      if w = [] then None else Some (w, drop (length w) t))"

text \<open>\<^verbatim>\<open>sscanf(line, "%7s %127s %15s", ...) == 3\<close>\<close>

definition scan_request_line :: "string \<Rightarrow> (string \<times> string \<times> string) option" where
  "scan_request_line line = do {
     (method, rest1) \<leftarrow> scan_word 7 line;
     (path, rest2) \<leftarrow> scan_word 127 rest1;
     (protocol, rest3) \<leftarrow> scan_word 15 rest2;
     Some (method, path, protocol)
   }"

definition parse_http_request :: "string \<Rightarrow> http_request option" where
  "parse_http_request raw_request = do {
     line_end \<leftarrow> strstr raw_request CRLF;
     let line_length = length raw_request - length line_end;
     if line_length = 0 \<or> 256 \<le> line_length then None
     else do {
       (method, path, protocol) \<leftarrow> scan_request_line (take line_length raw_request);
       body_start \<leftarrow> strstr raw_request (CRLF @ CRLF);
       let body = drop 4 body_start;
       Some \<lparr>hr_method = method, hr_path = path, hr_protocol = protocol, hr_body = body, hr_body_length = length body\<rparr>
     }
   }"

section \<open>Router\<close>

fun request_router_skip_spaces :: "string \<Rightarrow> string" where
  "request_router_skip_spaces [] = []"
| "request_router_skip_spaces (c # cs) = (if is_space c then request_router_skip_spaces cs else c # cs)"

definition request_router_append_json_char :: "text_buffer \<Rightarrow> char \<Rightarrow> text_buffer option" where
  "request_router_append_json_char b c = utils_append_buffer b [c]"

text \<open>An empty string leaves the pointer NULL.\<close>

datatype extract_result = Extract_fails | Extracted "string option"

fun extract_loop :: "text_buffer \<Rightarrow> string \<Rightarrow> extract_result option" where
  "extract_loop sql [] = Some Extract_fails"
| "extract_loop sql [c] =
     (if c = DQUOTE then Some (Extracted (fst sql))
      else if c = BACKSLASH then Some Extract_fails
      else do { sql' \<leftarrow> request_router_append_json_char sql c; extract_loop sql' [] })"
| "extract_loop sql (c # d # cs) =
     (if c = DQUOTE then Some (Extracted (fst sql))
      else if c = BACKSLASH
      then (if d = DQUOTE \<or> d = BACKSLASH \<or> d = CHR ''/''
            then do { sql' \<leftarrow> request_router_append_json_char sql d; extract_loop sql' cs }
            else if d = CHR ''n'' then do { sql' \<leftarrow> request_router_append_json_char sql NL; extract_loop sql' cs }
            else if d = CHR ''r'' then do { sql' \<leftarrow> request_router_append_json_char sql CR; extract_loop sql' cs }
            else if d = CHR ''t'' then do { sql' \<leftarrow> request_router_append_json_char sql TAB; extract_loop sql' cs }
            else Some Extract_fails)
      else do { sql' \<leftarrow> request_router_append_json_char sql c; extract_loop sql' (d # cs) })"

definition extract_sql_from_json :: "string \<Rightarrow> extract_result option" where
  "extract_sql_from_json body =
     (case strstr body ''\"sql\"'' of
        None \<Rightarrow> Some Extract_fails
      | Some found \<Rightarrow>
          (case request_router_skip_spaces (drop 5 found) of
             [] \<Rightarrow> Some Extract_fails
           | c # cursor \<Rightarrow>
               if c \<noteq> CHR '':'' then Some Extract_fails
               else (case request_router_skip_spaces cursor of
                       [] \<Rightarrow> Some Extract_fails
                     | q # text \<Rightarrow> if q \<noteq> DQUOTE then Some Extract_fails else extract_loop (None, 0) text)))"

text \<open>
  The handlers return the state of engine and locks with the status code and the body, or
  \<open>None\<close> for \<^verbatim>\<open>FAILURE\<close>; the outer option is undefined behaviour or a lock call that waits.
\<close>

type_synonym route_result = "(db_engine \<times> lock_manager_state \<times> (int \<times> string) option) option"

definition handle_health_request :: "thread_pool \<Rightarrow> int \<times> string" where
  "handle_health_request pool = (200, build_health_json_response (thread_pool_get_stats pool))"

definition handle_query_request :: "nat \<Rightarrow> db_engine \<Rightarrow> lock_manager_state \<Rightarrow> http_request \<Rightarrow> route_result" where
  "handle_query_request i en lm request = do {
     extracted \<leftarrow> extract_sql_from_json (hr_body request);
     case extracted of
       Extract_fails \<Rightarrow>
         Some (en, lm, map_option (Pair 400)
           (build_json_error_response 400 ''Request body must contain a JSON string field named sql.''))
     | Extracted sql \<Rightarrow> do {
         (en', lm', result, status) \<leftarrow> execute_query_with_lock i en lm sql db_result_init;
         if status \<noteq> SUCCESS
         then Some (en', lm', map_option (Pair 400) (build_json_error_response 400
                (if res_message result \<noteq> [] then res_message result else ''SQL execution failed.'')))
         else Some (en', lm', build_query_json_response result)
       }
   }"

definition route_request ::
  "nat \<Rightarrow> thread_pool \<Rightarrow> db_engine \<Rightarrow> lock_manager_state \<Rightarrow> http_request \<Rightarrow> route_result" where
  "route_request i pool en lm request =
     (if utils_equals_ignore_case (hr_path request) ''/health''
      then (if \<not> utils_equals_ignore_case (hr_method request) ''GET''
            then Some (en, lm, map_option (Pair 405) (build_json_error_response 405 ''Only GET is allowed for /health.''))
            else Some (en, lm, Some (handle_health_request pool)))
      else if utils_equals_ignore_case (hr_path request) ''/query''
      then (if \<not> utils_equals_ignore_case (hr_method request) ''POST''
            then Some (en, lm, map_option (Pair 405) (build_json_error_response 405 ''Only POST is allowed for /query.''))
            else handle_query_request i en lm request)
      else Some (en, lm, map_option (Pair 404) (build_json_error_response 404 ''Route not found.'')))"

section \<open>Searching text\<close>

lemma prefix_of_append [simp]: "prefix_of pat (pat @ s)"
  by (induction pat) auto

lemma strstr_here: "pat \<noteq> [] \<Longrightarrow> strstr (pat @ s) pat = Some (pat @ s)"
  using prefix_of_append [of pat s] by (cases pat) auto

lemma strstr_skip:
  "\<forall>c \<in> set pre. c \<noteq> hd pat \<Longrightarrow> pat \<noteq> [] \<Longrightarrow> strstr (pre @ s) pat = strstr s pat"
  by (induction pre) (auto simp: neq_Nil_conv)

lemma skip_spaces_eq: "request_router_skip_spaces s = dropWhile is_space s"
  by (induction s) auto

section \<open>The text of a request\<close>

definition http_head :: "string \<Rightarrow> string \<Rightarrow> string \<Rightarrow> string list \<Rightarrow> string" where
  "http_head method path protocol headers =
     method @ '' '' @ path @ '' '' @ protocol @ CRLF @ concat (map (\<lambda>h. h @ CRLF) headers)"

definition http_text :: "string \<Rightarrow> string \<Rightarrow> string \<Rightarrow> string list \<Rightarrow> string \<Rightarrow> string" where
  "http_text method path protocol headers body = http_head method path protocol headers @ CRLF @ body"

definition http_word :: "nat \<Rightarrow> string \<Rightarrow> bool" where
  "http_word width w \<longleftrightarrow> w \<noteq> [] \<and> length w \<le> width \<and> list_all (\<lambda>c. \<not> is_space c) w"

definition http_line :: "string \<Rightarrow> bool" where
  "http_line h \<longleftrightarrow> h \<noteq> [] \<and> CR \<notin> set h"

definition http_ok :: "string \<Rightarrow> string \<Rightarrow> string \<Rightarrow> string list \<Rightarrow> bool" where
  "http_ok method path protocol headers \<longleftrightarrow>
     http_word 7 method \<and> http_word 127 path \<and> http_word 15 protocol \<and> list_all http_line headers"

lemma space_chars [simp]: "is_space (CHR '' '')" "is_space CR" "is_space NL"
  by (simp_all add: is_space_def)

lemma http_word_no_CR: "http_word n w \<Longrightarrow> c \<in> set w \<Longrightarrow> c \<noteq> CR"
  by (auto simp: http_word_def list_all_iff)

lemma scan_word_first:
  assumes "http_word n w" "rest = [] \<or> is_space (hd rest)"
  shows "scan_word n (w @ rest) = Some (w, rest)" "scan_word n (CHR '' '' # w @ rest) = Some (w, rest)"
proof -
  have "takeWhile (\<lambda>c. \<not> is_space c) (w @ rest) = w" "dropWhile is_space (w @ rest) = w @ rest"
    using assms by (cases rest; cases w; auto simp: http_word_def list_all_iff takeWhile_append)+
  then show "scan_word n (w @ rest) = Some (w, rest)" "scan_word n (CHR '' '' # w @ rest) = Some (w, rest)"
    using assms(1) by (auto simp: scan_word_def http_word_def neq_Nil_conv)
qed

lemma scan_request_line_text:
  assumes "http_word 7 m" "http_word 127 p" "http_word 15 v"
  shows "scan_request_line (m @ '' '' @ p @ '' '' @ v) = Some (m, p, v)"
  using scan_word_first(1) [OF assms(1), of "'' '' @ p @ '' '' @ v"] scan_word_first(2) [OF assms(2), of "'' '' @ v"]
    scan_word_first(2) [OF assms(3), of "[]"]
  by (simp add: scan_request_line_def)

lemma blank_line_found:
  assumes "CR \<notin> set line" "list_all http_line headers"
  shows "strstr (line @ CRLF @ concat (map (\<lambda>h. h @ CRLF) headers) @ CRLF @ body) (CRLF @ CRLF) = Some (CRLF @ CRLF @ body)"
  using assms
proof (induction headers arbitrary: line)
  case Nil
  then show ?case using strstr_skip [of line "CRLF @ CRLF" "CRLF @ CRLF @ body"] by auto
next
  case (Cons h hs)
  obtain c cs where h: "h = c # cs" "c \<noteq> CR" using Cons.prems(2) by (cases h) (auto simp: http_line_def)
  have "strstr (line @ CRLF @ h @ s) (CRLF @ CRLF) = strstr (h @ s) (CRLF @ CRLF)" for s
    using strstr_skip [of line "CRLF @ CRLF" "CRLF @ h @ s"] Cons.prems(1) h by auto
  from this [of "CRLF @ concat (map (\<lambda>h. h @ CRLF) hs) @ CRLF @ body"] show ?case
    using Cons.IH [of h] Cons.prems(2) by (simp add: http_line_def)
qed

lemma parse_http_text:
  assumes "http_ok m p v hs"
  shows "parse_http_request (http_text m p v hs body) =
     Some \<lparr>hr_method = m, hr_path = p, hr_protocol = v, hr_body = body, hr_body_length = length body\<rparr>"
proof -
  let ?line = "m @ '' '' @ p @ '' '' @ v" and ?rest = "CRLF @ concat (map (\<lambda>h. h @ CRLF) hs) @ CRLF @ body"
  have w: "http_word 7 m" "http_word 127 p" "http_word 15 v" "list_all http_line hs" using assms by (auto simp: http_ok_def)
  have no: "CR \<notin> set ?line" using http_word_no_CR w by auto
  have whole: "http_text m p v hs body = ?line @ ?rest" by (simp add: http_text_def http_head_def)
  have "strstr (?line @ ?rest) CRLF = Some ?rest"
    using strstr_skip [of ?line CRLF ?rest] no by auto
  moreover have "strstr (?line @ ?rest) (CRLF @ CRLF) = Some (CRLF @ CRLF @ body)" by (rule blank_line_found [OF no w(4)])
  moreover have "length ?line < 256" "?line \<noteq> []" using w by (auto simp: http_word_def)
  moreover have "take (length ?line) (?line @ ?rest) = ?line" by simp
  ultimately show ?thesis unfolding whole parse_http_request_def using scan_request_line_text [OF w(1,2,3)] by simp
qed

end
