(* ===== verification/Http_Correct.thy ===== *)
theory Http_Correct
  imports Http
begin

text \<open>
  The JSON field a client sends is read back, and extracting it is defined for every body.
\<close>

section \<open>The SQL text in a request body\<close>

lemma append_json_char:
  assumes "buffer_ok b"
  shows "\<exists>cap. request_router_append_json_char b c = Some (Some (buffer_text b @ [c]), cap) \<and>
     buffer_ok (Some (buffer_text b @ [c]), cap)"
proof -
  obtain b' where "utils_append_buffer b [c] = Some b'" "buffer_ok b'" "buffer_text b' = buffer_text b @ [c]" "fst b' \<noteq> None"
    using append_buffer_ok [OF assms, of "[c]"] by blast
  then show ?thesis by (cases b') (auto simp: request_router_append_json_char_def buffer_text_def split: option.splits)
qed

lemma extract_escape:
  "extract_loop b (json_escape c @ d # u) = (request_router_append_json_char b c \<bind> (\<lambda>b'. extract_loop b' (d # u)))"
  by (simp add: json_escape_def)

lemma extract_escaped:
  "buffer_ok b \<Longrightarrow> extract_loop b (concat (map json_escape s) @ DQUOTE # t) =
     Some (Extracted (if s = [] then fst b else Some (buffer_text b @ s)))"
proof (induction s arbitrary: b)
  case Nil
  show ?case by (cases t) auto
next
  case (Cons c s)
  obtain cap where b: "request_router_append_json_char b c = Some (Some (buffer_text b @ [c]), cap)"
    "buffer_ok (Some (buffer_text b @ [c]), cap)" using append_json_char [OF Cons.prems] by blast
  obtain d u where u: "concat (map json_escape s) @ DQUOTE # t = d # u" by (cases "concat (map json_escape s)") auto
  have ih: "extract_loop (Some (buffer_text b @ [c]), cap) (d # u) = Some (Extracted (Some (buffer_text b @ c # s)))"
    using Cons.IH [OF b(2)] u by (simp add: buffer_text_def)
  moreover have "concat (map json_escape (c # s)) @ DQUOTE # t = json_escape c @ d # u" using u by simp
  ultimately show ?case using b(1) by (simp only: extract_escape bind.bind_lunit list.distinct if_False)
qed

text \<open>A body that gives the field \<^verbatim>\<open>sql\<close> first, with optional white space.\<close>

definition sql_body :: "string \<Rightarrow> string \<Rightarrow> string \<Rightarrow> string \<Rightarrow> string \<Rightarrow> string" where
  "sql_body sp1 sp2 sp3 sql rest = ''{'' @ sp1 @ ''\"sql\"'' @ sp2 @ '':'' @ sp3 @ json_string sql @ rest"

lemma extract_sql_body:
  assumes "list_all is_space sp1" "list_all is_space sp2" "list_all is_space sp3"
  shows "extract_sql_from_json (sql_body sp1 sp2 sp3 sql rest) = Some (Extracted (if sql = [] then None else Some sql))"
proof -
  have drop: "dropWhile is_space (sp @ c # u) = c # u" if "list_all is_space sp" "\<not> is_space c" for sp c u
    using that by (induction sp) auto
  have "\<forall>c \<in> set (''{'' @ sp1). c \<noteq> DQUOTE" using assms(1) by (auto simp: list_all_iff is_space_def)
  then have "strstr (sql_body sp1 sp2 sp3 sql rest) ''\"sql\"'' = Some (''\"sql\"'' @ sp2 @ '':'' @ sp3 @ json_string sql @ rest)"
    using strstr_skip [of "''{'' @ sp1" "''\"sql\"''" "''\"sql\"'' @ sp2 @ '':'' @ sp3 @ json_string sql @ rest"]
      strstr_here [of "''\"sql\"''" "sp2 @ '':'' @ sp3 @ json_string sql @ rest"]
    unfolding sql_body_def by simp
  moreover have "\<not> is_space (CHR '':'')" "\<not> is_space DQUOTE" by (simp_all add: is_space_def)
  ultimately show ?thesis
    using extract_escaped [of "(None, 0)" sql rest] assms drop
    by (simp add: extract_sql_from_json_def skip_spaces_eq json_string_def buffer_ok_def buffer_text_def)
qed

text \<open>Extraction never fails to give a result, whatever the body.\<close>

lemma extract_loop_total: "buffer_ok b \<Longrightarrow> \<exists>res. extract_loop b s = Some res"
proof (induction b s rule: extract_loop.induct)
  case (2 b c)
  then show ?case using append_json_char [OF 2(2), of c] by auto
next
  case (3 b c d cs)
  have step: "\<exists>b'. request_router_append_json_char b x = Some b' \<and> buffer_ok b'" for x
    using append_json_char [OF "3.prems"] by blast
  show ?case using 3(1-6) step [of d] step [of c] step [of NL] step [of CR] step [of TAB] by auto
qed simp

lemma extract_total: "\<exists>res. extract_sql_from_json body = Some res"
  using extract_loop_total [of "(None, 0)"]
  by (auto simp: extract_sql_from_json_def buffer_ok_def split: option.splits list.splits)

end
