(* ===== verification/Server.thy ===== *)
theory Server
  imports Http_Correct
begin

text \<open>
  The server of \<^verbatim>\<open>src/api/api_server.c\<close> and its command line \<^verbatim>\<open>src/api/api_main.c\<close>.  What the
  network does is an argument: the results of the successive \<^verbatim>\<open>recv\<close> calls and the byte counts
  of the successive \<^verbatim>\<open>send\<close> calls.  A call with no result left waits; sizes that the code keeps
  in \<^verbatim>\<open>size_t\<close> and can wrap around are 64-bit words.
\<close>

section \<open>Reading a request\<close>

definition API_SERVER_MAX_REQUEST_SIZE :: nat where "API_SERVER_MAX_REQUEST_SIZE = 65536"

text \<open>Outer \<open>None\<close>: the doubling loop does not end; inner \<open>None\<close>: \<^verbatim>\<open>FAILURE\<close>.\<close>

definition api_server_append_bytes :: "text_buffer \<Rightarrow> string \<Rightarrow> text_buffer option option" where
  "api_server_append_bytes b chunk =
     (if chunk = [] then Some None
      else case b of
        (None, cap) \<Rightarrow> Some (Some (Some chunk, max (length chunk + 1) 1024))
      | (Some s, cap) \<Rightarrow>
          if cap < length s + length chunk + 1
          then map_option (\<lambda>cap'. Some (Some (s @ chunk), cap')) (grow_capacity (length s + length chunk + 1) cap)
          else Some (Some (Some (s @ chunk), cap)))"

text \<open>\<^verbatim>\<open>strtoull(text, NULL, 10)\<close>: a sign negates modulo \<open>2 ^ 64\<close>, too large numbers give the largest.\<close>

definition strtoull :: "string \<Rightarrow> 64 word" where
  "strtoull text =
     (case dropWhile is_space text of
        [] \<Rightarrow> 0
      | c # cs \<Rightarrow>
          let n = digits_value 0 (if c = CHR ''-'' \<or> c = CHR ''+'' then cs else c # cs) in
          if 2 ^ 64 \<le> n then - 1 else if c = CHR ''-'' then - word_of_int n else word_of_int n)"

text \<open>\<^verbatim>\<open>strncasecmp(text, name, strlen(name)) == 0\<close>\<close>

definition starts_ignoring_case :: "string \<Rightarrow> string \<Rightarrow> bool" where
  "starts_ignoring_case text name \<longleftrightarrow> utils_equals_ignore_case (take (length name) text) name"

lemma strstr_length: "strstr s pat = Some u \<Longrightarrow> length u \<le> length s"
  by (induction s pat rule: strstr.induct) (auto split: if_splits)

function content_length_loop :: "string \<Rightarrow> 64 word" where
  "content_length_loop cursor =
     (if cursor = [] then 0
      else case strstr cursor CRLF of
        None \<Rightarrow> 0
      | Some line_end \<Rightarrow>
          if length line_end = length cursor then 0
          else if starts_ignoring_case cursor ''Content-Length:''
          then strtoull (dropWhile (\<lambda>c. c = CHR '' '' \<or> c = TAB) (drop 15 cursor))
          else content_length_loop (drop 2 line_end))"
  by pat_completeness auto
termination
  by (relation "measure length") (auto dest!: strstr_length)

declare content_length_loop.simps [simp del]

definition api_server_extract_content_length :: "string \<Rightarrow> 64 word" where
  "api_server_extract_content_length headers = content_length_loop headers"

datatype recv_result = Recv_bytes string | Recv_eof | Recv_error

datatype read_result = Read_waits | Read_fails | Read_request string

text \<open>The test for the end of the header after each piece: whether it has been seen, and the expected size.\<close>

definition header_state :: "bool \<Rightarrow> 64 word \<Rightarrow> string \<Rightarrow> bool \<times> 64 word" where
  "header_state header_complete expected_total buffer =
     (if header_complete then (True, expected_total)
      else case strstr buffer (CRLF @ CRLF) of
        None \<Rightarrow> (False, expected_total)
      | Some header_end \<Rightarrow>
          (True, of_nat (length buffer - length header_end) + 4 + api_server_extract_content_length buffer))"

fun read_loop :: "text_buffer \<Rightarrow> bool \<Rightarrow> 64 word \<Rightarrow> recv_result list \<Rightarrow> read_result option" where
  "read_loop b header_complete expected_total [] = Some Read_waits"
| "read_loop b header_complete expected_total (Recv_error # rs) = Some Read_fails"
| "read_loop b header_complete expected_total (Recv_eof # rs) =
     (if header_complete then Some (Read_request (buffer_text b)) else Some Read_fails)"
| "read_loop b header_complete expected_total (Recv_bytes chunk # rs) =
     (if API_SERVER_MAX_REQUEST_SIZE < length (buffer_text b) + length chunk then Some Read_fails
      else do {
        appended \<leftarrow> api_server_append_bytes b chunk;
        case appended of
          None \<Rightarrow> Some Read_fails
        | Some b' \<Rightarrow>
            let (complete, expected) = header_state header_complete expected_total (c_string (buffer_text b')) in
            if complete \<and> expected \<le> of_nat (length (buffer_text b')) then Some (Read_request (buffer_text b'))
            else read_loop b' complete expected rs
      })"

definition api_server_read_http_request :: "recv_result list \<Rightarrow> read_result option" where
  "api_server_read_http_request rs = read_loop (None, 0) False 0 rs"

section \<open>Sending a response\<close>

text \<open>The bytes handed to the network and the status; \<open>None\<close> while a \<^verbatim>\<open>send\<close> call waits.\<close>

fun send_loop :: "string \<Rightarrow> nat \<Rightarrow> string \<Rightarrow> int list \<Rightarrow> (string \<times> status) option" where
  "send_loop response total_sent out sends =
     (if total_sent < length response
      then (case sends of
              [] \<Rightarrow> None
            | sent # sends' \<Rightarrow>
                if sent \<le> 0 then Some (out, FAILURE)
                else send_loop response (total_sent + nat sent) (out @ take (nat sent) (drop total_sent response)) sends')
      else Some (out, SUCCESS))"

declare send_loop.simps [simp del]

definition api_server_send_all :: "string \<Rightarrow> int list \<Rightarrow> (string \<times> status) option" where
  "api_server_send_all response sends = send_loop response 0 [] sends"

definition api_server_send_json_error :: "int \<Rightarrow> string \<Rightarrow> int list \<Rightarrow> (string \<times> status) option" where
  "api_server_send_json_error status_code message sends =
     (case build_json_error_response status_code message of
        None \<Rightarrow> Some ([], FAILURE)
      | Some body \<Rightarrow>
          (case build_http_response status_code body of
             None \<Rightarrow> Some ([], FAILURE)
           | Some response \<Rightarrow> api_server_send_all response sends))"

section \<open>One client\<close>

definition api_server_handle_client ::
  "nat \<Rightarrow> thread_pool \<Rightarrow> db_engine \<Rightarrow> lock_manager_state \<Rightarrow> recv_result list \<Rightarrow> int list \<Rightarrow>
   (db_engine \<times> lock_manager_state \<times> string \<times> status) option" where
  "api_server_handle_client i pool en lm recvs sends = do {
     received \<leftarrow> api_server_read_http_request recvs;
     case received of
       Read_waits \<Rightarrow> None
     | Read_fails \<Rightarrow> do {
         out \<leftarrow> api_server_send_json_error 400 ''Failed to read HTTP request.'' sends;
         Some (en, lm, out)
       }
     | Read_request raw_request \<Rightarrow>
         (case parse_http_request (c_string raw_request) of
            None \<Rightarrow> do {
              out \<leftarrow> api_server_send_json_error 400 ''Malformed HTTP request.'' sends;
              Some (en, lm, out)
            }
          | Some request \<Rightarrow> do {
              (en', lm', answer) \<leftarrow> route_request i pool en lm request;
              out \<leftarrow> (case answer of
                 None \<Rightarrow> api_server_send_json_error 500 ''Failed to build response.'' sends
               | Some (status_code, body) \<Rightarrow>
                   (case build_http_response status_code body of
                      None \<Rightarrow> api_server_send_json_error 500 ''Failed to serialize HTTP response.'' sends
                    | Some response \<Rightarrow> api_server_send_all response sends));
              Some (en', lm', out)
            })
   }"

text \<open>
  The test for the fast path reads the first 255 bytes without taking them; \<open>peeked\<close> is
  empty if nothing arrived.
\<close>

definition api_server_is_health_fast_path_request :: "string \<Rightarrow> bool" where
  "api_server_is_health_fast_path_request peeked =
     (if peeked = [] then False
      else let peek_buffer = c_string (take 255 peeked) in
      case strstr peek_buffer CRLF of
        None \<Rightarrow> False
      | Some line_end \<Rightarrow>
          (case scan_request_line (take (length peek_buffer - length line_end) peek_buffer) of
             None \<Rightarrow> False
           | Some (method, path, protocol) \<Rightarrow> utils_equals_ignore_case method ''GET'' \<and> strcmp path ''/health'' = 0))"

text \<open>What the accept loop of \<^verbatim>\<open>api_server_run\<close> does with a new connection.\<close>

datatype accept_action = Answer_inline | Queued | Reject_busy

definition accept_client :: "thread_pool \<Rightarrow> int \<Rightarrow> string \<Rightarrow> (thread_pool \<times> accept_action) option" where
  "accept_client pool client_fd peeked =
     (if api_server_is_health_fast_path_request peeked then Some (pool, Answer_inline)
      else do {
        (pool', st) \<leftarrow> thread_pool_submit pool client_fd;
        Some (pool', if st \<noteq> SUCCESS then Reject_busy else Queued)
      })"

section \<open>Command line\<close>

record api_server_config =
  cfg_port :: int
  cfg_worker_count :: int
  cfg_queue_capacity :: int

definition api_main_parse_positive_int :: "string \<Rightarrow> int \<Rightarrow> int option" where
  "api_main_parse_positive_int text max_value =
     (if \<not> utils_is_integer text then None
      else let parsed = utils_parse_integer text in
      if parsed \<le> 0 \<or> max_value < parsed then None else Some parsed)"

text \<open>The configuration \<^verbatim>\<open>main\<close> makes of the arguments behind the program name; \<open>None\<close> is \<^verbatim>\<open>EXIT_FAILURE\<close>.\<close>

definition api_main_config :: "string list \<Rightarrow> api_server_config option" where
  "api_main_config args =
     (if 3 < length args then None
      else do {
        port \<leftarrow> (if 1 \<le> length args then api_main_parse_positive_int (args ! 0) 65535 else Some 8080);
        workers \<leftarrow> (if 2 \<le> length args then api_main_parse_positive_int (args ! 1) 256 else Some 4);
        capacity \<leftarrow> (if 3 \<le> length args then api_main_parse_positive_int (args ! 2) 4096 else Some 16);
        Some \<lparr>cfg_port = port, cfg_worker_count = workers, cfg_queue_capacity = capacity\<rparr>
      })"

end
