(* ===== verification/Server_Correct.thy ===== *)
theory Server_Correct
  imports Server
begin

text \<open>
  A well-formed request is received whole, however the network cuts it; a response is sent
  whole, however little each \<^verbatim>\<open>send\<close> takes; and a query request is answered with the result of
  its SQL text.
\<close>

section \<open>Searching a prefix\<close>

lemma prefix_of_take: "prefix_of pat s \<Longrightarrow> prefix_of pat (s @ t)"
  by (induction pat s rule: prefix_of.induct) auto

lemma prefix_of_length: "prefix_of pat s \<Longrightarrow> length pat \<le> length s"
  by (induction pat s rule: prefix_of.induct) auto

lemma prefix_of_cut: "prefix_of pat (s @ t) \<Longrightarrow> \<not> prefix_of pat s \<Longrightarrow> length s < length pat"
  by (induction pat s rule: prefix_of.induct) auto

text \<open>A match in a prefix is the match in the whole text; one only in the whole text ends behind the prefix.\<close>

lemma strstr_long: "strstr s pat = Some u \<Longrightarrow> length pat \<le> length u"
  by (induction s pat rule: strstr.induct) (auto split: if_splits dest: prefix_of_length)

lemma strstr_more: "strstr s pat = Some u \<Longrightarrow> pat \<noteq> [] \<Longrightarrow> strstr (s @ t) pat = Some (u @ t)"
proof (induction s pat rule: strstr.induct)
  case (2 c cs pat)
  show ?case
  proof (cases "prefix_of pat (c # cs)")
    case True
    then have u: "u = c # cs" using 2 by simp
    show ?thesis using prefix_of_take [OF True, of t] unfolding u by simp
  next
    case False
    then have "strstr cs pat = Some u" using 2 by simp
    moreover have "\<not> prefix_of pat (c # cs @ t)"
      using prefix_of_cut [of pat "c # cs" t] strstr_long [OF calculation] strstr_length [OF calculation] False by auto
    ultimately show ?thesis using 2 False by simp
  qed
qed simp

lemma strstr_later:
  "strstr s pat = None \<Longrightarrow> pat \<noteq> [] \<Longrightarrow> strstr (s @ t) pat = Some u \<Longrightarrow> length u < length pat + length t"
proof (induction s pat rule: strstr.induct)
  case (1 pat)
  then show ?case using strstr_length [of t pat u] by (cases pat) auto
next
  case (2 c cs pat)
  then have no: "\<not> prefix_of pat (c # cs)" "strstr cs pat = None" by (auto split: if_splits)
  show ?case
  proof (cases "prefix_of pat (c # cs @ t)")
    case True
    then have "length (c # cs) < length pat" using prefix_of_cut [of pat "c # cs" t] no by simp
    then show ?thesis using 2 True by auto
  next
    case False
    then show ?thesis using 2 no by simp
  qed
qed

section \<open>The announced length\<close>

definition is_length_header :: "string \<Rightarrow> bool" where
  "is_length_header h \<longleftrightarrow> starts_ignoring_case h ''Content-Length:''"

definition length_header :: "nat \<Rightarrow> string" where
  "length_header n = ''Content-Length: '' @ show_nat n"

lemma equals_ignore_length: "utils_equals_ignore_case a b \<Longrightarrow> length a = length b"
  by (induction a b rule: utils_equals_ignore_case.induct) auto

lemma starts_with_name: "starts_ignoring_case s ''Content-Length:'' = utils_equals_ignore_case (take 15 s) ''Content-Length:''"
proof -
  have "length ''Content-Length:'' = 15" by simp
  then show ?thesis unfolding starts_ignoring_case_def by (simp only:)
qed

lemma header_prefix:
  assumes "CR \<notin> set h"
  shows "starts_ignoring_case (h @ CR # s) ''Content-Length:'' = is_length_header h"
proof (cases "length h < 15")
  case True
  then have "CR \<in> set (take 15 (h @ CR # s))" by (auto simp: take_Cons')
  then have "\<not> starts_ignoring_case (h @ CR # s) ''Content-Length:''"
    using equals_ignore_plain [of "take 15 (h @ CR # s)" "''Content-Length:''" CR]
    by (auto simp: starts_with_name is_alpha_def is_upper_def is_lower_def)
  moreover have "\<not> is_length_header h"
    using equals_ignore_length [of "take 15 h" "''Content-Length:''"] True
    by (auto simp: is_length_header_def starts_with_name)
  ultimately show ?thesis by simp
next
  case False
  then show ?thesis by (simp add: is_length_header_def starts_with_name)
qed

lemma digits_value_stop: "list_all is_digit ds \<Longrightarrow> \<not> is_digit c \<Longrightarrow> digits_value acc (ds @ c # s) = digits_value acc ds"
  by (induction ds arbitrary: acc) auto

lemma strtoull_show_nat:
  assumes "n < 2 ^ 64"
  shows "strtoull (show_nat n @ CR # s) = of_nat n"
proof -
  obtain c cs where c: "show_nat n = c # cs" "is_digit c" "list_all is_digit cs"
    using show_nat_digits [of n] by (cases "show_nat n") auto
  have "\<not> is_space c" "c \<noteq> CHR ''-''" "c \<noteq> CHR ''+''" "\<not> is_digit CR" using c(2) by (auto simp: is_space_def is_digit_def)
  moreover have "digits_value 0 (c # cs @ CR # s) = int n"
    using digits_value_stop [of "show_nat n" CR 0 s] show_nat_digits [of n] c calculation(4) by simp
  ultimately show ?thesis using c(1) assms by (simp add: strtoull_def Let_def)
qed

lemma content_length_line:
  assumes "http_line h"
  shows "content_length_loop (h @ CRLF @ s) =
     (if is_length_header h then strtoull (dropWhile (\<lambda>c. c = CHR '' '' \<or> c = TAB) (drop 15 (h @ CRLF @ s)))
      else content_length_loop s)"
proof -
  have h: "CR \<notin> set h" "h \<noteq> []" using assms by (auto simp: http_line_def)
  have "strstr (h @ CRLF @ s) CRLF = Some (CRLF @ s)" using strstr_skip [of h CRLF "CRLF @ s"] h by auto
  then show ?thesis using h header_prefix [OF h(1), of "NL # s"]
    by (subst content_length_loop.simps) simp
qed

lemma content_length_headers:
  assumes "list_all http_line (pre @ length_header n # post)" "\<not> list_ex is_length_header pre" "n < 2 ^ 64"
  shows "content_length_loop (concat (map (\<lambda>h. h @ CRLF) (pre @ length_header n # post)) @ s) = of_nat n"
  using assms
proof (induction pre)
  case Nil
  have "is_length_header (length_header n)" by (simp add: is_length_header_def starts_ignoring_case_def length_header_def)
  moreover have "dropWhile (\<lambda>c. c = CHR '' '' \<or> c = TAB) (drop 15 (length_header n @ CRLF @ u)) = show_nat n @ CRLF @ u" for u
  proof -
    obtain c cs where "show_nat n = c # cs" "is_digit c" using show_nat_digits [of n] by (cases "show_nat n") auto
    then show ?thesis by (auto simp: length_header_def is_digit_def)
  qed
  ultimately show ?case
    using Nil content_length_line [of "length_header n" "concat (map (\<lambda>h. h @ CRLF) post) @ s"] strtoull_show_nat by simp
next
  case (Cons h pre)
  then show ?case using content_length_line [of h "concat (map (\<lambda>h. h @ CRLF) (pre @ length_header n # post)) @ s"] by simp
qed

section \<open>Receiving\<close>

lemma append_bytes_ok:
  assumes "buffer_ok b" "chunk \<noteq> []"
  shows "\<exists>b'. api_server_append_bytes b chunk = Some (Some b') \<and> buffer_ok b' \<and> buffer_text b' = buffer_text b @ chunk"
proof (cases "fst b")
  case None
  then obtain cap where "b = (None, cap)" by (cases b) auto
  then show ?thesis using assms(2) by (simp add: api_server_append_bytes_def buffer_ok_def buffer_text_def)
next
  case (Some s)
  then obtain cap where b: "b = (Some s, cap)" by (cases b) auto
  then have "0 < cap" using assms(1) by (auto simp: buffer_ok_def)
  then obtain cap' where "grow_capacity (length s + length chunk + 1) cap = Some cap'" "length s + length chunk + 1 \<le> cap'"
    using grow_capacity_ok by blast
  then show ?thesis using assms(2) by (auto simp: b api_server_append_bytes_def buffer_ok_def buffer_text_def)
qed

text \<open>A request that announces the length of its body.\<close>

definition sized_request :: "string \<Rightarrow> string \<Rightarrow> string \<Rightarrow> string list \<Rightarrow> string \<Rightarrow> bool" where
  "sized_request m p v hs body \<longleftrightarrow> http_ok m p v hs \<and> NUL \<notin> set (http_text m p v hs body) \<and>
     length (http_text m p v hs body) \<le> API_SERVER_MAX_REQUEST_SIZE \<and>
     (\<exists>pre post. hs = pre @ length_header (length body) # post \<and> \<not> list_ex is_length_header pre)"

lemma request_line_plain:
  assumes "http_word 7 m" "http_word 127 p" "http_word 15 v"
  shows "http_line (m @ '' '' @ p @ '' '' @ v) \<and> \<not> is_length_header (m @ '' '' @ p @ '' '' @ v)"
proof -
  let ?l = "m @ '' '' @ p @ '' '' @ v"
  have "http_line ?l" using http_word_no_CR assms by (auto simp: http_line_def)
  moreover have "CHR '' '' \<in> set (take 15 ?l)" using assms(1) by (auto simp: http_word_def take_Cons')
  then have "\<not> is_length_header ?l"
    using equals_ignore_plain [of "take 15 ?l" "''Content-Length:''" "CHR '' ''"]
    by (auto simp: is_length_header_def starts_with_name is_alpha_def is_upper_def is_lower_def)
  ultimately show ?thesis by simp
qed

lemma content_length_request:
  assumes "sized_request m p v hs body"
  shows "content_length_loop (http_head m p v hs @ s) = of_nat (length body)"
proof -
  let ?l = "m @ '' '' @ p @ '' '' @ v"
  obtain pre post where hs: "hs = pre @ length_header (length body) # post" "\<not> list_ex is_length_header pre"
    and ok: "http_ok m p v hs" and len: "length body < 2 ^ 64"
    using assms by (auto simp: sized_request_def http_text_def API_SERVER_MAX_REQUEST_SIZE_def)
  have "http_line ?l \<and> \<not> is_length_header ?l" using ok by (intro request_line_plain) (auto simp: http_ok_def)
  then have "content_length_loop (concat (map (\<lambda>h. h @ CRLF) ((?l # pre) @ length_header (length body) # post)) @ s) =
      of_nat (length body)"
    using ok hs len by (intro content_length_headers) (auto simp: http_ok_def)
  then show ?thesis by (simp add: http_head_def hs(1))
qed

lemma blank_line_prefix:
  assumes ok: "http_ok m p v hs" and cut: "got @ t = http_text m p v hs body"
  shows "case strstr got (CRLF @ CRLF) of
      None \<Rightarrow> length got < length (http_head m p v hs) + 2
    | Some u \<Rightarrow> length (http_head m p v hs) + 2 \<le> length got \<and> length got - length u + 2 = length (http_head m p v hs) \<and>
        (\<exists>s. got = http_head m p v hs @ CRLF @ s)"
proof -
  let ?l = "m @ '' '' @ p @ '' '' @ v" and ?head = "http_head m p v hs"
  have "CR \<notin> set ?l" using ok http_word_no_CR by (auto simp: http_ok_def)
  then have whole: "strstr (got @ t) (CRLF @ CRLF) = Some (CRLF @ CRLF @ body)"
    using blank_line_found [of ?l hs body] ok cut by (simp add: http_ok_def http_text_def http_head_def)
  have len: "length got + length t = length ?head + 2 + length body"
    using arg_cong [OF cut, of length] by (simp add: http_text_def)
  have two: "2 \<le> length ?head" by (simp add: http_head_def)
  show ?thesis
  proof (cases "strstr got (CRLF @ CRLF)")
    case None
    then show ?thesis using strstr_later [OF None _ whole] len by simp
  next
    case (Some u)
    then have ut: "u @ t = CRLF @ CRLF @ body" using strstr_more [OF Some, of t] whole by simp
    have lu: "length u + length t = 4 + length body" using arg_cong [OF ut, of length] by simp
    have "4 \<le> length u" using strstr_long [OF Some] by simp
    then have big: "length ?head + 2 \<le> length got" using lu len by simp
    have "take (length ?head + 2) (got @ t) = ?head @ CRLF" unfolding cut by (simp add: http_text_def)
    then have "take (length ?head + 2) got = ?head @ CRLF" using big by simp
    then have "\<exists>s. got = ?head @ CRLF @ s" by (metis append.assoc append_take_drop_id)
    then show ?thesis using Some big lu len two by simp
  qed
qed

lemma word_length_le:
  "i \<le> API_SERVER_MAX_REQUEST_SIZE \<Longrightarrow> j \<le> API_SERVER_MAX_REQUEST_SIZE \<Longrightarrow> (of_nat i :: 64 word) \<le> of_nat j \<longleftrightarrow> i \<le> j"
  by (simp add: API_SERVER_MAX_REQUEST_SIZE_def word_le_nat_alt unat_of_nat)

lemma header_state_prefix:
  assumes sized: "sized_request m p v hs body" and cut: "got @ t = http_text m p v hs body"
    and seen: "hc \<longrightarrow> length (http_head m p v hs) + 2 \<le> length got \<and> ex = of_nat (length (http_text m p v hs body))"
    and new: "header_state hc ex got = (complete, expected)"
  shows "complete = (length (http_head m p v hs) + 2 \<le> length got) \<and>
     (complete \<longrightarrow> expected = of_nat (length (http_text m p v hs body)))"
proof (cases hc)
  case True
  then show ?thesis using seen new by (simp add: header_state_def)
next
  case False
  have ok: "http_ok m p v hs" using sized by (simp add: sized_request_def)
  show ?thesis
  proof (cases "strstr got (CRLF @ CRLF)")
    case None
    then show ?thesis using blank_line_prefix [OF ok cut] False new by (auto simp: header_state_def)
  next
    case (Some u)
    have f: "length (http_head m p v hs) + 2 \<le> length got" "length got - length u + 2 = length (http_head m p v hs)"
      "\<exists>s. got = http_head m p v hs @ CRLF @ s" using blank_line_prefix [OF ok cut] Some by auto
    have "api_server_extract_content_length got = of_nat (length body)"
      using f(3) content_length_request [OF sized] by (auto simp: api_server_extract_content_length_def)
    moreover have "length (http_text m p v hs body) = (length got - length u) + 4 + length body"
      using f(2) by (simp add: http_text_def)
    then have "of_nat (length got - length u) + 4 + of_nat (length body) = (of_nat (length (http_text m p v hs body)) :: 64 word)"
      by simp
    ultimately show ?thesis using False Some f(1) new by (auto simp: header_state_def)
  qed
qed

lemma read_chunks:
  assumes sized: "sized_request m p v hs body"
  defines "whole \<equiv> http_text m p v hs body" and "n \<equiv> length (http_head m p v hs) + 2"
  shows "list_all (\<lambda>c. c \<noteq> []) chunks \<Longrightarrow> chunks \<noteq> [] \<Longrightarrow> buffer_text b @ concat chunks = whole \<Longrightarrow> buffer_ok b \<Longrightarrow>
     hc = (n \<le> length (buffer_text b)) \<Longrightarrow> (hc \<longrightarrow> ex = of_nat (length whole)) \<Longrightarrow>
     read_loop b hc ex (map Recv_bytes chunks @ rs) = Some (Read_request whole)"
proof (induction chunks arbitrary: b hc ex)
  case (Cons chunk chunks)
  obtain b' where b': "api_server_append_bytes b chunk = Some (Some b')" "buffer_ok b'" "buffer_text b' = buffer_text b @ chunk"
    using append_bytes_ok [OF Cons.prems(4), of chunk] Cons.prems(1) by auto
  have cut: "buffer_text b' @ concat chunks = http_text m p v hs body" using Cons.prems(3) b'(3) by (simp add: whole_def)
  have ok: "http_ok m p v hs" and no_nul: "NUL \<notin> set whole" and small: "length whole \<le> API_SERVER_MAX_REQUEST_SIZE"
    using sized by (auto simp: sized_request_def whole_def)
  have part: "length (buffer_text b') + length (concat chunks) = length whole"
    using arg_cong [OF cut, of length] by (simp add: whole_def)
  have cs: "c_string (buffer_text b') = buffer_text b'"
    using no_nul unfolding whole_def cut [symmetric] by (auto simp: c_string_def takeWhile_eq_all_conv)
  define state where "state = header_state hc ex (buffer_text b')"
  have st: "fst state = (n \<le> length (buffer_text b')) \<and> (fst state \<longrightarrow> snd state = of_nat (length whole))"
    using header_state_prefix [OF sized cut, of hc ex "fst state" "snd state"] Cons.prems(5,6) b'(3)
    by (simp add: state_def n_def whole_def)
  have fits: "\<not> API_SERVER_MAX_REQUEST_SIZE < length (buffer_text b) + length chunk" using part small b'(3) by simp
  have step: "read_loop b hc ex (map Recv_bytes (chunk # chunks) @ rs) =
      (if fst state \<and> snd state \<le> of_nat (length (buffer_text b')) then Some (Read_request (buffer_text b'))
       else read_loop b' (fst state) (snd state) (map Recv_bytes chunks @ rs))"
    using fits b'(1) by (simp add: cs state_def [symmetric] Let_def case_prod_unfold)
  show ?case
  proof (cases "chunks = []")
    case True
    then have "buffer_text b' = whole" using cut by (simp add: whole_def)
    moreover have "n \<le> length whole" by (simp add: n_def whole_def http_text_def)
    ultimately show ?thesis using step st by simp
  next
    case False
    then have "0 < length (concat chunks)" using Cons.prems(1) by (cases chunks) auto
    then have "length (buffer_text b') < length whole" using part by linarith
    then have "\<not> (fst state \<and> snd state \<le> of_nat (length (buffer_text b')))"
      using st word_length_le [of "length whole" "length (buffer_text b')"] small by auto
    then show ?thesis using step Cons.IH [of b' "fst state" "snd state"] False Cons.prems(1) cut b'(2) st
      by (auto simp: whole_def)
  qed
qed simp

lemma c_string_plain: "NUL \<notin> set s \<Longrightarrow> c_string s = s"
  by (auto simp: c_string_def takeWhile_eq_all_conv)

lemma request_received:
  assumes "sized_request m p v hs body" "list_all (\<lambda>c. c \<noteq> []) chunks" "concat chunks = http_text m p v hs body"
  shows "api_server_read_http_request (map Recv_bytes chunks @ rs) = Some (Read_request (http_text m p v hs body)) \<and>
     parse_http_request (c_string (http_text m p v hs body)) =
       Some \<lparr>hr_method = m, hr_path = p, hr_protocol = v, hr_body = body, hr_body_length = length body\<rparr>"
proof -
  have "http_text m p v hs body \<noteq> []" by (simp add: http_text_def http_head_def)
  then have "chunks \<noteq> []" using assms(3) by auto
  then have "api_server_read_http_request (map Recv_bytes chunks @ rs) = Some (Read_request (http_text m p v hs body))"
    unfolding api_server_read_http_request_def
    using assms by (intro read_chunks [OF assms(1)]) (auto simp: buffer_text_def buffer_ok_def)
  moreover have "c_string (http_text m p v hs body) = http_text m p v hs body"
    using assms(1) by (intro c_string_plain) (simp add: sized_request_def)
  ultimately show ?thesis using parse_http_text assms(1) by (simp add: sized_request_def)
qed

text \<open>Whatever arrives, reading ends once the client closes or the connection breaks.\<close>

lemma read_ends:
  "buffer_ok b \<Longrightarrow> Recv_eof \<in> set rs \<or> Recv_error \<in> set rs \<Longrightarrow>
   \<exists>res. read_loop b hc ex rs = Some res \<and> res \<noteq> Read_waits"
proof (induction rs arbitrary: b hc ex)
  case (Cons r rs)
  show ?case
  proof (cases r)
    case (Recv_bytes chunk)
    show ?thesis
    proof (cases "chunk = [] \<or> API_SERVER_MAX_REQUEST_SIZE < length (buffer_text b) + length chunk")
      case True
      then show ?thesis using Recv_bytes by (auto simp: api_server_append_bytes_def)
    next
      case False
      then obtain b' where b': "api_server_append_bytes b chunk = Some (Some b')" "buffer_ok b'"
        using append_bytes_ok [OF Cons.prems(1), of chunk] by auto
      then show ?thesis using Recv_bytes False Cons.IH [OF b'(2)] Cons.prems(2) by (auto simp: Let_def case_prod_unfold)
    qed
  qed auto
qed auto

section \<open>Sending\<close>

lemma send_loop_all:
  "\<forall>k \<in> set sends. 0 < k \<Longrightarrow> length response - n \<le> length sends \<Longrightarrow>
   send_loop response n (take n response) sends = Some (response, SUCCESS)"
proof (induction sends arbitrary: n)
  case Nil
  then show ?case by (subst send_loop.simps) simp
next
  case (Cons k ks)
  have "take n response @ take (nat k) (drop n response) = take (n + nat k) response" by (simp add: take_add)
  then show ?case using Cons.IH [of "n + nat k"] Cons.prems by (subst send_loop.simps) auto
qed

lemma send_all_sends:
  "\<forall>k \<in> set sends. 0 < k \<Longrightarrow> length response \<le> length sends \<Longrightarrow> api_server_send_all response sends = Some (response, SUCCESS)"
  using send_loop_all [of sends response 0] by (simp add: api_server_send_all_def)

section \<open>Answers\<close>

text \<open>The body for a result, as \<^verbatim>\<open>handle_query_request\<close> chooses it.\<close>

definition answer_of :: "db_result \<Rightarrow> status \<Rightarrow> (int \<times> string) option" where
  "answer_of r st =
     (if st \<noteq> SUCCESS
      then map_option (Pair 400) (build_json_error_response 400 (if res_message r \<noteq> [] then res_message r else ''SQL execution failed.''))
      else build_query_json_response r)"

lemma query_body_total:
  assumes "rectangular r"
  shows "\<exists>body. build_query_json_response r = Some (200, body)"
proof -
  have rows: "appends (\<lambda>b. append_json_rows (length (res_columns r)) True b (res_rows r)) (with_commas True (map json_row (res_rows r)))"
    using assms by (intro appends_json_rows) (simp add: rectangular_def)
  have "\<exists>g t. appends g t \<and> (\<forall>b. (case res_type r of
        DB_RESULT_INSERT \<Rightarrow>
          utils_append_buffer b (snprintf 64 ('',\"rows_affected\":'' @ show_int (int (res_rows_affected r)) @ ''}''))
      | DB_RESULT_SELECT \<Rightarrow> do {
          c1 \<leftarrow> utils_append_buffer b (snprintf 64 ('',\"used_id_index\":'' @ (if res_used_id_index r then ''true'' else ''false'') @
            '',\"row_count\":'' @ show_int (int (length (res_rows r))) @ '',\"columns\":[''));
          c2 \<leftarrow> append_json_list True c1 (res_columns r);
          c3 \<leftarrow> utils_append_buffer c2 ''],\"rows\":['';
          c4 \<leftarrow> append_json_rows (length (res_columns r)) True c3 (res_rows r);
          response_builder_append_char c4 (CHR ''}'')
        }
      | _ \<Rightarrow> response_builder_append_char b (CHR ''}'')) = g b)"
    using appends_seq [OF appends_buffer appends_seq [OF appends_json_list appends_seq [OF appends_buffer appends_seq [OF rows appends_char]]]]
      appends_buffer appends_char
    by (cases "res_type r") (simp_all only: db_result_type.case, blast+)
  then show ?thesis using build_query_parts by blast
qed

lemma answer_total:
  assumes "run_sql fs rt sql = Some (fs', rt', r, st)"
  shows "\<exists>code body. answer_of r st = Some (code, body) \<and> code \<in> {200, 400}"
  using query_body_total [of r] run_sql_shape [of fs rt sql fs' rt' r] assms error_body [of 400]
  by (cases st) (auto simp: answer_of_def)

lemma path_cases:
  "utils_equals_ignore_case p ''/query'' \<Longrightarrow> \<not> utils_equals_ignore_case p ''/health''"
  using equals_ignore_length [of p "''/query''"] equals_ignore_length [of p "''/health''"] by auto

lemma query_handled:
  assumes state: "locks_free lm" "cache_inv (en_tokenizer en)" "en_initialized en" "rt_safe (en_runtime en)"
    and sql: "extract_sql_from_json (hr_body req) = Some (Extracted (Some sql))"
  shows "\<exists>en' r st. run_sql (en_files en) (en_runtime en) sql = Some (en_files en', en_runtime en', r, st) \<and>
     handle_query_request i en lm req = Some (en', lm, answer_of r st) \<and> rt_safe (en_runtime en')"
proof -
  obtain tok fs rt r st where "run_sql (en_files en) (en_runtime en) sql = Some (fs, rt, r, st)" "rt_safe rt"
    "execute_query_with_lock i en lm (Some sql) db_result_init =
       Some (en\<lparr>en_tokenizer := tok, en_files := fs, en_runtime := rt\<rparr>, lm, r, st)"
    using locked_call [OF state, of sql i db_result_init] by (metis surj_pair)
  then show ?thesis using sql
    by (intro exI [of _ "en\<lparr>en_tokenizer := tok, en_files := fs, en_runtime := rt\<rparr>"] exI [of _ r] exI [of _ st])
      (simp add: handle_query_request_def answer_of_def)
qed

lemma routed:
  assumes state: "locks_free lm" "cache_inv (en_tokenizer en)" "en_initialized en" "rt_safe (en_runtime en)"
  shows "\<exists>en' code body. route_request i pool en lm req = Some (en', lm, Some (code, body)) \<and>
     code \<in> {200, 400, 404, 405} \<and> rt_safe (en_runtime en')"
proof -
  have query: "\<exists>en' code body. handle_query_request i en lm req = Some (en', lm, Some (code, body)) \<and>
      code \<in> {200, 400, 404, 405} \<and> rt_safe (en_runtime en')"
  proof -
    obtain res where res: "extract_sql_from_json (hr_body req) = Some res" using extract_total by blast
    consider "res = Extract_fails" | "res = Extracted None" | sql where "res = Extracted (Some sql)"
      by (metis extract_result.exhaust option.exhaust)
    then show ?thesis
    proof cases
      case 1
      then show ?thesis using res state(4) error_body [of 400] by (simp add: handle_query_request_def)
    next
      case 2
      then show ?thesis using res state(4) error_body [of 400]
        by (simp add: handle_query_request_def execute_query_with_lock_def db_result_init_def)
    next
      case 3
      then show ?thesis using query_handled [OF state, of req sql i] res answer_total by fastforce
    qed
  qed
  show ?thesis using query state(4) error_body [of 404] error_body [of 405]
    by (auto simp: route_request_def handle_health_request_def)
qed

section \<open>Properties\<close>

definition sample_body :: string where
  "sample_body = sql_body [] [] [] ''SELECT * FROM t'' ''}''"

definition sample_headers :: "string list" where
  "sample_headers = [''Host: localhost'', length_header (length sample_body)]"

definition free_locks :: lock_manager_state where
  "free_locks = fst (init_lock_manager (True, True, True) LOCK_POLICY_SPLIT_RWLOCK lock_manager_zero)"

lemma fresh_state:
  "locks_free free_locks" "cache_inv (en_tokenizer (fresh_engine fs))" "en_initialized (fresh_engine fs)"
  "rt_safe (en_runtime (fresh_engine fs))"
proof -
  show "locks_free free_locks" by code_simp
  show "cache_inv (en_tokenizer (fresh_engine fs))" "rt_safe (en_runtime (fresh_engine fs))"
    using fresh_engine_safe by (simp_all add: en_safe_def)
qed (simp add: fresh_engine_def)

lemma sample_sized: "sized_request ''POST'' ''/query'' ''HTTP/1.1'' sample_headers sample_body"
proof -
  have "http_ok ''POST'' ''/query'' ''HTTP/1.1'' sample_headers" by code_simp
  moreover have "NUL \<notin> set (http_text ''POST'' ''/query'' ''HTTP/1.1'' sample_headers sample_body)" by code_simp
  moreover have "length (http_text ''POST'' ''/query'' ''HTTP/1.1'' sample_headers sample_body) \<le> API_SERVER_MAX_REQUEST_SIZE"
    by code_simp
  moreover have "\<not> list_ex is_length_header [''Host: localhost'']" by code_simp
  moreover have "sample_headers = [''Host: localhost''] @ length_header (length sample_body) # []" by (simp add: sample_headers_def)
  ultimately show ?thesis unfolding sized_request_def by blast
qed

text \<open>
  C20: a query request is answered with the result of its SQL text.  However the network cuts the
  request into pieces and however little each send takes, the client receives one complete
  HTTP response: its header announces the length of the body, the body is the one built from
  the result of executing exactly the SQL text of the JSON field (escapes undone), and the
  locks are free again afterwards.
\<close>

theorem query_request_served:
  assumes state: "locks_free lm" "cache_inv (en_tokenizer en)" "en_initialized en" "rt_safe (en_runtime en)"
    and request: "sized_request m p v hs (sql_body sp1 sp2 sp3 sql rest)" "sql \<noteq> []"
      "utils_equals_ignore_case m ''POST''" "utils_equals_ignore_case p ''/query''"
      "list_all is_space sp1" "list_all is_space sp2" "list_all is_space sp3"
    and network: "list_all (\<lambda>c. c \<noteq> []) chunks" "concat chunks = http_text m p v hs (sql_body sp1 sp2 sp3 sql rest)"
  shows "\<exists>en' r st code body. run_sql (en_files en) (en_runtime en) sql = Some (en_files en', en_runtime en', r, st) \<and>
     answer_of r st = Some (code, body) \<and>
     (\<forall>sends. length body < 2 ^ 64 \<and> (\<forall>k \<in> set sends. 0 < k) \<and> length (http_header code (length body) @ body) \<le> length sends \<longrightarrow>
        api_server_handle_client i pool en lm (map Recv_bytes chunks @ rs) sends =
          Some (en', lm, http_header code (length body) @ body, SUCCESS))"
proof -
  let ?body = "sql_body sp1 sp2 sp3 sql rest"
  let ?req = "\<lparr>hr_method = m, hr_path = p, hr_protocol = v, hr_body = ?body, hr_body_length = length ?body\<rparr>"
  have "extract_sql_from_json (hr_body ?req) = Some (Extracted (Some sql))"
    using extract_sql_body [OF request(5,6,7), of sql rest] request(2) by simp
  then obtain en' r st where r: "run_sql (en_files en) (en_runtime en) sql = Some (en_files en', en_runtime en', r, st)"
    "handle_query_request i en lm ?req = Some (en', lm, answer_of r st)"
    using query_handled [OF state] by blast
  then obtain code body where a: "answer_of r st = Some (code, body)" "code \<in> {200, 400}" using answer_total by blast
  have "route_request i pool en lm ?req = Some (en', lm, Some (code, body))"
    using r(2) a(1) request(3,4) path_cases [OF request(4)] by (simp add: route_request_def)
  then have "api_server_handle_client i pool en lm (map Recv_bytes chunks @ rs) sends =
      Some (en', lm, http_header code (length body) @ body, SUCCESS)"
    if "length body < 2 ^ 64" "\<forall>k \<in> set sends. 0 < k" "length (http_header code (length body) @ body) \<le> length sends" for sends
    using request_received [OF request(1) network, of rs] http_response_fits [of code body] a(2) that
      send_all_sends [OF that(2,3)]
    by (auto simp: api_server_handle_client_def)
  then show ?thesis using r(1) a(1) by blast
qed

theorem query_request_served_witness:
  "\<exists>en' r st code body. run_sql (en_files (fresh_engine empty_fs)) (en_runtime (fresh_engine empty_fs)) ''SELECT * FROM t'' =
       Some (en_files en', en_runtime en', r, st) \<and> answer_of r st = Some (code, body) \<and>
     (\<forall>sends. length body < 2 ^ 64 \<and> (\<forall>k \<in> set sends. 0 < k) \<and> length (http_header code (length body) @ body) \<le> length sends \<longrightarrow>
        api_server_handle_client 0 started_pool (fresh_engine empty_fs) free_locks
          (map Recv_bytes [''POST'', '' /query HTTP/1.1'' @ CRLF @ ''Host: localhost'' @ CRLF,
             length_header (length sample_body) @ CRLF @ CRLF @ sample_body] @ []) sends =
          Some (en', free_locks, http_header code (length body) @ body, SUCCESS))"
proof (rule query_request_served [OF fresh_state])
  show "sized_request ''POST'' ''/query'' ''HTTP/1.1'' sample_headers (sql_body [] [] [] ''SELECT * FROM t'' ''}'')"
    using sample_sized by (simp add: sample_body_def)
  show "list_all (\<lambda>c. c \<noteq> []) [''POST'', '' /query HTTP/1.1'' @ CRLF @ ''Host: localhost'' @ CRLF,
             length_header (length sample_body) @ CRLF @ CRLF @ sample_body]" by simp
  show "concat [''POST'', '' /query HTTP/1.1'' @ CRLF @ ''Host: localhost'' @ CRLF,
             length_header (length sample_body) @ CRLF @ CRLF @ sample_body] =
      http_text ''POST'' ''/query'' ''HTTP/1.1'' sample_headers (sql_body [] [] [] ''SELECT * FROM t'' ''}'')"
    by (simp add: http_text_def http_head_def sample_headers_def sample_body_def)
  show "utils_equals_ignore_case ''POST'' ''POST''" "utils_equals_ignore_case ''/query'' ''/query''" by code_simp+
qed simp_all



end
