(* ===== verification/Server_Run.thy ===== *)
theory Server_Run
  imports Server_Correct
begin

text \<open>
  The server process: \<^verbatim>\<open>api_server_run\<close> with its accept loop, and the start in \<^verbatim>\<open>main\<close> of
  \<^verbatim>\<open>src/api/api_main.c\<close>.  The accepting thread and the workers of the pool take turns; what
  a connection's handler does is the subject of the theories below.  Every connection is
  answered inline, refused as busy, or handled by exactly one worker.
\<close>

section \<open>Model\<close>

text \<open>
  The accepting thread is in its loop, waits for the workers after a failed \<^verbatim>\<open>accept\<close>, or has
  returned.  Which connections arrived and what became of those that were not queued is kept
  in ghost variables.
\<close>

datatype accept_phase = Accepting | Shutting_down | Returned

record api_server =
  as_pool :: thread_pool
  as_phase :: accept_phase
  as_arrived :: "int list"
  as_inline :: "int list"
  as_busy :: "int list"

text \<open>
  \<^verbatim>\<open>api_server_run\<close> up to its loop; \<open>socket_ok\<close> says whether \<^verbatim>\<open>api_server_create_socket\<close>
  succeeds, the next three arguments are those of \<open>thread_pool_init\<close>.  \<open>None\<close> is \<^verbatim>\<open>FAILURE\<close>.
\<close>

definition api_server_start ::
  "bool \<Rightarrow> bool \<times> bool \<times> bool \<Rightarrow> bool \<Rightarrow> (nat \<Rightarrow> bool) \<Rightarrow> api_server_config \<Rightarrow> api_server option" where
  "api_server_start socket_ok queue_oks workers_ok create_ok config =
     (if cfg_port config \<le> 0 \<or> cfg_worker_count config \<le> 0 \<or> cfg_queue_capacity config \<le> 0 then None
      else if \<not> socket_ok then None
      else map_option (\<lambda>pool. \<lparr>as_pool = pool, as_phase = Accepting, as_arrived = [], as_inline = [], as_busy = []\<rparr>)
        (thread_pool_init queue_oks workers_ok create_ok (cfg_worker_count config) (cfg_queue_capacity config)))"

inductive server_step :: "api_server \<Rightarrow> api_server \<Rightarrow> bool" where
  interrupted: "as_phase s = Accepting \<Longrightarrow> server_step s s"
| inline: "as_phase s = Accepting \<Longrightarrow> accept_client (as_pool s) fd peeked = Some (pool', Answer_inline) \<Longrightarrow>
    server_step s (s\<lparr>as_pool := pool', as_arrived := as_arrived s @ [fd], as_inline := as_inline s @ [fd]\<rparr>)"
| queued: "as_phase s = Accepting \<Longrightarrow> accept_client (as_pool s) fd peeked = Some (pool', Queued) \<Longrightarrow>
    server_step s (s\<lparr>as_pool := pool', as_arrived := as_arrived s @ [fd]\<rparr>)"
| busy: "as_phase s = Accepting \<Longrightarrow> accept_client (as_pool s) fd peeked = Some (pool', Reject_busy) \<Longrightarrow>
    server_step s (s\<lparr>as_pool := pool', as_arrived := as_arrived s @ [fd], as_busy := as_busy s @ [fd]\<rparr>)"
| accept_fails: "as_phase s = Accepting \<Longrightarrow>
    server_step s (s\<lparr>as_pool := (as_pool s)\<lparr>tp_queue := queue_shutdown (tp_queue (as_pool s))\<rparr>, as_phase := Shutting_down\<rparr>)"
| joined: "as_phase s = Shutting_down \<Longrightarrow> thread_pool_join (as_pool s) = Some pool' \<Longrightarrow>
    server_step s (s\<lparr>as_pool := pool', as_phase := Returned\<rparr>)"
| worker: "as_phase s \<noteq> Returned \<Longrightarrow> worker_step (as_pool s) pool' \<Longrightarrow> server_step s (s\<lparr>as_pool := pool'\<rparr>)"

text \<open>The start of the process; \<open>None\<close> is \<^verbatim>\<open>EXIT_FAILURE\<close>.\<close>

definition api_main_start ::
  "bool \<times> bool \<times> bool \<Rightarrow> bool \<Rightarrow> bool \<times> bool \<times> bool \<Rightarrow> bool \<Rightarrow> (nat \<Rightarrow> bool) \<Rightarrow> string list \<Rightarrow> db_engine \<Rightarrow>
   (db_engine \<times> lock_manager_state \<times> api_server) option" where
  "api_main_start lock_oks socket_ok queue_oks workers_ok create_ok args en = do {
     config \<leftarrow> api_main_config args;
     case db_engine_init lock_oks en lock_manager_zero of (en', lm, st) \<Rightarrow>
       if st \<noteq> SUCCESS then None
       else map_option (\<lambda>s. (en', lm, s)) (api_server_start socket_ok queue_oks workers_ok create_ok config)
   }"

section \<open>Invariant\<close>

lemma accept_cases:
  assumes "accept_client pool fd peeked = Some (pool', act)"
  shows "act = Answer_inline \<and> pool' = pool \<or>
    (\<exists>st. thread_pool_submit pool fd = Some (pool', st) \<and> act = (if st = SUCCESS then Queued else Reject_busy))"
proof (cases "api_server_is_health_fast_path_request peeked")
  case True
  then show ?thesis using assms by (simp add: accept_client_def)
next
  case False
  then obtain st where "thread_pool_submit pool fd = Some (pool', st)" "act = (if st \<noteq> SUCCESS then Reject_busy else Queued)"
    using assms by (cases "thread_pool_submit pool fd") (auto simp: accept_client_def)
  then show ?thesis by auto
qed

lemma submit_accepted:
  "thread_pool_submit p fd = Some (p', st) \<Longrightarrow> tp_accepted p' = tp_accepted p @ (if st = SUCCESS then [fd] else []) \<and>
     tp_handled p' = tp_handled p \<and> tp_worker_count p' = tp_worker_count p"
  by (auto simp: thread_pool_submit_def split: bind_splits)

lemma submit_keeps: "thread_pool_submit p fd = Some (p', st) \<Longrightarrow> pool_inv p \<Longrightarrow> pool_inv p'"
  using pool_step_inv pool_step.submit by blast

lemma submit_open:
  "thread_pool_submit p fd = Some (p', st) \<Longrightarrow> jq_shutting_down (tp_queue p') = jq_shutting_down (tp_queue p)"
  by (auto simp: thread_pool_submit_def queue_push_def split: bind_splits if_splits)

definition server_inv :: "api_server \<Rightarrow> bool" where
  "server_inv s \<longleftrightarrow>
     (if as_phase s = Returned then mset (tp_handled (as_pool s)) = mset (tp_accepted (as_pool s))
      else pool_inv (as_pool s) \<and> 0 < tp_worker_count (as_pool s) \<and>
        jq_shutting_down (tp_queue (as_pool s)) = (as_phase s = Shutting_down)) \<and>
     mset (as_arrived s) = mset (as_inline s) + mset (as_busy s) + mset (tp_accepted (as_pool s))"

lemma server_start_inv:
  assumes "api_server_start so qo co cr config = Some s"
  shows "server_inv s \<and> as_phase s = Accepting"
proof -
  obtain pool where p: "thread_pool_init qo co cr (cfg_worker_count config) (cfg_queue_capacity config) = Some pool"
    and s: "s = \<lparr>as_pool = pool, as_phase = Accepting, as_arrived = [], as_inline = [], as_busy = []\<rparr>"
    using assms by (auto simp: api_server_start_def split: if_splits)
  have "\<not> jq_shutting_down (tp_queue pool)"
    using p by (auto simp: thread_pool_init_def queue_init_def split: if_splits option.splits prod.splits)
  then show ?thesis using pool_init_inv [OF p] by (simp add: s server_inv_def)
qed

lemma joined_handled:
  assumes "pool_inv p" "0 < tp_worker_count p" "thread_pool_join p = Some p'"
  shows "mset (tp_handled p') = mset (tp_accepted p')" "tp_accepted p' = tp_accepted p"
proof -
  have "set (tp_workers p) \<subseteq> {W_exited}" using assms(3) by (auto simp: thread_pool_join_def split: if_splits)
  then show "mset (tp_handled p') = mset (tp_accepted p')" "tp_accepted p' = tp_accepted p"
    using all_exited [OF assms(1,2)] assms(3) by (auto simp: thread_pool_join_def split: if_splits)
qed

lemma server_step_inv:
  assumes "server_step s s'" "server_inv s"
  shows "server_inv s'"
  using assms
proof (cases rule: server_step.cases)
  case (inline fd peeked pool')
  then show ?thesis using assms(2) accept_cases [OF inline(3)] by (auto simp: server_inv_def split: if_splits)
next
  case (queued fd peeked pool')
  then have "thread_pool_submit (as_pool s) fd = Some (pool', SUCCESS)"
    using accept_cases [OF queued(3)] by (auto split: if_splits)
  note sub = submit_accepted [OF this] submit_keeps [OF this] submit_open [OF this]
  then show ?thesis using queued(1,2) assms(2) by (simp add: server_inv_def)
next
  case (busy fd peeked pool')
  then obtain st where st: "thread_pool_submit (as_pool s) fd = Some (pool', st)" "st \<noteq> SUCCESS"
    using accept_cases [OF busy(3)] by (auto split: if_splits)
  note sub = submit_accepted [OF st(1)] submit_keeps [OF st(1)] submit_open [OF st(1)]
  then show ?thesis using busy(1,2) st(2) assms(2) by (simp add: server_inv_def)
next
  case accept_fails
  then show ?thesis using assms(2) pool_step_inv [OF pool_step.close] by (auto simp: server_inv_def queue_shutdown_def)
next
  case (joined pool')
  then show ?thesis using assms(2) joined_handled [of "as_pool s" pool'] by (auto simp: server_inv_def)
next
  case (worker pool')
  show ?thesis using worker assms(2) worker_step_inv [OF worker(3)] worker_step_shutdown [OF worker(3)] worker_step_count [OF worker(3)]
    by (simp add: server_inv_def)
qed simp

interpretation server: invariant_steps server_step server_inv
  by unfold_locales (rule server_step_inv)

lemma workers_run_inside:
  "worker_step\<^sup>*\<^sup>* (as_pool s) p \<Longrightarrow> as_phase s \<noteq> Returned \<Longrightarrow> server_step\<^sup>*\<^sup>* s (s\<lparr>as_pool := p\<rparr>)"
proof (induction rule: rtranclp_induct)
  case (step p p')
  then have "server_step (s\<lparr>as_pool := p\<rparr>) (s\<lparr>as_pool := p\<rparr>\<lparr>as_pool := p'\<rparr>)" by (intro server_step.worker) simp_all
  then show ?case using step by (simp add: rtranclp.rtrancl_into_rtrancl)
qed simp

text \<open>After a failed \<^verbatim>\<open>accept\<close> the server always comes to its end.\<close>

lemma server_returns:
  assumes "server_inv s" "as_phase s = Shutting_down"
  shows "\<exists>s'. server_step\<^sup>*\<^sup>* s s' \<and> as_phase s' = Returned"
proof -
  let ?p = "as_pool s"
  have c: "closing (tp_accepted ?p) (tp_worker_count ?p) ?p" "0 < tp_worker_count ?p"
    using assms by (auto simp: server_inv_def closing_def)
  obtain p where p: "worker_step\<^sup>*\<^sup>* ?p p" "closing (tp_accepted ?p) (tp_worker_count ?p) p" "\<nexists>p'. worker_step p p'"
    using workers.run_ends [OF c(1)] by blast
  obtain p' where "thread_pool_join p = Some p'" using stuck_joins [OF p(2) c(2) p(3)] by blast
  then have "server_step (s\<lparr>as_pool := p\<rparr>) (s\<lparr>as_pool := p'\<rparr>\<lparr>as_phase := Returned\<rparr>)"
    using server_step.joined [of "s\<lparr>as_pool := p\<rparr>" p'] assms(2) by simp
  moreover have "server_step\<^sup>*\<^sup>* s (s\<lparr>as_pool := p\<rparr>)" using workers_run_inside [OF p(1)] assms(2) by simp
  ultimately show ?thesis by (intro exI [of _ "s\<lparr>as_pool := p'\<rparr>\<lparr>as_phase := Returned\<rparr>"]) (auto intro: rtranclp.rtrancl_into_rtrancl)
qed

section \<open>Properties\<close>

definition sample_config :: api_server_config where
  "sample_config = \<lparr>cfg_port = 8080, cfg_worker_count = 2, cfg_queue_capacity = 3\<rparr>"

definition sample_server :: api_server where
  "sample_server = \<lparr>as_pool = started_pool, as_phase = Accepting, as_arrived = [], as_inline = [], as_busy = []\<rparr>"

lemma sample_server_starts: "api_server_start True (True, True, True) True (\<lambda>_. True) sample_config = Some sample_server"
  using started_pool_init by (simp add: api_server_start_def sample_config_def sample_server_def)



text \<open>
  C25: the server refuses a connection only when the queue is full: while it accepts, a health
  request is answered inline and leaves the pool alone, any other connection is queued if the
  statistics show a free slot, and refused as busy otherwise.
\<close>

theorem busy_only_when_full:
  assumes "api_server_start socket_ok queue_oks workers_ok create_ok config = Some s0" "server_step\<^sup>*\<^sup>* s0 s"
    "as_phase s = Accepting"
  shows "\<exists>pool'. accept_client (as_pool s) fd peeked =
     Some (if api_server_is_health_fast_path_request peeked then (as_pool s, Answer_inline)
       else if 0 < ts_available_queue_slots (thread_pool_get_stats (as_pool s)) then (pool', Queued)
       else (as_pool s, Reject_busy))"
proof -
  have inv: "server_inv s" using server.steps_inv [OF assms(2)] server_start_inv [OF assms(1)] by blast
  then have q: "queue_valid (tp_queue (as_pool s))" "\<not> jq_shutting_down (tp_queue (as_pool s))"
    using assms(3) by (auto simp: server_inv_def pool_inv_def)
  show ?thesis
  proof (cases "jq_count (tp_queue (as_pool s)) < jq_capacity (tp_queue (as_pool s))")
    case True
    then show ?thesis using push_contents [OF q True, of fd]
      by (auto simp: accept_client_def thread_pool_submit_def thread_pool_get_stats_def)
  next
    case False
    then have "queue_push (tp_queue (as_pool s)) fd = Some (tp_queue (as_pool s), FAILURE)" by (simp add: queue_push_def)
    then show ?thesis using False by (simp add: accept_client_def thread_pool_submit_def thread_pool_get_stats_def)
  qed
qed

theorem busy_only_when_full_witness:
  "\<exists>pool'. accept_client (as_pool sample_server) 5 ''POST /query HTTP/1.1'' =
     Some (if api_server_is_health_fast_path_request ''POST /query HTTP/1.1'' then (as_pool sample_server, Answer_inline)
       else if 0 < ts_available_queue_slots (thread_pool_get_stats (as_pool sample_server)) then (pool', Queued)
       else (as_pool sample_server, Reject_busy))"
  by (rule busy_only_when_full [OF sample_server_starts]) (simp_all add: sample_server_def)

lemma parsed_bounds: "api_main_parse_positive_int s m = Some n \<Longrightarrow> 1 \<le> n \<and> n \<le> m"
  by (auto simp: api_main_parse_positive_int_def Let_def split: if_splits)

lemma config_bounds:
  assumes "api_main_config args = Some config"
  shows "1 \<le> cfg_port config \<and> cfg_port config \<le> 65535" "1 \<le> cfg_worker_count config \<and> cfg_worker_count config \<le> 256"
    "1 \<le> cfg_queue_capacity config \<and> cfg_queue_capacity config \<le> 4096"
proof -
  obtain p w c where o: "(if 1 \<le> length args then api_main_parse_positive_int (args ! 0) 65535 else Some 8080) = Some p"
    "(if 2 \<le> length args then api_main_parse_positive_int (args ! 1) 256 else Some 4) = Some w"
    "(if 3 \<le> length args then api_main_parse_positive_int (args ! 2) 4096 else Some 16) = Some c"
    and cfg: "config = \<lparr>cfg_port = p, cfg_worker_count = w, cfg_queue_capacity = c\<rparr>"
    using assms by (auto simp: api_main_config_def bind_eq_Some_conv split: if_split_asm)
  show "1 \<le> cfg_port config \<and> cfg_port config \<le> 65535" using o(1) parsed_bounds by (auto simp: cfg split: if_splits)
  show "1 \<le> cfg_worker_count config \<and> cfg_worker_count config \<le> 256" using o(2) parsed_bounds by (auto simp: cfg split: if_splits)
  show "1 \<le> cfg_queue_capacity config \<and> cfg_queue_capacity config \<le> 4096" using o(3) parsed_bounds by (auto simp: cfg split: if_splits)
qed

text \<open>
  C26: a command line that is accepted configures a server that starts: port, number of workers and
  queue capacity are inside their documented ranges, and where the operating system grants
  the socket, the threads and the memory, the process gets as far as its accept loop, with
  that many workers and an empty queue of that capacity.
\<close>

theorem configured_server_starts:
  assumes "api_main_config args = Some config"
  shows "1 \<le> cfg_port config \<and> cfg_port config \<le> 65535 \<and> 1 \<le> cfg_worker_count config \<and> cfg_worker_count config \<le> 256 \<and>
     1 \<le> cfg_queue_capacity config \<and> cfg_queue_capacity config \<le> 4096 \<and>
     (\<exists>en' lm s. api_main_start (True, True, True) True (True, True, True) True (\<lambda>_. True) args en = Some (en', lm, s) \<and>
        en_initialized en' \<and> as_phase s = Accepting \<and>
        length (tp_workers (as_pool s)) = nat (cfg_worker_count config) \<and>
        jq_capacity (tp_queue (as_pool s)) = nat (cfg_queue_capacity config) \<and> queue_contents (tp_queue (as_pool s)) = [])"
proof -
  note b = config_bounds [OF assms]
  have "list_all (\<lambda>_. True) xs" for xs :: "nat list" by (induction xs) auto
  then have "\<exists>s. api_server_start True (True, True, True) True (\<lambda>_. True) config = Some s \<and> as_phase s = Accepting \<and>
      length (tp_workers (as_pool s)) = nat (cfg_worker_count config) \<and>
      jq_capacity (tp_queue (as_pool s)) = nat (cfg_queue_capacity config) \<and> queue_contents (tp_queue (as_pool s)) = []"
    using b by (simp add: api_server_start_def thread_pool_init_def queue_init_def queue_contents_def)
  moreover have "\<exists>en' lm. db_engine_init (True, True, True) en lock_manager_zero = (en', lm, SUCCESS) \<and> en_initialized en'"
    by (simp add: db_engine_init_def init_lock_manager_def split: prod.split status.split)
  ultimately show ?thesis using b assms by (auto simp: api_main_start_def)
qed

theorem configured_server_starts_witness:
  "\<exists>config. api_main_config [''9000'', ''8''] = Some config \<and> 1 \<le> cfg_worker_count config \<and> cfg_worker_count config \<le> 256 \<and>
     (\<exists>en' lm s. api_main_start (True, True, True) True (True, True, True) True (\<lambda>_. True) [''9000'', ''8''] (fresh_engine empty_fs) =
        Some (en', lm, s) \<and> length (tp_workers (as_pool s)) = nat (cfg_worker_count config))"
proof -
  have c: "api_main_config [''9000'', ''8''] = Some \<lparr>cfg_port = 9000, cfg_worker_count = 8, cfg_queue_capacity = 16\<rparr>" by code_simp
  show ?thesis using configured_server_starts [OF c, of "fresh_engine empty_fs"] c by blast
qed

end
