(* ===== verification/Display.thy ===== *)
theory Display
  imports Executor_Correct
begin

unbundle bit_operations_syntax

text \<open>
  Printing results on a terminal: the display width of UTF-8 text and padding
  (\<^verbatim>\<open>src/common/utils.c\<close>) and the tables of the command line client
  (\<^verbatim>\<open>src/db/executor.c\<close>).  What is printed is the text of the output streams.  Every line
  of a table has the same display width, whatever bytes the cells hold.
\<close>

section \<open>UTF-8\<close>

text \<open>The byte at an index; the one behind the text is the terminating NUL.\<close>

definition byte_at :: "string \<Rightarrow> nat \<Rightarrow> nat" where
  "byte_at text i = (if i < length text then byte_of (text ! i) else 0)"

definition continuation_byte :: "nat \<Rightarrow> bool" where
  "continuation_byte b \<longleftrightarrow> b AND 0xC0 = 0x80"

text \<open>The bytes used and the code point; \<open>None\<close> is \<^verbatim>\<open>FAILURE\<close>.\<close>

definition utils_utf8_decode :: "string \<Rightarrow> (nat \<times> nat) option" where
  "utils_utf8_decode text =
     (let b0 = byte_at text 0; b1 = byte_at text 1; b2 = byte_at text 2; b3 = byte_at text 3 in
      if b0 = 0 then Some (0, 0)
      else if b0 < 0x80 then Some (1, b0)
      else if 0xC2 \<le> b0 \<and> b0 \<le> 0xDF \<and> continuation_byte b1
      then Some (2, push_bit 6 (b0 AND 0x1F) OR (b1 AND 0x3F))
      else if 0xE0 \<le> b0 \<and> b0 \<le> 0xEF \<and> continuation_byte b1 \<and> continuation_byte b2
      then (if b0 = 0xE0 \<and> b1 < 0xA0 \<or> b0 = 0xED \<and> 0xA0 \<le> b1 then None
            else Some (3, push_bit 12 (b0 AND 0x0F) OR push_bit 6 (b1 AND 0x3F) OR (b2 AND 0x3F)))
      else if 0xF0 \<le> b0 \<and> b0 \<le> 0xF4 \<and> continuation_byte b1 \<and> continuation_byte b2 \<and> continuation_byte b3
      then (if b0 = 0xF0 \<and> b1 < 0x90 \<or> b0 = 0xF4 \<and> 0x90 \<le> b1 then None
            else Some (4, push_bit 18 (b0 AND 0x07) OR push_bit 12 (b1 AND 0x3F) OR push_bit 6 (b2 AND 0x3F) OR (b3 AND 0x3F)))
      else None)"

definition utils_is_zero_width_codepoint :: "nat \<Rightarrow> bool" where
  "utils_is_zero_width_codepoint cp \<longleftrightarrow>
     0x0300 \<le> cp \<and> cp \<le> 0x036F \<or> 0x1AB0 \<le> cp \<and> cp \<le> 0x1AFF \<or> 0x1DC0 \<le> cp \<and> cp \<le> 0x1DFF \<or>
     0x20D0 \<le> cp \<and> cp \<le> 0x20FF \<or> 0xFE20 \<le> cp \<and> cp \<le> 0xFE2F"

definition utils_is_wide_codepoint :: "nat \<Rightarrow> bool" where
  "utils_is_wide_codepoint cp \<longleftrightarrow>
     cp = 0x2329 \<or> cp = 0x232A \<or>
     0x1100 \<le> cp \<and>
       (cp \<le> 0x115F \<or> cp = 0x303F \<or> 0x2E80 \<le> cp \<and> cp \<le> 0xA4CF \<or> 0xAC00 \<le> cp \<and> cp \<le> 0xD7A3 \<or>
        0xF900 \<le> cp \<and> cp \<le> 0xFAFF \<or> 0xFE10 \<le> cp \<and> cp \<le> 0xFE19 \<or> 0xFE30 \<le> cp \<and> cp \<le> 0xFE6F \<or>
        0xFF00 \<le> cp \<and> cp \<le> 0xFF60 \<or> 0xFFE0 \<le> cp \<and> cp \<le> 0xFFE6 \<or> 0x1F300 \<le> cp \<and> cp \<le> 0x1FAFF \<or>
        0x20000 \<le> cp \<and> cp \<le> 0x3FFFD)"

definition codepoint_width :: "nat \<Rightarrow> nat" where
  "codepoint_width cp =
     (if cp = 9 then 4
      else if cp < 0x20 \<or> 0x7F \<le> cp \<and> cp < 0xA0 then 0
      else if utils_is_zero_width_codepoint cp then 0
      else if utils_is_wide_codepoint cp then 2
      else 1)"

text \<open>One step of the width loop: what is used and the code point, a single byte where decoding fails.\<close>

definition next_codepoint :: "string \<Rightarrow> nat \<times> nat" where
  "next_codepoint text =
     (case utils_utf8_decode text of
        None \<Rightarrow> (1, byte_at text 0)
      | Some (consumed, cp) \<Rightarrow> if consumed = 0 then (1, byte_at text 0) else (consumed, cp))"

lemma next_codepoint_positive: "0 < fst (next_codepoint text)"
  by (auto simp: next_codepoint_def split: option.splits)

function utils_display_width :: "string \<Rightarrow> nat" where
  "utils_display_width text =
     (if text = [] then 0
      else case next_codepoint text of (consumed, cp) \<Rightarrow> codepoint_width cp + utils_display_width (drop consumed text))"
  by pat_completeness auto
termination
proof (relation "measure length", goal_cases)
  case (2 s consumed cp)
  then have "0 < consumed" using next_codepoint_positive [of s] by (metis fst_conv)
  then show ?case using 2(1) by (cases s) auto
qed simp

declare utils_display_width.simps [simp del]

definition utils_print_padded :: "string \<Rightarrow> nat \<Rightarrow> string" where
  "utils_print_padded text target_width = text @ replicate (target_width - utils_display_width text) (CHR '' '')"

section \<open>Tables\<close>

fun executor_print_border :: "nat list \<Rightarrow> string" where
  "executor_print_border [] = ''+'' @ [NL]"
| "executor_print_border (w # ws) = ''+'' @ replicate (w + 2) (CHR ''-'') @ executor_print_border ws"

text \<open>One row of the table: the cells up to the number of headers, each padded to its width.\<close>

fun print_cells :: "nat list \<Rightarrow> string list \<Rightarrow> string option" where
  "print_cells [] cs = Some (''|'' @ [NL])"
| "print_cells (w # ws) [] = None"
| "print_cells (w # ws) (c # cs) = map_option (\<lambda>rest. ''| '' @ utils_print_padded c w @ '' '' @ rest) (print_cells ws cs)"

fun print_rows :: "nat list \<Rightarrow> string list list \<Rightarrow> string option" where
  "print_rows ws [] = Some []"
| "print_rows ws (row # rows) = do {
     line \<leftarrow> print_cells ws row;
     rest \<leftarrow> print_rows ws rows;
     Some (line @ rest)
   }"

text \<open>The loop that widens the columns by the cells of one row.\<close>

fun widen :: "nat list \<Rightarrow> string list \<Rightarrow> nat list option" where
  "widen [] cs = Some []"
| "widen (w # ws) [] = None"
| "widen (w # ws) (c # cs) =
     map_option (Cons (if w < utils_display_width c then utils_display_width c else w)) (widen ws cs)"

fun table_widths :: "nat list \<Rightarrow> string list list \<Rightarrow> nat list option" where
  "table_widths ws [] = Some ws"
| "table_widths ws (row # rows) = do { ws' \<leftarrow> widen ws row; table_widths ws' rows }"

definition executor_print_table :: "string list \<Rightarrow> string list list \<Rightarrow> string option" where
  "executor_print_table headers rows =
     (if MAX_COLUMNS < length headers then None
      else do {
        widths \<leftarrow> table_widths (map utils_display_width headers) rows;
        header_line \<leftarrow> print_cells widths headers;
        row_lines \<leftarrow> print_rows widths rows;
        Some (executor_print_border widths @ header_line @ executor_print_border widths @ row_lines @
          executor_print_border widths)
      })"

text \<open>The texts on the standard output and on the standard error stream.\<close>

definition message_line :: "db_result \<Rightarrow> string" where
  "message_line r = (if res_message r = [] then [] else res_message r @ [NL])"

definition executor_render_result_for_cli :: "db_result \<Rightarrow> (string \<times> string) option" where
  "executor_render_result_for_cli r =
     (if \<not> res_success r then Some ([], if res_message r = [] then [] else ''Error: '' @ res_message r @ [NL])
      else (case res_type r of
              DB_RESULT_INSERT \<Rightarrow> Some (message_line r, [])
            | DB_RESULT_SELECT \<Rightarrow> do {
                table \<leftarrow> executor_print_table (res_columns r) (res_rows r);
                Some (table @ message_line r, [])
              }
            | _ \<Rightarrow> Some (message_line r, [])))"

definition executor_execute ::
  "file_system \<Rightarrow> runtime_state \<Rightarrow> sql_statement \<Rightarrow> (file_system \<times> runtime_state \<times> (string \<times> string) \<times> status) option" where
  "executor_execute fs rt stmt = do {
     (fs', rt', r, st) \<leftarrow> executor_execute_into_result fs rt stmt db_result_init;
     out \<leftarrow> executor_render_result_for_cli r;
     Some (fs', rt', out, st)
   }"

section \<open>Widths add up at plain characters\<close>

definition ascii :: "char \<Rightarrow> bool" where
  "ascii c \<longleftrightarrow> byte_of c < 0x80 \<and> c \<noteq> NUL"

lemma continuation_high: "continuation_byte b \<Longrightarrow> 0x80 \<le> b"
proof -
  assume "continuation_byte b"
  then have "int b AND 0xC0 = 0x80" unfolding continuation_byte_def and_nat_def by simp
  then show ?thesis using AND_upper1 [of "int b"] by (metis of_nat_0_le_iff of_nat_le_iff of_nat_numeral)
qed

lemma byte_at_append:
  assumes "ascii c"
  shows "continuation_byte (byte_at (a @ c # b) i) \<Longrightarrow> i \<le> length a \<Longrightarrow> i < length a"
proof (rule ccontr)
  assume i: "continuation_byte (byte_at (a @ c # b) i)" "i \<le> length a" "\<not> i < length a"
  then have "byte_at (a @ c # b) i = byte_of c" by (simp add: byte_at_def)
  then show False using i(1) continuation_high assms by (fastforce simp: ascii_def)
qed

lemma byte_at_inside: "i < length a \<Longrightarrow> byte_at (a @ s) i = byte_at a i"
  by (simp add: byte_at_def nth_append)

lemma byte_at_outside: "continuation_byte (byte_at a i) \<Longrightarrow> i < length a"
  by (rule ccontr) (auto simp: byte_at_def dest: continuation_high)

text \<open>Continuation bytes are read one after the other, so a plain character stops the decoder.\<close>

lemma continuation_append:
  assumes "ascii c" "i \<le> length a"
  shows "continuation_byte (byte_at (a @ c # b) i) \<longleftrightarrow> continuation_byte (byte_at a i)"
  using byte_at_append [OF assms(1)] byte_at_outside byte_at_inside assms(2) by metis

lemma decode_append:
  assumes "ascii c" "a \<noteq> []"
  shows "utils_utf8_decode (a @ c # b) = utils_utf8_decode a"
proof -
  let ?s = "a @ c # b"
  have b0: "byte_at ?s 0 = byte_at a 0" using assms(2) by (simp add: byte_at_inside)
  have c1: "continuation_byte (byte_at ?s 1) = continuation_byte (byte_at a 1)"
    using assms by (intro continuation_append) (cases a; simp)+
  have c2: "continuation_byte (byte_at ?s 2) = continuation_byte (byte_at a 2)" if "continuation_byte (byte_at a 1)"
    using assms(1) byte_at_outside [OF that] by (intro continuation_append) simp_all
  have c3: "continuation_byte (byte_at ?s 3) = continuation_byte (byte_at a 3)" if "continuation_byte (byte_at a 2)"
    using assms(1) byte_at_outside [OF that] by (intro continuation_append) simp_all
  have eq: "byte_at ?s i = byte_at a i" if "continuation_byte (byte_at a i)" for i
    using byte_at_inside byte_at_outside [OF that] by blast
  show ?thesis unfolding utils_utf8_decode_def Let_def b0 using c1 c2 c3 eq by (simp cong: conj_cong if_cong)
qed

lemma next_codepoint_fits:
  assumes "a \<noteq> []"
  shows "fst (next_codepoint a) \<le> length a"
proof -
  have one: "Suc 0 \<le> length a" using assms by (cases a) auto
  have two: "continuation_byte (byte_at a 1) \<Longrightarrow> 2 \<le> length a" using byte_at_outside [of a 1] by simp
  have three: "continuation_byte (byte_at a 2) \<Longrightarrow> 3 \<le> length a" using byte_at_outside [of a 2] by simp
  have four: "continuation_byte (byte_at a 3) \<Longrightarrow> 4 \<le> length a" using byte_at_outside [of a 3] by simp
  show ?thesis unfolding next_codepoint_def utils_utf8_decode_def Let_def
    using one two three four by (auto split: option.splits)
qed

lemma next_codepoint_append:
  assumes "ascii c" "a \<noteq> []"
  shows "next_codepoint (a @ c # b) = next_codepoint a"
proof -
  have "byte_at (a @ c # b) 0 = byte_at a 0" using assms(2) by (simp add: byte_at_inside)
  then show ?thesis unfolding next_codepoint_def decode_append [OF assms] by (simp split: option.split)
qed

lemma width_append:
  assumes "ascii c"
  shows "utils_display_width (a @ c # b) = utils_display_width a + utils_display_width (c # b)"
proof (induction "length a" arbitrary: a rule: less_induct)
  case less
  show ?case
  proof (cases "a = []")
    case True
    then show ?thesis by (simp add: utils_display_width.simps [of "[]"])
  next
    case False
    obtain n cp where n: "next_codepoint a = (n, cp)" by fastforce
    have fits: "n \<le> length a" "0 < n" using next_codepoint_fits [OF False] next_codepoint_positive [of a] n by auto
    have "utils_display_width (a @ c # b) = codepoint_width cp + utils_display_width (drop n a @ c # b)"
      using False n fits next_codepoint_append [OF assms False, of b] by (subst utils_display_width.simps) simp
    also have "\<dots> = codepoint_width cp + (utils_display_width (drop n a) + utils_display_width (c # b))"
      using less [of "drop n a"] fits False by simp
    also have "\<dots> = utils_display_width a + utils_display_width (c # b)"
      using False n by (subst (3) utils_display_width.simps) simp
    finally show ?thesis .
  qed
qed

lemma width_plain:
  assumes "0x20 \<le> byte_of c" "byte_of c < 0x7F"
  shows "utils_display_width (c # s) = Suc (utils_display_width s)"
proof -
  have "next_codepoint (c # s) = (1, byte_of c)"
    using assms by (auto simp: next_codepoint_def utils_utf8_decode_def byte_at_def Let_def)
  moreover have "codepoint_width (byte_of c) = 1"
    using assms by (simp add: codepoint_width_def utils_is_zero_width_codepoint_def utils_is_wide_codepoint_def)
  ultimately show ?thesis by (subst utils_display_width.simps) simp
qed

lemma width_Nil [simp]: "utils_display_width [] = 0"
  by (simp add: utils_display_width.simps)

lemma plain_ascii: "0x20 \<le> byte_of c \<Longrightarrow> byte_of c < 0x7F \<Longrightarrow> ascii c"
  by (auto simp: ascii_def)

lemma width_run:
  assumes "0x20 \<le> byte_of c" "byte_of c < 0x7F"
  shows "utils_display_width (replicate n c @ s) = n + utils_display_width s"
  by (induction n) (simp_all add: width_plain [OF assms])

text \<open>A padded cell followed by a space has the width it was padded to.\<close>

lemma width_padded:
  assumes "utils_display_width t \<le> w"
  shows "utils_display_width (utils_print_padded t w @ CHR '' '' # s) = w + utils_display_width (CHR '' '' # s)"
proof -
  let ?k = "w - utils_display_width t"
  have "utils_display_width (utils_print_padded t w @ CHR '' '' # s) =
      utils_display_width (t @ CHR '' '' # replicate ?k (CHR '' '') @ s)"
    by (simp add: utils_print_padded_def replicate_app_Cons_same)
  also have "\<dots> = utils_display_width t + utils_display_width (CHR '' '' # replicate ?k (CHR '' '') @ s)"
    by (rule width_append) (simp add: ascii_def)
  also have "\<dots> = w + utils_display_width (CHR '' '' # s)"
    using assms width_run [of "CHR '' ''" ?k s] by (simp add: width_plain)
  finally show ?thesis .
qed

section \<open>Lines of a table\<close>

definition line_width :: "nat list \<Rightarrow> nat" where
  "line_width ws = sum_list ws + 3 * length ws + 1"

definition is_line :: "nat list \<Rightarrow> string \<Rightarrow> bool" where
  "is_line ws out \<longleftrightarrow> (\<exists>l. out = l @ [NL] \<and> utils_display_width l = line_width ws)"

lemma border_line: "is_line ws (executor_print_border ws)"
proof (induction ws)
  case Nil
  then show ?case by (auto simp: is_line_def line_width_def width_plain)
next
  case (Cons w ws)
  then obtain l where l: "executor_print_border ws = l @ [NL]" "utils_display_width l = line_width ws" by (auto simp: is_line_def)
  have "utils_display_width (CHR ''+'' # replicate (w + 2) (CHR ''-'') @ l) = line_width (w # ws)"
    using l(2) width_run [of "CHR ''-''" "w + 2" l] by (simp add: width_plain line_width_def del: replicate_Suc)
  then show ?case using l(1) by (auto simp: is_line_def)
qed

lemma cells_line:
  "print_cells ws cs = Some out \<Longrightarrow> list_all2 (\<lambda>w c. utils_display_width c \<le> w) ws (take (length ws) cs) \<Longrightarrow> is_line ws out"
proof (induction ws cs arbitrary: out rule: print_cells.induct)
  case (1 cs)
  then show ?case by (auto simp: is_line_def line_width_def width_plain)
next
  case (3 w ws c cs)
  then obtain rest where r: "print_cells ws cs = Some rest" "out = ''| '' @ utils_print_padded c w @ '' '' @ rest" by auto
  then obtain l where l: "rest = l @ [NL]" "utils_display_width l = line_width ws" using 3 by (auto simp: is_line_def)
  have "utils_display_width (''| '' @ utils_print_padded c w @ '' '' @ l) = line_width (w # ws)"
    using width_padded [of c w l] 3(3) l(2) by (simp add: width_plain line_width_def)
  then show ?case using r(2) l(1) by (auto simp: is_line_def)
qed simp

lemma widen_grows:
  "widen ws cs = Some ws' \<Longrightarrow> list_all2 (\<le>) ws ws' \<and> list_all2 (\<lambda>w c. utils_display_width c \<le> w) ws' (take (length ws) cs)"
  by (induction ws cs arbitrary: ws' rule: widen.induct) auto

lemma list_all2_le_trans: "list_all2 (\<le>) xs (ys :: nat list) \<Longrightarrow> list_all2 (\<le>) ys zs \<Longrightarrow> list_all2 (\<le>) xs zs"
  by (rule list_all2_trans) auto

lemma table_widths_grow: "table_widths ws rows = Some ws' \<Longrightarrow> list_all2 (\<le>) ws ws'"
proof (induction rows arbitrary: ws)
  case (Cons row rows)
  then show ?case using widen_grows list_all2_le_trans by (auto split: bind_splits) blast
qed (simp add: list_all2_refl)

lemma wide_enough_mono:
  "list_all2 (\<lambda>w c. utils_display_width c \<le> w) ws cs \<Longrightarrow> list_all2 (\<le>) ws ws' \<Longrightarrow>
   list_all2 (\<lambda>w c. utils_display_width c \<le> w) ws' cs"
proof (induction ws cs arbitrary: ws' rule: list_all2_induct)
  case (Cons w ws c cs)
  then show ?case by (cases ws') auto
qed simp

lemma rows_fit:
  "table_widths ws rows = Some ws' \<Longrightarrow> row \<in> set rows \<Longrightarrow>
   list_all2 (\<lambda>w c. utils_display_width c \<le> w) ws' (take (length ws') row)"
proof (induction rows arbitrary: ws)
  case (Cons r rows)
  then obtain ws1 where w: "widen ws r = Some ws1" "table_widths ws1 rows = Some ws'" by (auto split: bind_splits)
  have len: "length ws = length ws'" using table_widths_grow [OF Cons.prems(1)] by (rule list_all2_lengthD)
  show ?case
  proof (cases "row = r")
    case True
    then show ?thesis using widen_grows [OF w(1)] wide_enough_mono table_widths_grow [OF w(2)] len by auto
  next
    case False
    then show ?thesis using Cons w by auto
  qed
qed simp

lemma print_rows_lines:
  "print_rows ws rows = Some out \<Longrightarrow>
   \<forall>row \<in> set rows. list_all2 (\<lambda>w c. utils_display_width c \<le> w) ws (take (length ws) row) \<Longrightarrow>
   \<exists>lines. out = concat lines \<and> length lines = length rows \<and> list_all (is_line ws) lines"
proof (induction rows arbitrary: out)
  case (Cons row rows)
  then obtain line rest where r: "print_cells ws row = Some line" "print_rows ws rows = Some rest" "out = line @ rest"
    by (auto split: bind_splits)
  then obtain lines where "rest = concat lines" "length lines = length rows" "list_all (is_line ws) lines" using Cons by auto
  then show ?case using r(3) cells_line [OF r(1)] Cons.prems(2) by (intro exI [of _ "line # lines"]) auto
qed simp

lemma print_cells_total: "length ws \<le> length cs \<Longrightarrow> \<exists>out. print_cells ws cs = Some out"
  by (induction ws cs rule: print_cells.induct) auto

lemma print_rows_total: "\<forall>row \<in> set rows. length ws \<le> length row \<Longrightarrow> \<exists>out. print_rows ws rows = Some out"
  using print_cells_total by (induction rows) fastforce+

lemma widen_total: "length ws \<le> length cs \<Longrightarrow> \<exists>ws'. widen ws cs = Some ws' \<and> length ws' = length ws"
  by (induction ws cs rule: widen.induct) auto

lemma table_widths_total:
  "\<forall>row \<in> set rows. length ws \<le> length row \<Longrightarrow> \<exists>ws'. table_widths ws rows = Some ws' \<and> length ws' = length ws"
proof (induction rows arbitrary: ws)
  case (Cons row rows)
  then obtain ws1 where "widen ws row = Some ws1" "length ws1 = length ws" using widen_total [of ws row] by auto
  then show ?case using Cons.IH [of ws1] Cons.prems by auto
qed simp

lemma table_prints:
  assumes "length headers \<le> MAX_COLUMNS" "\<forall>row \<in> set rows. length row = length headers"
  shows "\<exists>ws lines. executor_print_table headers rows = Some (concat lines) \<and> length lines = length rows + 4 \<and>
     list_all (is_line ws) lines"
proof -
  let ?ws0 = "map utils_display_width headers"
  obtain ws where ws: "table_widths ?ws0 rows = Some ws" "length ws = length headers"
    using table_widths_total [of rows ?ws0] assms(2) by auto
  obtain head where h: "print_cells ws headers = Some head" using print_cells_total [of ws headers] ws(2) by auto
  obtain out where out: "print_rows ws rows = Some out" using print_rows_total [of rows ws] ws(2) assms(2) by auto
  have "list_all2 (\<lambda>w c. utils_display_width c \<le> w) ?ws0 headers" by (simp add: list_all2_conv_all_nth)
  then have "is_line ws head"
    using cells_line [OF h] wide_enough_mono [OF _ table_widths_grow [OF ws(1)]] ws(2) by simp
  moreover obtain lines where "out = concat lines" "length lines = length rows" "list_all (is_line ws) lines"
    using print_rows_lines [OF out] rows_fit [OF ws(1)] by blast
  ultimately show ?thesis using ws h out assms(1) border_line [of ws]
    by (intro exI [of _ ws] exI [of _ "[executor_print_border ws, head, executor_print_border ws] @ lines @ [executor_print_border ws]"])
      (simp add: executor_print_table_def)
qed

section \<open>Properties\<close>



end
