(* ===== verification/Cli.thy ===== *)
theory Cli
  imports Result_Shape Display
begin

text \<open>
  The command line client \<^verbatim>\<open>src/cli/main.c\<close> with \<^verbatim>\<open>utils_read_file\<close>: running the statements of
  a file, and the interactive loop.  What is printed is a pair of texts, standard output and
  standard error.  The input of the interactive loop is the whole text of the standard
  input, read line by line.
\<close>

section \<open>Statements\<close>

type_synonym console = "string \<times> string"

definition print_out :: "string \<Rightarrow> console \<Rightarrow> console" where
  "print_out s c = (fst c @ s, snd c)"

definition print_err :: "string \<Rightarrow> console \<Rightarrow> console" where
  "print_err s c = (fst c, snd c @ s)"

definition print_both :: "console \<Rightarrow> console \<Rightarrow> console" where
  "print_both c d = (fst c @ fst d, snd c @ snd d)"

function main_skip_whitespace :: "string \<Rightarrow> nat \<Rightarrow> nat" where
  "main_skip_whitespace s i = (if i < length s \<and> is_space (s ! i) then main_skip_whitespace s (i + 1) else i)"
  by pat_completeness auto
termination
  by (relation "measure (\<lambda>(s, i). length s - i)") auto

declare main_skip_whitespace.simps [simp del]

definition main_process_sql_statement :: "db_engine \<Rightarrow> string \<Rightarrow> (db_engine \<times> console \<times> status) option" where
  "main_process_sql_statement en sql =
     (let working_sql = utils_trim sql in
      if working_sql = [] then Some (en, ([], []), SUCCESS)
      else do {
        (en', r, st) \<leftarrow> db_execute_sql en working_sql;
        printed \<leftarrow> executor_render_result_for_cli r;
        Some (en', printed, st)
      })"

section \<open>File mode\<close>

definition utils_read_file :: "file_system \<Rightarrow> string \<Rightarrow> string option" where
  "utils_read_file fs path = files fs path"

lemma skip_whitespace_ge: "i \<le> main_skip_whitespace s i"
  by (induction s i rule: main_skip_whitespace.induct) (subst main_skip_whitespace.simps, auto)

lemma terminator_bounds:
  "utils_find_statement_terminator s i = Some n \<Longrightarrow> i \<le> n \<and> n < length s"
proof -
  assume "utils_find_statement_terminator s i = Some n"
  then obtain pre post where p: "drop i s = pre @ CHR '';'' # post" "n = i + length pre"
    using find_terminator_iff by blast
  then have "i < length s" by (metis drop_all list.distinct(1) append_is_Nil_conv not_less)
  moreover have "length s - i = length pre + Suc (length post)" using arg_cong [OF p(1), of length] by simp
  ultimately show ?thesis using p(2) by auto
qed

function file_loop :: "db_engine \<Rightarrow> string \<Rightarrow> nat \<Rightarrow> console \<Rightarrow> (db_engine \<times> console) option" where
  "file_loop en content start printed =
     (if start < length content
      then let start1 = main_skip_whitespace content start in
        if length content \<le> start1 then Some (en, printed)
        else (case utils_find_statement_terminator content start1 of
          None \<Rightarrow>
            Some (en, if utils_trim (drop start1 content) \<noteq> []
              then print_err (''Error: Missing semicolon at end of SQL statement.'' @ [NL]) printed else printed)
        | Some terminator_index \<Rightarrow> do {
            statement \<leftarrow> utils_substring content start1 (terminator_index - start1 + 1);
            (en', out, st) \<leftarrow> main_process_sql_statement en statement;
            file_loop en' content (terminator_index + 1) (print_both printed out)
          })
      else Some (en, printed))"
  by pat_completeness auto
termination
proof (relation "measure (\<lambda>(en, content, start, printed). length content - start)", goal_cases)
  case (2 en content start printed start1 n)
  then show ?case using terminator_bounds [of content start1 n] skip_whitespace_ge [of start content] by auto
qed simp

declare file_loop.simps [simp del]

definition main_run_file_mode :: "db_engine \<Rightarrow> string \<Rightarrow> (db_engine \<times> console \<times> status) option" where
  "main_run_file_mode en path =
     (case utils_read_file (en_files en) path of
        None \<Rightarrow> Some (en, ([], ''Error: Failed to open file '' @ [QUOTE] @ path @ [QUOTE] @ ''.'' @ [NL]), FAILURE)
      | Some content \<Rightarrow> map_option (\<lambda>(en', printed). (en', printed, SUCCESS)) (file_loop en (c_string content) 0 ([], [])))"

section \<open>Interactive mode\<close>

definition MAX_SQL_LENGTH :: nat where "MAX_SQL_LENGTH = 8192"

definition main_trimmed_equals :: "string \<Rightarrow> string \<Rightarrow> bool" where
  "main_trimmed_equals line keyword = utils_equals_ignore_case (utils_trim line) keyword"

text \<open>\<open>None\<close> is \<^verbatim>\<open>FAILURE\<close>: there is no buffer.\<close>

definition main_replace_buffer_with_remainder :: "text_buffer \<Rightarrow> nat \<Rightarrow> text_buffer option" where
  "main_replace_buffer_with_remainder b end_index =
     (case fst b of
        None \<Rightarrow> None
      | Some s \<Rightarrow> let remainder = utils_trim (drop (end_index + 1) s) in Some (Some remainder, length remainder + 1))"

lemma trim_length: "length (utils_trim s) \<le> length s"
proof -
  have "length (dropWhile P (rev (dropWhile P (rev s)))) \<le> length s" for P
    using length_dropWhile_le [of P "rev (dropWhile P (rev s))"] length_dropWhile_le [of P "rev s"] by simp
  then show ?thesis by (simp add: utils_trim_eq)
qed

text \<open>The statements completed by a line; an emptied buffer is released.\<close>

function repl_statements :: "db_engine \<Rightarrow> text_buffer \<Rightarrow> console \<Rightarrow> (db_engine \<times> text_buffer \<times> console) option" where
  "repl_statements en b printed =
     (case fst b of
        None \<Rightarrow> Some (en, b, printed)
      | Some s \<Rightarrow>
          (case utils_find_statement_terminator s 0 of
             None \<Rightarrow> Some (en, b, printed)
           | Some terminator_index \<Rightarrow> do {
               statement \<leftarrow> utils_substring s 0 (terminator_index + 1);
               (en', out, st) \<leftarrow> main_process_sql_statement en statement;
               case main_replace_buffer_with_remainder b terminator_index of
                 None \<Rightarrow> None
               | Some b' \<Rightarrow>
                   if buffer_text b' = [] then Some (en', (None, 0), print_both printed out)
                   else repl_statements en' b' (print_both printed out)
             }))"
  by pat_completeness auto
termination
proof (relation "measure (\<lambda>(en, b, printed). length (buffer_text b))", goal_cases)
  case (2 en b printed s n)
  then show ?case using terminator_bounds [of s 0 n] trim_length [of "drop (n + 1) s"]
    by (auto simp: main_replace_buffer_with_remainder_def buffer_text_def Let_def)
qed simp

declare repl_statements.simps [simp del]

lemma fgets_split: "fgets n s = Some (line, rest, eof) \<Longrightarrow> s = line @ rest \<and> line \<noteq> []"
proof -
  have "fgets_loop k s = (l, r, e) \<Longrightarrow> s = l @ r" for k l r e
    by (induction k s arbitrary: l r e rule: fgets_loop.induct) (auto split: if_splits prod.splits)
  then show "fgets n s = Some (line, rest, eof) \<Longrightarrow> s = line @ rest \<and> line \<noteq> []"
    by (auto simp: fgets_def split: prod.splits if_splits)
qed

function repl_loop :: "db_engine \<Rightarrow> text_buffer \<Rightarrow> console \<Rightarrow> string \<Rightarrow> (db_engine \<times> console) option" where
  "repl_loop en b printed input =
     (let prompted = print_out (if buffer_text b = [] then ''SQL> '' else ''...> '') printed in
      case fgets MAX_SQL_LENGTH input of
        None \<Rightarrow>
          Some (en, if buffer_text b \<noteq> []
            then print_err (''Error: Incomplete SQL statement before EOF.'' @ [NL]) prompted else prompted)
      | Some (bytes, rest, eof) \<Rightarrow>
          let line = c_string bytes in
          if buffer_text b = [] \<and> (main_trimmed_equals line ''exit'' \<or> main_trimmed_equals line ''quit'')
          then Some (en, prompted)
          else do {
            b1 \<leftarrow> utils_append_buffer b line;
            (en', b2, printed') \<leftarrow> repl_statements en b1 prompted;
            repl_loop en' b2 printed' rest
          })"
  by pat_completeness auto
termination
proof (relation "measure (\<lambda>(en, b, printed, input). length input)", goal_cases)
  case (2 en b printed input prompted triple bytes rest)
  then show ?case using fgets_split by fastforce
qed simp

declare repl_loop.simps [simp del]

definition main_run_repl_mode :: "db_engine \<Rightarrow> string \<Rightarrow> (db_engine \<times> console \<times> status) option" where
  "main_run_repl_mode en input = do {
     (en', printed) \<leftarrow> repl_loop en (None, 0) ([], []) input;
     Some (en', print_out (''Bye.'' @ [NL]) printed, SUCCESS)
   }"

end
