(* ===== verification/Cli_Correct.thy ===== *)
theory Cli_Correct
  imports Cli
begin

text \<open>
  File mode and interactive mode execute the statements of their input one after the other
  and print the same results.
\<close>

section \<open>Every statement is processed\<close>

lemma render_total:
  assumes "run_sql fs rt sql = Some (fs', rt', r, st)"
  shows "\<exists>out. executor_render_result_for_cli r = Some out"
proof (cases st)
  case SUCCESS
  then have "rectangular r" using run_sql_shape assms by blast
  then have "\<exists>t. executor_print_table (res_columns r) (res_rows r) = Some t"
    using table_prints [of "res_columns r" "res_rows r"] by (auto simp: rectangular_def)
  then show ?thesis by (auto simp: executor_render_result_for_cli_def split: db_result_type.splits)
next
  case FAILURE
  then show ?thesis using run_sql_fails assms by (simp add: executor_render_result_for_cli_def)
qed

definition ready :: "db_engine \<Rightarrow> bool" where
  "ready en \<longleftrightarrow> en_safe en \<and> en_initialized en"

lemma process_total:
  assumes "ready en"
  shows "\<exists>en' out st. main_process_sql_statement en sql = Some (en', out, st) \<and> ready en'"
proof (cases "utils_trim sql = []")
  case True
  then show ?thesis using assms by (simp add: main_process_sql_statement_def)
next
  case False
  have en: "cache_inv (en_tokenizer en)" "en_initialized en" "rt_safe (en_runtime en)"
    using assms by (auto simp: ready_def en_safe_def)
  obtain fs rt r st where run: "run_sql (en_files en) (en_runtime en) (utils_trim sql) = Some (fs, rt, r, st)" "rt_safe rt"
    using run_sql_safe [OF en(3)] by blast
  obtain tok where "cache_inv tok" "db_execute_sql en (utils_trim sql) =
      Some (en\<lparr>en_tokenizer := tok, en_files := fs, en_runtime := rt\<rparr>, r, st)"
    using execute_sql_run [OF en(1,2), of "utils_trim sql"] run(1) by auto
  then show ?thesis using False en(2) run(2) render_total [OF run(1)]
    by (auto simp: main_process_sql_statement_def Let_def ready_def en_safe_def)
qed

text \<open>The reference: the statements in order, with what each prints.\<close>

fun run_each :: "db_engine \<Rightarrow> string list \<Rightarrow> (db_engine \<times> console list) option" where
  "run_each en [] = Some (en, [])"
| "run_each en (s # ss) = do {
     (en1, out, st) \<leftarrow> main_process_sql_statement en s;
     (en2, outs) \<leftarrow> run_each en1 ss;
     Some (en2, out # outs)
   }"

lemma run_each_total: "ready en \<Longrightarrow> \<exists>en' outs. run_each en ss = Some (en', outs) \<and> ready en'"
proof (induction ss arbitrary: en)
  case (Cons s ss)
  obtain en1 out st where "main_process_sql_statement en s = Some (en1, out, st)" "ready en1"
    using process_total [OF Cons.prems] by blast
  then show ?case using Cons.IH [of en1] by auto
qed simp

definition console_text :: "console list \<Rightarrow> console" where
  "console_text outs = (concat (map fst outs), concat (map snd outs))"

section \<open>File mode\<close>

text \<open>A statement with its semicolon, and nothing behind it.\<close>

definition complete_sql :: "string \<Rightarrow> bool" where
  "complete_sql s \<longleftrightarrow> s \<noteq> [] \<and> \<not> is_space (hd s) \<and> utils_find_statement_terminator s 0 = Some (length s - 1)"

lemma complete_form:
  assumes "complete_sql s"
  shows "\<exists>p. s = p @ '';'' \<and> even (quotes p) \<and> (\<forall>q t. p = q @ CHR '';'' # t \<longrightarrow> odd (quotes q))"
proof -
  obtain p r where p: "s = p @ CHR '';'' # r" "length s - 1 = length p" "even (quotes p)"
    "\<forall>q t. p = q @ CHR '';'' # t \<longrightarrow> odd (quotes q)"
  proof -
    have "utils_find_statement_terminator s 0 = Some (length s - 1)" using assms by (simp add: complete_sql_def)
    then show thesis using that unfolding find_terminator_iff by (metis add_0 drop0)
  qed
  then have "r = []" by simp
  then show ?thesis using p by blast
qed

lemma complete_in_text:
  assumes "complete_sql s"
  shows "utils_find_statement_terminator (pre @ s @ post) (length pre) = Some (length pre + length s - 1)"
proof -
  obtain p where p: "s = p @ '';''" "even (quotes p)" "\<forall>q t. p = q @ CHR '';'' # t \<longrightarrow> odd (quotes q)"
    using complete_form [OF assms] by blast
  then have "drop (length pre) (pre @ s @ post) = p @ CHR '';'' # post" by simp
  then show ?thesis using p unfolding find_terminator_iff by (intro exI [of _ p] exI [of _ post]) auto
qed

lemma skip_spaces_text:
  "list_all is_space w \<Longrightarrow> rest = [] \<or> \<not> is_space (hd rest) \<Longrightarrow>
   main_skip_whitespace (pre @ w @ rest) (length pre) = length pre + length w"
proof (induction w arbitrary: pre)
  case Nil
  then show ?case by (cases rest) (simp_all add: main_skip_whitespace.simps nth_append)
next
  case (Cons c w)
  have "main_skip_whitespace (pre @ (c # w) @ rest) (length pre) = main_skip_whitespace ((pre @ [c]) @ w @ rest) (length (pre @ [c]))"
    using Cons.prems(1) by (subst main_skip_whitespace.simps) (simp add: nth_append)
  then show ?case using Cons.IH [of "pre @ [c]"] Cons.prems by simp
qed

lemma file_loop_runs:
  assumes "list_all (\<lambda>(w, s). list_all is_space w \<and> complete_sql s) parts" "list_all is_space tail"
    "run_each en (map snd parts) = Some (en', outs)"
  shows "file_loop en (pre @ concat (map (\<lambda>(w, s). w @ s) parts) @ tail) (length pre) printed =
     Some (en', print_both printed (console_text outs))"
  using assms
proof (induction parts arbitrary: pre en printed outs)
  case Nil
  have "main_skip_whitespace (pre @ tail) (length pre) = length pre + length tail"
    using skip_spaces_text [of tail "[]" pre] Nil(2) by simp
  then show ?case using Nil by (subst file_loop.simps) (auto simp: Let_def print_both_def console_text_def)
next
  case (Cons part parts)
  obtain w s where ws: "part = (w, s)" "list_all is_space w" "complete_sql s" using Cons.prems(1) by (cases part) auto
  obtain en1 out st outs1 where r: "main_process_sql_statement en s = Some (en1, out, st)"
    "run_each en1 (map snd parts) = Some (en', outs1)" "outs = out # outs1"
    using Cons.prems(3) ws(1) by (auto split: bind_splits)
  let ?rest = "concat (map (\<lambda>(w, s). w @ s) parts) @ tail" and ?c = "pre @ (w @ s) @ concat (map (\<lambda>(w, s). w @ s) parts) @ tail"
  have s: "s \<noteq> []" "\<not> is_space (hd s)" using ws(3) by (auto simp: complete_sql_def)
  have skip: "main_skip_whitespace ?c (length pre) = length pre + length w"
    using skip_spaces_text [OF ws(2), of "s @ ?rest" pre] s by simp
  have ends: "utils_find_statement_terminator ?c (length pre + length w) = Some (length pre + length w + length s - 1)"
    using complete_in_text [OF ws(3), of "pre @ w" ?rest] by simp
  have sub: "utils_substring ?c (length pre + length w) (length pre + length w + length s - 1 - (length pre + length w) + 1) = Some s"
    using s(1) by (cases s) (simp_all add: utils_substring_def)
  have next_start: "length pre + length w + length s - 1 + 1 = length (pre @ w @ s)" using s(1) by (cases s) simp_all
  have "file_loop en ?c (length pre) printed = file_loop en1 ?c (length (pre @ w @ s)) (print_both printed out)"
    unfolding next_start [symmetric] using s(1) skip ends sub r(1) by (subst file_loop.simps) simp
  also have "\<dots> = Some (en', print_both (print_both printed out) (console_text outs1))"
    using Cons.IH [of en1 outs1 "pre @ w @ s"] Cons.prems(1,2) r(2) by simp
  also have "print_both (print_both printed out) (console_text outs1) = print_both printed (console_text outs)"
    by (simp add: r(3) print_both_def console_text_def)
  finally show ?case using ws(1) by simp
qed

section \<open>Interactive mode\<close>

text \<open>A statement typed on a line of its own.\<close>

definition one_line :: "string \<Rightarrow> bool" where
  "one_line s \<longleftrightarrow> complete_sql s \<and> NL \<notin> set s \<and> NUL \<notin> set s \<and> length s + 2 \<le> MAX_SQL_LENGTH"

lemma fgets_first_line:
  assumes "NL \<notin> set s" "length s + 2 \<le> n"
  shows "fgets n (s @ NL # rest) = Some (s @ [NL], rest, False)"
proof -
  have "length s < k \<Longrightarrow> fgets_loop k (s @ NL # rest) = (s @ [NL], rest, False)" for k
    using assms(1)
  proof (induction s arbitrary: k)
    case Nil
    then show ?case by (cases k) auto
  next
    case (Cons c s)
    then show ?case by (cases k) auto
  qed
  then show ?thesis using assms(2) by (simp add: fgets_def)
qed

lemma trim_line: "complete_sql s \<Longrightarrow> utils_trim (s @ [NL]) = s"
proof -
  assume c: "complete_sql s"
  obtain p where "s = p @ '';''" using complete_form [OF c] by blast
  then have "utils_trim s = s" using c by (intro trim_fixed) (auto simp: complete_sql_def is_space_def)
  then show ?thesis by (simp add: utils_trim_eq is_space_def)
qed

lemma not_exit:
  assumes "complete_sql s"
  shows "\<not> main_trimmed_equals (s @ [NL]) ''exit''" "\<not> main_trimmed_equals (s @ [NL]) ''quit''"
proof -
  have "CHR '';'' \<in> set s" using complete_form [OF assms] by auto
  moreover have "\<not> is_alpha (CHR '';'')" by (simp add: is_alpha_def is_upper_def is_lower_def)
  ultimately show "\<not> main_trimmed_equals (s @ [NL]) ''exit''" "\<not> main_trimmed_equals (s @ [NL]) ''quit''"
    using equals_ignore_plain [of s _ "CHR '';''"] by (fastforce simp: main_trimmed_equals_def trim_line [OF assms])+
qed

lemma repl_one_line:
  assumes "one_line s" "main_process_sql_statement en s = Some (en', out, st)"
  shows "\<exists>b. utils_append_buffer (None, 0) (s @ [NL]) = Some b \<and>
     repl_statements en b printed = Some (en', (None, 0), print_both printed out)"
proof -
  have c: "complete_sql s" using assms(1) by (simp add: one_line_def)
  obtain b where b: "utils_append_buffer (None, 0) (s @ [NL]) = Some b" "buffer_text b = s @ [NL]" "fst b \<noteq> None"
    using append_buffer_ok [of "(None, 0)" "s @ [NL]"] by (auto simp: buffer_ok_def buffer_text_def)
  then have fb: "fst b = Some (s @ [NL])" by (auto simp: buffer_text_def)
  have t: "utils_find_statement_terminator (s @ [NL]) 0 = Some (length s - 1)"
    using complete_in_text [OF c, of "[]" "[NL]"] by simp
  have ne: "length s - 1 + 1 = length s" using c by (cases s) (auto simp: complete_sql_def)
  have "main_replace_buffer_with_remainder b (length s - 1) = Some (Some [], 1)"
    unfolding main_replace_buffer_with_remainder_def fb ne by (simp add: utils_trim_eq is_space_def)
  then have "repl_statements en b printed = Some (en', (None, 0), print_both printed out)"
    using assms(2) ne by (subst repl_statements.simps) (simp add: fb t utils_substring_def buffer_text_def)
  then show ?thesis using b(1) by blast
qed

text \<open>What the loop prints: a prompt before each line.\<close>

definition prompted_text :: "console list \<Rightarrow> console" where
  "prompted_text outs = (concat (map (\<lambda>out. ''SQL> '' @ fst out) outs) @ ''SQL> '', concat (map snd outs))"

lemma repl_loop_runs:
  assumes "list_all one_line ss" "run_each en ss = Some (en', outs)"
  shows "repl_loop en (None, 0) printed (concat (map (\<lambda>s. s @ [NL]) ss)) = Some (en', print_both printed (prompted_text outs))"
  using assms
proof (induction ss arbitrary: en printed outs)
  case Nil
  then show ?case
    by (subst repl_loop.simps)
      (simp add: fgets_def MAX_SQL_LENGTH_def fgets_loop_code buffer_text_def print_out_def print_both_def prompted_text_def)
next
  case (Cons s ss)
  obtain en1 out st outs1 where r: "main_process_sql_statement en s = Some (en1, out, st)"
    "run_each en1 ss = Some (en', outs1)" "outs = out # outs1" using Cons.prems(2) by (auto split: bind_splits)
  have s: "one_line s" "complete_sql s" using Cons.prems(1) by (auto simp: one_line_def)
  let ?p = "print_out ''SQL> '' printed" and ?rest = "concat (map (\<lambda>s. s @ [NL]) ss)"
  obtain b where b: "utils_append_buffer (None, 0) (s @ [NL]) = Some b"
    "repl_statements en b ?p = Some (en1, (None, 0), print_both ?p out)" using repl_one_line [OF s(1) r(1)] by blast
  have "fgets MAX_SQL_LENGTH (s @ NL # ?rest) = Some (s @ [NL], ?rest, False)"
    using s(1) by (intro fgets_first_line) (auto simp: one_line_def)
  moreover have "c_string (s @ [NL]) = s @ [NL]" using s(1) by (auto simp: c_string_def one_line_def takeWhile_eq_all_conv)
  ultimately have "repl_loop en (None, 0) printed (s @ NL # ?rest) = repl_loop en1 (None, 0) (print_both ?p out) ?rest"
    using not_exit [OF s(2)] b by (subst repl_loop.simps) (simp add: buffer_text_def)
  also have "\<dots> = Some (en', print_both (print_both ?p out) (prompted_text outs1))"
    using Cons.IH [of en1 outs1] Cons.prems(1) r(2) by simp
  also have "print_both (print_both ?p out) (prompted_text outs1) = print_both printed (prompted_text outs)"
    by (simp add: r(3) print_both_def print_out_def prompted_text_def)
  finally show ?case by simp
qed

section \<open>Properties\<close>

text \<open>
  C27: running a file and typing its lines do the same.  For statements that each end with their
  semicolon on a line of their own, both modes execute exactly these statements in order, end in
  the same engine state and print the same results; the interactive mode adds its prompts and its
  farewell.
\<close>

theorem file_and_interactive_mode_agree:
  assumes "ready en" "list_all one_line ss" "files (en_files en) path = Some (concat (map (\<lambda>s. s @ [NL]) ss))"
  shows "\<exists>en' outs. run_each en ss = Some (en', outs) \<and>
     main_run_file_mode en path = Some (en', console_text outs, SUCCESS) \<and>
     main_run_repl_mode en (concat (map (\<lambda>s. s @ [NL]) ss)) =
       Some (en', print_out (''Bye.'' @ [NL]) (prompted_text outs), SUCCESS)"
proof -
  obtain en' outs where r: "run_each en ss = Some (en', outs)" using run_each_total [OF assms(1)] by blast
  let ?text = "concat (map (\<lambda>s. s @ [NL]) ss)"
  have plain: "c_string ?text = ?text"
    using assms(2) by (auto simp: c_string_def one_line_def list_all_iff takeWhile_eq_all_conv)
  have complete: "list_all complete_sql ss" using assms(2) by (auto simp: one_line_def list_all_iff)
  have "file_loop en ?text 0 ([], []) = Some (en', console_text outs)"
  proof (cases ss)
    case Nil
    then show ?thesis using r by (subst file_loop.simps) (simp add: console_text_def)
  next
    case (Cons s0 ss0)
    let ?parts = "([], s0) # map (Pair [NL]) ss0"
    have shape: "?text = [] @ concat (map (\<lambda>(w, s). w @ s) ?parts) @ [NL]"
      unfolding Cons by (induction ss0 arbitrary: s0) auto
    have "list_all (\<lambda>(w, s). list_all is_space w \<and> complete_sql s) ?parts"
      using complete unfolding Cons by (auto simp: list_all_iff is_space_def)
    moreover have "map snd ?parts = ss" by (simp add: Cons comp_def)
    ultimately have "file_loop en ([] @ concat (map (\<lambda>(w, s). w @ s) ?parts) @ [NL]) (length ([] :: string)) ([], []) =
        Some (en', print_both ([], []) (console_text outs))"
      using r by (intro file_loop_runs) (simp_all add: is_space_def)
    then show ?thesis unfolding shape by (simp add: print_both_def)
  qed
  moreover have "repl_loop en (None, 0) ([], []) ?text = Some (en', prompted_text outs)"
    using repl_loop_runs [OF assms(2) r, of "([], [])"] by (simp add: print_both_def)
  ultimately show ?thesis using r assms(3) plain
    by (simp add: main_run_file_mode_def main_run_repl_mode_def utils_read_file_def)
qed

definition sample_script :: "string list" where
  "sample_script = [''INSERT INTO t (a) VALUES (1);'', ''SELECT * FROM t;'']"

definition script_engine :: db_engine where
  "script_engine = fresh_engine (empty_fs\<lparr>files := [''s.sql'' \<mapsto> concat (map (\<lambda>s. s @ [NL]) sample_script)]\<rparr>)"

theorem file_and_interactive_mode_agree_witness:
  "\<exists>en' outs. run_each script_engine sample_script = Some (en', outs) \<and>
     main_run_file_mode script_engine ''s.sql'' = Some (en', console_text outs, SUCCESS) \<and>
     main_run_repl_mode script_engine (concat (map (\<lambda>s. s @ [NL]) sample_script)) =
       Some (en', print_out (''Bye.'' @ [NL]) (prompted_text outs), SUCCESS)"
proof (rule file_and_interactive_mode_agree)
  show "ready script_engine"
    using fresh_engine_safe by (simp add: ready_def script_engine_def) (simp add: fresh_engine_def)
  show "list_all one_line sample_script" by code_simp
  show "files (en_files script_engine) ''s.sql'' = Some (concat (map (\<lambda>s. s @ [NL]) sample_script))"
    by (simp add: script_engine_def fresh_engine_def)
qed

text \<open>
  A literal that continues on the next line loses its trailing blanks and its line break if
  another statement precedes it on the line: the rest of the buffer is trimmed although it
  ends inside quotes.
\<close>

lemma remainder_trims_open_literal:
  "main_replace_buffer_with_remainder
     (Some (''DELETE FROM t;INSERT INTO t (a) VALUES ('' @ [QUOTE] @ ''x '' @ [NL]), 99) 13 =
   Some (Some (''INSERT INTO t (a) VALUES ('' @ [QUOTE] @ ''x''), 29)"
  by code_simp

end
