(* ===== verification/Benchmark.thy ===== *)
theory Benchmark
  imports Runtime_Insert
begin

unbundle bit_operations_syntax

text \<open>
  The benchmark mode \<^verbatim>\<open>src/db/benchmark.c\<close>: rows are inserted through the table runtime and
  into a plain row store, then ids are looked up through the B+ tree and by a linear scan,
  and every row found is checked.  The measured times and their printing are left out;
  everything the report depends on otherwise is here.  The outer \<open>None\<close> of a result is an
  access outside an array or of memory that was not written; row memory is plain data, as
  in the table runtime, while the two \<^verbatim>\<open>malloc\<close> calls for the id arrays may fail.
\<close>

section \<open>Configuration\<close>

record benchmark_config =
  bc_row_count :: int
  bc_query_count :: int

datatype benchmark_lookup_case = BENCHMARK_LOOKUP_AVERAGE | BENCHMARK_LOOKUP_WORST | BENCHMARK_LOOKUP_RANDOM

record benchmark_lookup_result =
  lr_label :: string
  lr_query_count :: int

definition benchmark_default_config :: benchmark_config where
  "benchmark_default_config = \<lparr>bc_row_count = 1000000, bc_query_count = 1000\<rparr>"

section \<open>The plain row store\<close>

record benchmark_row_store =
  bs_rows :: "string list list"
  bs_capacity :: nat

definition benchmark_plain_store_free :: "benchmark_row_store \<Rightarrow> benchmark_row_store" where
  "benchmark_plain_store_free store = \<lparr>bs_rows = [], bs_capacity = 0\<rparr>"

definition benchmark_plain_store_reserve :: "benchmark_row_store \<Rightarrow> benchmark_row_store" where
  "benchmark_plain_store_reserve store =
     (if length (bs_rows store) < bs_capacity store then store
      else store\<lparr>bs_capacity := (if bs_capacity store = 0 then INITIAL_ROW_CAPACITY else bs_capacity store * 2)\<rparr>)"

text \<open>The row is written behind the last one, which has to be inside the reserved memory.\<close>

definition benchmark_plain_store_append :: "benchmark_row_store \<Rightarrow> int \<Rightarrow> string \<Rightarrow> string \<Rightarrow> benchmark_row_store option" where
  "benchmark_plain_store_append store new_id name age =
     (let store' = benchmark_plain_store_reserve store;
          row = [snprintf MAX_VALUE_LEN (show_int new_id), name, age] in
      if length (bs_rows store') < bs_capacity store'
      then Some (store'\<lparr>bs_rows := bs_rows store' @ [row]\<rparr>) else None)"

section \<open>Generated rows\<close>

definition benchmark_build_values :: "nat \<Rightarrow> nat \<Rightarrow> nat \<Rightarrow> string \<times> string" where
  "benchmark_build_values index name_size age_size =
     (snprintf name_size (''user_'' @ show_int (int index + 1)), snprintf age_size (show_int (20 + int index mod 50)))"

definition benchmark_prepare_insert_stmt :: insert_statement where
  "benchmark_prepare_insert_stmt =
     \<lparr>ins_table = snprintf MAX_IDENTIFIER_LEN ''benchmark_users'',
      ins_columns = [snprintf MAX_IDENTIFIER_LEN ''name'', snprintf MAX_IDENTIFIER_LEN ''age''], ins_values = [[], []]\<rparr>"

section \<open>Inserting\<close>

text \<open>The conversion of a \<^verbatim>\<open>long long\<close> to \<^verbatim>\<open>int\<close>.\<close>

definition int_of_long_long :: "int \<Rightarrow> int" where
  "int_of_long_long i = signed_take_bit 31 i"

text \<open>The loop of the measured insertions: \<open>n\<close> rows are left, the ids so far are collected.\<close>

fun indexed_insert_loop ::
  "insert_statement \<Rightarrow> nat \<Rightarrow> nat \<Rightarrow> file_system \<Rightarrow> bp_heap \<Rightarrow> table_runtime \<Rightarrow> int list \<Rightarrow>
   (file_system \<times> bp_heap \<times> table_runtime \<times> int list option) option" where
  "indexed_insert_loop stmt i 0 fs h t ids = Some (fs, h, t, Some ids)"
| "indexed_insert_loop stmt i (Suc n) fs h t ids =
     (case benchmark_build_values i MAX_VALUE_LEN MAX_VALUE_LEN of (name, age) \<Rightarrow>
      do {
        let stmt' = stmt\<lparr>ins_values := [snprintf MAX_VALUE_LEN name, snprintf MAX_VALUE_LEN age]\<rparr>;
        (fs', h', t', inserted) \<leftarrow> table_insert_row fs h t stmt';
        case inserted of
          Inl e \<Rightarrow> do { (h'', t'') \<leftarrow> table_free h' t'; Some (fs', h'', t'', None) }
        | Inr row_index \<Rightarrow>
            (case table_get_row_by_slot t' (int row_index) of
               None \<Rightarrow> do { (h'', t'') \<leftarrow> table_free h' t'; Some (fs', h'', t'', None) }
             | Some row \<Rightarrow> do {
                 id_text \<leftarrow> aget row 0;
                 if \<not> utils_is_integer id_text
                 then do { (h'', t'') \<leftarrow> table_free h' t'; Some (fs', h'', t'', None) }
                 else indexed_insert_loop stmt (Suc i) n fs' h' t' (ids @ [int_of_long_long (utils_parse_integer id_text)])
               })
      })"

text \<open>The ids of the inserted rows; the inner \<open>None\<close> is \<^verbatim>\<open>FAILURE\<close>.\<close>

definition benchmark_measure_indexed_insert ::
  "bool \<Rightarrow> benchmark_config \<Rightarrow> file_system \<Rightarrow> bp_heap \<Rightarrow> (file_system \<times> bp_heap \<times> table_runtime \<times> int list option) option" where
  "benchmark_measure_indexed_insert malloc_ok config fs h =
     (if \<not> malloc_ok then Some (fs, h, table_init, None)
      else indexed_insert_loop benchmark_prepare_insert_stmt 0 (nat (bc_row_count config)) fs h table_init [])"

fun plain_insert_loop :: "nat \<Rightarrow> nat \<Rightarrow> benchmark_row_store \<Rightarrow> benchmark_row_store option" where
  "plain_insert_loop i 0 store = Some store"
| "plain_insert_loop i (Suc n) store =
     (case benchmark_build_values i MAX_VALUE_LEN MAX_VALUE_LEN of (name, age) \<Rightarrow>
      do {
        store' \<leftarrow> benchmark_plain_store_append store (int i + 1) name age;
        plain_insert_loop (Suc i) n store'
      })"

definition benchmark_measure_plain_insert :: "benchmark_config \<Rightarrow> (benchmark_row_store \<times> status) option" where
  "benchmark_measure_plain_insert config = do {
     store \<leftarrow> plain_insert_loop 0 (nat (bc_row_count config)) \<lparr>bs_rows = [], bs_capacity = 0\<rparr>;
     Some (benchmark_plain_store_free store, SUCCESS)
   }"

section \<open>Lookup keys\<close>

definition benchmark_pick_lookup_index :: "benchmark_config \<Rightarrow> int \<Rightarrow> int" where
  "benchmark_pick_lookup_index config query_index =
     (if bc_row_count config \<le> 0 \<or> bc_query_count config \<le> 0 then 0
      else let scaled_index = (query_index * bc_row_count config) div bc_query_count config in
      if bc_row_count config \<le> scaled_index then bc_row_count config - 1 else scaled_index)"

text \<open>The index of the inserted id a query uses, with the state of the random number generator.\<close>

definition lookup_index :: "benchmark_config \<Rightarrow> benchmark_lookup_case \<Rightarrow> 32 word \<Rightarrow> nat \<Rightarrow> 32 word \<times> int" where
  "lookup_index config lookup_case random_state i = (case lookup_case of
     BENCHMARK_LOOKUP_AVERAGE \<Rightarrow> (random_state, benchmark_pick_lookup_index config (int i))
   | BENCHMARK_LOOKUP_WORST \<Rightarrow> (random_state, bc_row_count config - 1)
   | BENCHMARK_LOOKUP_RANDOM \<Rightarrow>
       (let random_state' = random_state * 1103515245 + 12345 in
        (random_state', sint (random_state' mod of_int (bc_row_count config)))))"

text \<open>An array of memory from \<^verbatim>\<open>malloc\<close>: \<open>None\<close> is an element not written yet.\<close>

fun lookup_keys_loop ::
  "benchmark_config \<Rightarrow> int list \<Rightarrow> benchmark_lookup_case \<Rightarrow> 32 word \<Rightarrow> nat \<Rightarrow> nat \<Rightarrow> int option list \<Rightarrow> int option list option" where
  "lookup_keys_loop config ids lookup_case random_state i 0 lookup_keys = Some lookup_keys"
| "lookup_keys_loop config ids lookup_case random_state i (Suc n) lookup_keys =
     (case lookup_index config lookup_case random_state i of (random_state', j) \<Rightarrow>
      if j < 0 then None
      else do {
        key \<leftarrow> aget ids (nat j);
        lookup_keys' \<leftarrow> aset lookup_keys i (Some key);
        lookup_keys_loop config ids lookup_case random_state' (Suc i) n lookup_keys'
      })"

definition benchmark_build_lookup_keys ::
  "benchmark_config \<Rightarrow> int list \<Rightarrow> benchmark_lookup_case \<Rightarrow> int \<Rightarrow> int option list \<Rightarrow> (int option list \<times> status) option" where
  "benchmark_build_lookup_keys config ids lookup_case query_count lookup_keys =
     (if bc_row_count config \<le> 0 \<or> query_count \<le> 0 then Some (lookup_keys, FAILURE)
      else map_option (\<lambda>lookup_keys'. (lookup_keys', SUCCESS)) (lookup_keys_loop config ids lookup_case 0x00C0FFEE 0 (nat query_count) lookup_keys))"

definition benchmark_query_count_for_case :: "benchmark_config \<Rightarrow> benchmark_lookup_case \<Rightarrow> int" where
  "benchmark_query_count_for_case config lookup_case =
     (if bc_query_count config \<le> 0 then 0
      else if lookup_case = BENCHMARK_LOOKUP_WORST then 1 else bc_query_count config)"

section \<open>Looking up\<close>

definition benchmark_validate_lookup_row :: "table_runtime \<Rightarrow> int \<Rightarrow> int \<Rightarrow> status option" where
  "benchmark_validate_lookup_row t row_index expected_id =
     (case table_get_row_by_slot t row_index of
        None \<Rightarrow> Some FAILURE
      | Some row \<Rightarrow> do {
          id_text \<leftarrow> aget row 0;
          Some (if utils_is_integer id_text \<and> utils_parse_integer id_text = expected_id then SUCCESS else FAILURE)
        })"

fun linear_loop :: "nat \<Rightarrow> string list list \<Rightarrow> int \<Rightarrow> int option option" where
  "linear_loop i [] target_id = Some None"
| "linear_loop i (row # rows) target_id = do {
     id_text \<leftarrow> aget row 0;
     if utils_is_integer id_text \<and> utils_parse_integer id_text = target_id then Some (Some (int i))
     else linear_loop (Suc i) rows target_id
   }"

definition benchmark_find_row_index_by_id_linear :: "table_runtime \<Rightarrow> int \<Rightarrow> int option option" where
  "benchmark_find_row_index_by_id_linear t target_id = linear_loop 0 (tr_rows t) target_id"

text \<open>The loop both lookup measurements do, over the way a row is found.\<close>

fun lookup_loop :: "(int \<Rightarrow> int option option) \<Rightarrow> table_runtime \<Rightarrow> int option list \<Rightarrow> nat \<Rightarrow> nat \<Rightarrow> status option" where
  "lookup_loop find_row t lookup_keys i 0 = Some SUCCESS"
| "lookup_loop find_row t lookup_keys i (Suc n) = do {
     k \<leftarrow> aget lookup_keys i;
     key \<leftarrow> k;
     found \<leftarrow> find_row key;
     case found of
       None \<Rightarrow> Some FAILURE
     | Some row_index \<Rightarrow> do {
         st \<leftarrow> benchmark_validate_lookup_row t row_index key;
         if st \<noteq> SUCCESS then Some FAILURE else lookup_loop find_row t lookup_keys (Suc i) n
       }
   }"

definition benchmark_measure_id_lookup ::
  "bp_heap \<Rightarrow> table_runtime \<Rightarrow> addr option \<Rightarrow> int option list \<Rightarrow> int \<Rightarrow> status option" where
  "benchmark_measure_id_lookup h t id_index_root lookup_keys query_count =
     (if id_index_root = None then Some FAILURE
      else lookup_loop (bptree_search h id_index_root) t lookup_keys 0 (nat query_count))"

definition benchmark_measure_id_linear_scan :: "table_runtime \<Rightarrow> int option list \<Rightarrow> int \<Rightarrow> status option" where
  "benchmark_measure_id_linear_scan t lookup_keys query_count =
     lookup_loop (benchmark_find_row_index_by_id_linear t) t lookup_keys 0 (nat query_count)"

section \<open>The whole run\<close>

definition case_label :: "benchmark_lookup_case \<Rightarrow> string" where
  "case_label c = (case c of BENCHMARK_LOOKUP_AVERAGE \<Rightarrow> ''average-case'' | BENCHMARK_LOOKUP_WORST \<Rightarrow> ''worst-case''
     | BENCHMARK_LOOKUP_RANDOM \<Rightarrow> ''random-case'')"

text \<open>The loop over the lookup cases; the inner \<open>None\<close> is \<^verbatim>\<open>FAILURE\<close>.\<close>

fun lookup_cases_loop ::
  "benchmark_config \<Rightarrow> bp_heap \<Rightarrow> table_runtime \<Rightarrow> int list \<Rightarrow> int option list \<Rightarrow> benchmark_lookup_case list \<Rightarrow>
   benchmark_lookup_result list option option" where
  "lookup_cases_loop config h t ids lookup_keys [] = Some (Some [])"
| "lookup_cases_loop config h t ids lookup_keys (c # cs) = do {
     let query_count = benchmark_query_count_for_case config c;
     (lookup_keys', built) \<leftarrow> benchmark_build_lookup_keys config ids c query_count lookup_keys;
     if built \<noteq> SUCCESS then Some None
     else do {
       searched \<leftarrow> benchmark_measure_id_lookup h t (tr_root t) lookup_keys' query_count;
       if searched \<noteq> SUCCESS then Some None
       else do {
         scanned \<leftarrow> benchmark_measure_id_linear_scan t lookup_keys' query_count;
         if scanned \<noteq> SUCCESS then Some None
         else map_option (map_option (Cons \<lparr>lr_label = case_label c, lr_query_count = query_count\<rparr>))
           (lookup_cases_loop config h t ids lookup_keys' cs)
       }
     }
   }"

text \<open>What the run leaves behind, and the lookup results it reports; the inner \<open>None\<close> is \<^verbatim>\<open>FAILURE\<close>.\<close>

definition benchmark_run ::
  "bool \<times> bool \<Rightarrow> benchmark_config option \<Rightarrow> file_system \<Rightarrow> bp_heap \<Rightarrow>
   (file_system \<times> bp_heap \<times> benchmark_lookup_result list option) option" where
  "benchmark_run mallocs config fs h =
     (let active_config = (case config of None \<Rightarrow> benchmark_default_config | Some c \<Rightarrow> c) in
      if bc_row_count active_config \<le> 0 \<or> bc_query_count active_config \<le> 0 then Some (fs, h, None)
      else do {
        (fs', h', t, inserted) \<leftarrow> benchmark_measure_indexed_insert (fst mallocs) active_config fs h;
        case inserted of
          None \<Rightarrow> Some (fs', h', None)
        | Some ids \<Rightarrow>
            if \<not> snd mallocs then do { (h'', _) \<leftarrow> table_free h' t; Some (fs', h'', None) }
            else do {
              (_, plain) \<leftarrow> benchmark_measure_plain_insert active_config;
              results \<leftarrow> (if plain \<noteq> SUCCESS then Some None
                else lookup_cases_loop active_config h' t ids (replicate (nat (bc_query_count active_config)) None)
                  [BENCHMARK_LOOKUP_AVERAGE, BENCHMARK_LOOKUP_WORST, BENCHMARK_LOOKUP_RANDOM]);
              (h'', _) \<leftarrow> table_free h' t;
              Some (fs', h'', results)
            }
      })"

end
