(* ===== verification/Benchmark_Correct.thy ===== *)
theory Benchmark_Correct
  imports Benchmark
begin

text \<open>
  The benchmark succeeds on every data directory the program wrote: all rows are inserted
  with consecutive ids, every key of the three lookup cases is found by the tree and by the
  scan and passes the check, no array access leaves its array, and all nodes are released.
  Contrary to its description it also writes: the rows stay in the table file.
\<close>

section \<open>Generated rows\<close>

abbreviation bench_name :: string where "bench_name \<equiv> ''benchmark_users''"

definition bench_columns :: "string list" where
  "bench_columns = [''id'', ''name'', ''age'']"

definition bench_values :: "nat \<Rightarrow> string list" where
  "bench_values i = [''user_'' @ show_int (int i + 1), show_int (20 + int i mod 50)]"

definition bench_row :: "int \<Rightarrow> nat \<Rightarrow> string list" where
  "bench_row k i = show_int k # bench_values i"

definition bench_rows :: "int \<Rightarrow> nat \<Rightarrow> nat \<Rightarrow> string list list" where
  "bench_rows k i n = map (\<lambda>j. bench_row (k + int j) (i + j)) [0..<n]"

definition bench_stmt :: "nat \<Rightarrow> insert_statement" where
  "bench_stmt i = \<lparr>ins_table = bench_name, ins_columns = [''name'', ''age''], ins_values = bench_values i\<rparr>"

lemma stmt_table [simp]: "ins_table (bench_stmt i) = bench_name"
  by (simp add: bench_stmt_def)

lemma bench_rows_simps [simp]:
  "bench_rows k i 0 = []" "bench_rows k i (Suc n) = bench_row k i # bench_rows (k + 1) (Suc i) n"
  by (simp_all add: bench_rows_def upt_conv_Cons map_Suc_upt [symmetric] comp_def add.assoc add.commute [of 1] del: upt_Suc)

lemma show_int_length: "0 \<le> k \<Longrightarrow> k < 10 ^ 10 \<Longrightarrow> length (show_int k) \<le> 10"
  using show_nat_length [of "nat k" 10] by (simp add: show_int_def nat_less_iff)

lemma values_eq:
  assumes "i < 2 ^ 31"
  shows "benchmark_build_values i MAX_VALUE_LEN MAX_VALUE_LEN = (bench_values i ! 0, bench_values i ! 1)"
    "snprintf MAX_VALUE_LEN (bench_values i ! 0) = bench_values i ! 0"
    "snprintf MAX_VALUE_LEN (bench_values i ! 1) = bench_values i ! 1"
proof -
  have n: "length (''user_'' @ show_int (int i + 1)) < MAX_VALUE_LEN"
    using show_int_length [of "int i + 1"] assms by (simp add: MAX_VALUE_LEN_def)
  have a: "length (show_int (20 + int i mod 50)) < MAX_VALUE_LEN"
    using show_int_length [of "20 + int i mod 50"] by (simp add: MAX_VALUE_LEN_def) linarith
  show "snprintf MAX_VALUE_LEN (bench_values i ! 0) = bench_values i ! 0"
    "snprintf MAX_VALUE_LEN (bench_values i ! 1) = bench_values i ! 1"
    using snprintf_fits [OF n] snprintf_fits [OF a] by (simp_all add: bench_values_def)
  then show "benchmark_build_values i MAX_VALUE_LEN MAX_VALUE_LEN = (bench_values i ! 0, bench_values i ! 1)"
    by (simp add: benchmark_build_values_def bench_values_def)
qed

lemma prepare_eq: "benchmark_prepare_insert_stmt = (bench_stmt i)\<lparr>ins_values := [[], []]\<rparr>"
  by (simp add: benchmark_prepare_insert_stmt_def bench_stmt_def snprintf_def MAX_IDENTIFIER_LEN_def)

lemma stmt_storable:
  assumes "i < 2 ^ 31"
  shows "storable (bench_stmt i)"
proof -
  have "line_safe (''user_'' @ show_int (int i + 1))" "line_safe (show_int (20 + int i mod 50))"
    using show_int_plain(1) [of "int i + 1"] show_int_plain(1) [of "20 + int i mod 50"] by (auto simp: line_safe_def)
  moreover have "20 + int i mod 50 < 10 ^ 10" using pos_mod_bound [of 50 "int i"] by simp
  then have "length (show_int (20 + int i mod 50)) \<le> 10" by (intro show_int_length) simp_all
  ultimately show ?thesis using show_int_length [of "int i + 1"] assms
    by (simp add: storable_def bench_stmt_def bench_values_def wf_name_def wf_value_def MAX_VALUE_LEN_def
        MAX_IDENTIFIER_LEN_def distinct_names_def) (simp add: line_safe_def to_upper_def)
qed

section \<open>Insertion\<close>

text \<open>The table of the benchmark is loaded with given rows.\<close>

definition bench_ready :: "file_system \<Rightarrow> bp_heap \<Rightarrow> table_runtime \<Rightarrow> string list list \<Rightarrow> bool" where
  "bench_ready fs h t rows \<longleftrightarrow> db_inv fs h t \<and> tr_loaded t \<and> tr_name t = bench_name \<and> columns_of t = bench_columns \<and>
     tr_rows t = rows"

lemma ready_schema:
  assumes "bench_ready fs h t rows"
  shows "table_validate_insert_schema t (bench_stmt i)"
proof -
  have inv: "length (tr_columns t) = MAX_COLUMNS" "tr_col_count t \<le> MAX_COLUMNS" "columns_of t = bench_columns"
    using assms by (auto simp: bench_ready_def db_inv_def table_inv_def schema_ok_def)
  have "length (columns_of t) = tr_col_count t" using inv(1,2) by (simp add: columns_of_def)
  then have n: "tr_col_count t = 3" by (simp add: inv(3) bench_columns_def)
  have "tr_columns t ! j = bench_columns ! j" if "j < 3" for j
    using inv(3) that n by (metis columns_of_def nth_take)
  from this [of 1] this [of 2] show ?thesis
    by (simp add: table_validate_insert_schema_def bench_stmt_def n bench_columns_def equals_ignore_case_iff numeral_2_eq_2)
qed

lemma ready_store:
  assumes r: "bench_ready fs h t rows" and i: "i < 2 ^ 31" and nxt: "next_id_from 0 1 rows \<le> INT_MAX"
  shows "\<exists>fs' h' t'. table_store_row fs h t (bench_stmt i) = Some (fs', h', t', Inr (length rows)) \<and>
     bench_ready fs' h' t' (rows @ [bench_row (next_id_from 0 1 rows) i]) \<and>
     (\<forall>name. name \<noteq> bench_name \<longrightarrow> abs_db fs' name = abs_db fs name)"
proof -
  have d: "db_inv fs h t" "tr_loaded t" "tr_name t = bench_name" "columns_of t = bench_columns" "tr_rows t = rows"
    using r by (auto simp: bench_ready_def)
  have id: "tr_next_id t = next_id_from 0 1 rows" using d next_id_unloaded [of h t] by (simp add: db_inv_def)
  have at: "abs_db fs bench_name = Some (bench_columns, rows)"
    using d abs_db_at [of fs bench_name bench_columns rows] by (simp add: db_inv_def coherent_def)
  obtain fs' h' t' n where s: "table_store_row fs h t (bench_stmt i) = Some (fs', h', t', Inr n)" "db_inv fs' h' t'" "tr_loaded t'"
    "same_schema t t'" "row_added fs fs' t' (bench_stmt i) n"
    using insert_loaded_stored [OF d(1,2) stmt_storable [OF i] ready_schema [OF r, of i]] d(3) id nxt
    by (auto simp: bench_stmt_def equals_ignore_case_iff)
  have nm: "tr_name t' = bench_name" "columns_of t' = bench_columns" using s(4) d by (simp_all add: same_schema_def columns_of_def)
  then show ?thesis using s at by (auto simp: row_added_def bench_ready_def bench_row_def bench_stmt_def)
qed

text \<open>The first insertion loads the table of an earlier run, or creates it.\<close>

definition bench_stored :: "file_system \<Rightarrow> string list list \<Rightarrow> bool" where
  "bench_stored fs rows \<longleftrightarrow>
     (if storage_table_exists fs bench_name then abs_db fs bench_name = Some (bench_columns, rows) else rows = [])"

abbreviation named_table :: table_runtime where
  "named_table \<equiv> table_init\<lparr>tr_name := bench_name\<rparr>"

lemma named_db_inv: "stored_tables fs \<Longrightarrow> cells h = Map.empty \<Longrightarrow> bp_memory h \<Longrightarrow> db_inv fs h named_table"
  using init_inv [of h bench_name] by (simp add: db_inv_def coherent_def table_init_def MAX_IDENTIFIER_LEN_def)

lemma first_run:
  assumes "cells h = Map.empty"
  shows "table_insert_row fs h table_init (bench_stmt i) =
     (do { (h1, t1, res) \<leftarrow> table_load_from_storage_if_needed fs h named_table bench_name;
        case res of
          Inl e \<Rightarrow> Some (fs, h1, t1, Inl e)
        | Inr _ \<Rightarrow>
            (case (if tr_loaded t1
                   then (t1, if table_validate_insert_schema t1 (bench_stmt i) then Inr () else Inl Schema_mismatch)
                   else table_initialize_schema t1 (bench_stmt i)) of
               (t2, Inl e) \<Rightarrow> Some (fs, h1, t2, Inl e)
             | (t2, Inr _) \<Rightarrow> table_store_row fs h1 t2 (bench_stmt i))
      })"
proof -
  have "(if tr_name table_init = [] then table_set_active_name table_init bench_name else (table_init, SUCCESS)) =
      (named_table, SUCCESS)"
    by (simp add: table_set_active_name_def strcpy_fits MAX_IDENTIFIER_LEN_def table_init_def)
  then show ?thesis unfolding table_insert_row_def Let_def stmt_table by (simp add: equals_ignore_case_iff)
qed

lemma first_schema: "\<exists>t2. table_initialize_schema named_table (bench_stmt i) = (t2, Inr ())"
  by (simp add: table_initialize_schema_def bench_stmt_def table_init_def MAX_COLUMNS_def strcpy_fits
      MAX_IDENTIFIER_LEN_def to_upper_def equals_ignore_case_iff numeral_eq_Suc)

lemma first_insert:
  assumes st: "stored_tables fs" "cells h = Map.empty" "bp_memory h" and rows: "bench_stored fs rows"
    and i: "i < 2 ^ 31" and nxt: "next_id_from 0 1 rows \<le> INT_MAX"
  shows "\<exists>fs' h' t'. table_insert_row fs h table_init (bench_stmt i) = Some (fs', h', t', Inr (length rows)) \<and>
     bench_ready fs' h' t' (rows @ [bench_row (next_id_from 0 1 rows) i]) \<and>
     (\<forall>name. name \<noteq> bench_name \<longrightarrow> abs_db fs' name = abs_db fs name)"
proof (cases "storage_table_exists fs bench_name")
  case True
  obtain cols rs where at: "good_table cols rs" "table_at fs bench_name cols rs" using stored_table_exists [OF st(1) True] by blast
  have eq: "cols = bench_columns" "rs = rows" using abs_db_at [OF at(2)] rows True by (auto simp: bench_stored_def)
  obtain h1 t1 where l: "table_load_from_storage_if_needed fs h named_table bench_name = Some (h1, t1, Inr ())" "table_inv h1 t1"
    "tr_loaded t1" "tr_name t1 = bench_name" "columns_of t1 = cols" "tr_rows t1 = rs" "tr_id_column t1 = 0"
    using load_table_exact [OF init_inv [OF st(2,3), of bench_name] _ _ _ load_table_at [OF at(2)], of 0]
      good_table_id [OF at(1)] at(1)
    by (auto simp: good_table_def table_init_def MAX_IDENTIFIER_LEN_def equals_ignore_case_iff)
  have "bench_ready fs h1 t1 rows"
    using l eq at(2) st(1) by (simp add: bench_ready_def db_inv_def coherent_def MAX_IDENTIFIER_LEN_def)
  then show ?thesis using ready_store [OF _ i nxt] ready_schema [of fs h1 t1 rows i] first_run [OF st(2), of fs i] l(1,3)
    by fastforce
next
  case False
  have r: "rows = []" using rows False by (simp add: bench_stored_def)
  have l: "table_load_from_storage_if_needed fs h named_table bench_name = Some (h, named_table, Inr ())"
    using False by (simp add: table_load_from_storage_if_needed_def table_init_def equals_ignore_case_iff)
  obtain t2 where t2: "table_initialize_schema named_table (bench_stmt i) = (t2, Inr ())" using first_schema by blast
  have un: "\<not> tr_loaded named_table" by (simp add: table_init_def)
  have wf: "list_all wf_name (ins_columns (bench_stmt i))" by (simp add: bench_stmt_def wf_name_def MAX_IDENTIFIER_LEN_def)
  note c = initialize_schema_cases [OF init_inv [OF st(2,3)] un wf t2]
  obtain fs' h' t' n where s: "table_store_row fs h t2 (bench_stmt i) = Some (fs', h', t', Inr n)" "db_inv fs' h' t'" "tr_loaded t'"
    "same_schema t2 t'" "row_added fs fs' t' (bench_stmt i) n"
    using insert_fresh_stored [OF named_db_inv [OF st] un _ _ stmt_storable [OF i] _ t2] False
    by (auto simp: settled_def bench_stmt_def equals_ignore_case_iff)
  have "columns_of t' = columns_of t2" using s(4) by (simp add: same_schema_def columns_of_def)
  then have "tr_name t' = bench_name" "columns_of t' = bench_columns"
    using s(4) c by (simp_all add: same_schema_def bench_columns_def bench_stmt_def)
  then have "bench_ready fs' h' t' [bench_row (next_id_from 0 1 rows) i] \<and> n = 0 \<and>
      (\<forall>name. name \<noteq> bench_name \<longrightarrow> abs_db fs' name = abs_db fs name)"
    using s(2-5) abs_db_none [OF False]
    by (simp add: row_added_def bench_ready_def bench_row_def bench_stmt_def r next_id_from_def)
  then show ?thesis using s(1) first_run [OF st(2), of fs i] l un t2 r by simp
qed

lemma ready_insert:
  assumes r: "bench_ready fs h t rows" and i: "i < 2 ^ 31" and nxt: "next_id_from 0 1 rows \<le> INT_MAX"
  shows "\<exists>fs' h' t'. table_insert_row fs h t (bench_stmt i) = Some (fs', h', t', Inr (length rows)) \<and>
     bench_ready fs' h' t' (rows @ [bench_row (next_id_from 0 1 rows) i]) \<and>
     (\<forall>name. name \<noteq> bench_name \<longrightarrow> abs_db fs' name = abs_db fs name)"
proof -
  have "tr_loaded t" "tr_name t = bench_name" using r by (auto simp: bench_ready_def)
  then have "table_insert_row fs h t (bench_stmt i) = table_store_row fs h t (bench_stmt i)"
    using ready_schema [OF r, of i]
    by (simp add: table_insert_row_def table_load_from_storage_if_needed_def bench_stmt_def equals_ignore_case_iff)
  then show ?thesis using ready_store [OF assms] by simp
qed

lemma next_id_bench:
  assumes "0 \<le> k" "k \<le> INT_MAX" "k = next_id_from 0 1 rows"
  shows "next_id_from 0 1 (rows @ [bench_row k i]) = k + 1"
  using assms parse_show_int [of k] by (simp add: next_id_snoc bench_row_def INT_MAX_def LLONG_MAX_def)

text \<open>One turn of the loop, whatever the insertion started from.\<close>

lemma insert_turn:
  assumes ins: "table_insert_row fs h t (bench_stmt i) = Some (fs', h', t', Inr (length rows))"
    and r: "bench_ready fs' h' t' (rows @ [bench_row k i])" and k: "0 \<le> k" "k \<le> INT_MAX" and i: "i < 2 ^ 31"
  shows "indexed_insert_loop benchmark_prepare_insert_stmt i (Suc n) fs h t ids =
     indexed_insert_loop benchmark_prepare_insert_stmt (Suc i) n fs' h' t' (ids @ [k])"
proof -
  have stmt: "benchmark_prepare_insert_stmt\<lparr>ins_values := [bench_values i ! 0, bench_values i ! 1]\<rparr> = bench_stmt i"
    by (simp add: prepare_eq [of i] bench_stmt_def bench_values_def)
  have row: "table_get_row_by_slot t' (int (length rows)) = Some (bench_row k i)"
    using r by (simp add: table_get_row_by_slot_def bench_ready_def)
  have "utils_is_integer (show_int k)" "utils_parse_integer (show_int k) = k"
    using parse_show_int [of k] k by (simp_all add: INT_MAX_def LLONG_MAX_def)
  moreover have "int_of_long_long k = k"
    unfolding int_of_long_long_def using k by (intro signed_take_bit_int_eq_self) (simp_all add: INT_MAX_def)
  ultimately show ?thesis using ins row values_eq [OF i] stmt by (simp add: bench_row_def aget_def Let_def)
qed

lemma insert_turns:
  assumes "bench_ready fs h t rows" "int i + int n \<le> 2 ^ 31" "next_id_from 0 1 rows + int n \<le> INT_MAX + 1"
  shows "\<exists>fs' h' t'. indexed_insert_loop benchmark_prepare_insert_stmt i n fs h t ids =
       Some (fs', h', t', Some (ids @ map (\<lambda>j. next_id_from 0 1 rows + int j) [0..<n])) \<and>
     bench_ready fs' h' t' (rows @ bench_rows (next_id_from 0 1 rows) i n) \<and>
     (\<forall>name. name \<noteq> bench_name \<longrightarrow> abs_db fs' name = abs_db fs name)"
  using assms
proof (induction n arbitrary: i fs h t rows ids)
  case (Suc n)
  let ?k = "next_id_from 0 1 rows" and ?row = "bench_row (next_id_from 0 1 rows) i"
  have k: "0 \<le> ?k" "?k \<le> INT_MAX" and i: "i < 2 ^ 31" using next_id_ge [of 1 0 rows] Suc.prems by auto
  obtain fs1 h1 t1 where s: "table_insert_row fs h t (bench_stmt i) = Some (fs1, h1, t1, Inr (length rows))"
    "bench_ready fs1 h1 t1 (rows @ [?row])" "\<forall>name. name \<noteq> bench_name \<longrightarrow> abs_db fs1 name = abs_db fs name"
    using ready_insert [OF Suc.prems(1) i k(2)] by blast
  have nxt: "next_id_from 0 1 (rows @ [?row]) = ?k + 1" by (rule next_id_bench [OF k refl])
  have ids: "(ids @ [?k]) @ map (\<lambda>j. (?k + 1) + int j) [0..<n] = ids @ map (\<lambda>j. ?k + int j) [0..<Suc n]"
    by (simp add: upt_conv_Cons map_Suc_upt [symmetric] comp_def add.assoc del: upt_Suc)
  have rows: "(rows @ [?row]) @ bench_rows (?k + 1) (Suc i) n = rows @ bench_rows ?k i (Suc n)" by simp
  have "\<exists>fs' h' t'. indexed_insert_loop benchmark_prepare_insert_stmt (Suc i) n fs1 h1 t1 (ids @ [?k]) =
       Some (fs', h', t', Some ((ids @ [?k]) @ map (\<lambda>j. (?k + 1) + int j) [0..<n])) \<and>
     bench_ready fs' h' t' ((rows @ [?row]) @ bench_rows (?k + 1) (Suc i) n) \<and>
     (\<forall>name. name \<noteq> bench_name \<longrightarrow> abs_db fs' name = abs_db fs1 name)"
    using Suc.IH [OF s(2), of "Suc i" "ids @ [?k]"] Suc.prems(2,3) unfolding nxt by simp
  then show ?case unfolding insert_turn [OF s(1,2) k i] ids rows using s(3) by auto
qed simp

text \<open>The whole loop from the empty runtime table.\<close>

lemma indexed_insert_done:
  assumes st: "stored_tables fs" "cells h = Map.empty" "bp_memory h" and rows: "bench_stored fs rows"
    and n: "0 < n" "n < 2 ^ 31" and nxt: "next_id_from 0 1 rows + int n \<le> INT_MAX + 1"
  shows "\<exists>fs' h' t'. indexed_insert_loop benchmark_prepare_insert_stmt 0 n fs h table_init [] =
       Some (fs', h', t', Some (map (\<lambda>j. next_id_from 0 1 rows + int j) [0..<n])) \<and>
     bench_ready fs' h' t' (rows @ bench_rows (next_id_from 0 1 rows) 0 n) \<and>
     (\<forall>name. name \<noteq> bench_name \<longrightarrow> abs_db fs' name = abs_db fs name)"
proof -
  let ?k = "next_id_from 0 1 rows" and ?row = "bench_row (next_id_from 0 1 rows) 0"
  obtain m where m: "n = Suc m" using n(1) by (cases n) auto
  have k: "0 \<le> ?k" "?k \<le> INT_MAX" using next_id_ge [of 1 0 rows] nxt m by auto
  obtain fs1 h1 t1 where s: "table_insert_row fs h table_init (bench_stmt 0) = Some (fs1, h1, t1, Inr (length rows))"
    "bench_ready fs1 h1 t1 (rows @ [?row])" "\<forall>name. name \<noteq> bench_name \<longrightarrow> abs_db fs1 name = abs_db fs name"
    using first_insert [OF st rows _ k(2), of 0] by auto
  have nid: "next_id_from 0 1 (rows @ [?row]) = ?k + 1" by (rule next_id_bench [OF k refl])
  have ids: "([] @ [?k]) @ map (\<lambda>j. (?k + 1) + int j) [0..<m] = map (\<lambda>j. ?k + int j) [0..<Suc m]"
    by (simp add: upt_conv_Cons map_Suc_upt [symmetric] comp_def add.assoc del: upt_Suc)
  have rws: "(rows @ [?row]) @ bench_rows (?k + 1) (Suc 0) m = rows @ bench_rows ?k 0 (Suc m)" by simp
  have "\<exists>fs' h' t'. indexed_insert_loop benchmark_prepare_insert_stmt (Suc 0) m fs1 h1 t1 ([] @ [?k]) =
       Some (fs', h', t', Some (([] @ [?k]) @ map (\<lambda>j. (?k + 1) + int j) [0..<m])) \<and>
     bench_ready fs' h' t' ((rows @ [?row]) @ bench_rows (?k + 1) (Suc 0) m) \<and>
     (\<forall>name. name \<noteq> bench_name \<longrightarrow> abs_db fs' name = abs_db fs1 name)"
    using insert_turns [OF s(2), of "Suc 0" m "[] @ [?k]"] n(2) nxt m unfolding nid by simp
  moreover have "(0 :: nat) < 2 ^ 31" by simp
  ultimately show ?thesis unfolding m insert_turn [OF s(1,2) k \<open>0 < 2 ^ 31\<close>] ids rws using s(3) by auto
qed

text \<open>The plain store gets the rows a fresh table gets.\<close>

lemma plain_insert_done:
  assumes "length (bs_rows store) \<le> bs_capacity store" "int i + int n \<le> 2 ^ 31"
  shows "\<exists>store'. plain_insert_loop i n store = Some store' \<and> bs_rows store' = bs_rows store @ bench_rows (int i + 1) i n"
  using assms
proof (induction n arbitrary: i store)
  case (Suc n)
  let ?s = "benchmark_plain_store_reserve store"
  have "int i + 1 < 10 ^ 10" using Suc.prems(2) by simp
  then have "snprintf MAX_VALUE_LEN (show_int (int i + 1)) = show_int (int i + 1)"
    using show_int_length [of "int i + 1"] by (intro snprintf_fits) (simp add: MAX_VALUE_LEN_def)
  then have row: "[snprintf MAX_VALUE_LEN (show_int (int i + 1)), bench_values i ! 0, bench_values i ! 1] = bench_row (int i + 1) i"
    by (simp add: bench_row_def bench_values_def)
  have res: "length (bs_rows store) < bs_capacity ?s" "bs_rows ?s = bs_rows store"
    using Suc.prems(1) by (auto simp: benchmark_plain_store_reserve_def INITIAL_ROW_CAPACITY_def)
  then have "plain_insert_loop i (Suc n) store =
      plain_insert_loop (Suc i) n (?s\<lparr>bs_rows := bs_rows store @ [bench_row (int i + 1) i]\<rparr>)"
    using values_eq [of i] Suc.prems(2) row by (simp add: benchmark_plain_store_append_def Let_def)
  then show ?case using Suc.IH [of "?s\<lparr>bs_rows := bs_rows store @ [bench_row (int i + 1) i]\<rparr>" "Suc i"] res Suc.prems(2)
    by (auto simp: add.commute)
qed simp

section \<open>Lookup\<close>

lemma lookup_index_range:
  assumes "0 < bc_row_count config" "bc_row_count config \<le> INT_MAX"
    "lookup_index config c random_state i = (random_state', j)"
  shows "0 \<le> j \<and> j < bc_row_count config"
proof (cases c)
  case BENCHMARK_LOOKUP_AVERAGE
  then show ?thesis using assms by (auto simp: lookup_index_def benchmark_pick_lookup_index_def Let_def pos_imp_zdiv_nonneg_iff)
next
  case BENCHMARK_LOOKUP_WORST
  then show ?thesis using assms by (auto simp: lookup_index_def)
next
  case BENCHMARK_LOOKUP_RANDOM
  let ?n = "of_int (bc_row_count config) :: 32 word" and ?r = "random_state * 1103515245 + 12345"
  have n: "uint ?n = bc_row_count config" using assms(1,2) by (simp add: uint_word_of_int_eq take_bit_int_eq_self INT_MAX_def)
  have u: "uint (?r mod ?n) = uint ?r mod bc_row_count config" by (simp add: uint_mod n)
  then have range: "0 \<le> uint (?r mod ?n)" "uint (?r mod ?n) < bc_row_count config" using assms(1) by simp_all
  then have "sint (?r mod ?n) = uint (?r mod ?n)"
    unfolding sint_uint using assms(2) by (intro signed_take_bit_int_eq_self) (auto simp: INT_MAX_def intro: order_trans [OF _ range(1)])
  then show ?thesis using range assms(3) BENCHMARK_LOOKUP_RANDOM by (auto simp: lookup_index_def Let_def)
qed

lemma keys_built:
  assumes "0 < bc_row_count config" "bc_row_count config \<le> INT_MAX" "length ids = nat (bc_row_count config)"
    "i + n \<le> length lookup_keys" "\<forall>j < i. \<exists>k \<in> set ids. lookup_keys ! j = Some k"
  shows "\<exists>ks. lookup_keys_loop config ids c random_state i n lookup_keys = Some ks \<and> length ks = length lookup_keys \<and>
     (\<forall>j < i + n. \<exists>k \<in> set ids. ks ! j = Some k)"
  using assms(4,5)
proof (induction n arbitrary: i random_state lookup_keys)
  case (Suc n)
  obtain rs j where j: "lookup_index config c random_state i = (rs, j)" by fastforce
  have r: "0 \<le> j" "nat j < length ids" using lookup_index_range [OF assms(1,2) j] assms(3) by auto
  let ?ks = "lookup_keys[i := Some (ids ! nat j)]"
  have "\<forall>l < Suc i. \<exists>k \<in> set ids. ?ks ! l = Some k"
    using Suc.prems r(2) by (auto simp: less_Suc_eq nth_list_update)
  then have "\<exists>ks. lookup_keys_loop config ids c rs (Suc i) n ?ks = Some ks \<and> length ks = length ?ks \<and>
      (\<forall>j < Suc i + n. \<exists>k \<in> set ids. ks ! j = Some k)"
    using Suc.IH [of "Suc i" ?ks rs] Suc.prems(1) by simp
  then show ?case using j r Suc.prems(1) by (auto simp: aget_def aset_def)
qed auto

lemma lookups_succeed:
  assumes "i + n \<le> length lookup_keys" "\<forall>j < i + n. \<exists>k \<in> K. lookup_keys ! j = Some k"
    "\<And>k. k \<in> K \<Longrightarrow> \<exists>r. find_row k = Some (Some r) \<and> benchmark_validate_lookup_row t r k = Some SUCCESS"
  shows "lookup_loop find_row t lookup_keys i n = Some SUCCESS"
  using assms(1,2)
proof (induction n arbitrary: i)
  case (Suc n)
  obtain k where k: "k \<in> K" "lookup_keys ! i = Some k" using Suc.prems(2) [rule_format, of i] by auto
  obtain r where "find_row k = Some (Some r)" "benchmark_validate_lookup_row t r k = Some SUCCESS" using assms(3) [OF k(1)] by blast
  then show ?case using k Suc.IH [of "Suc i"] Suc.prems by (simp add: aget_def)
qed simp

lemma ready_rows:
  assumes "bench_ready fs h t rows" "row \<in> set rows"
  shows "length row = 3" "utils_is_integer (row ! 0)"
proof -
  have inv: "table_inv h t" "tr_rows t = rows" "tr_id_column t = 0" "tr_loaded t" "columns_of t = bench_columns"
    using assms(1) by (auto simp: bench_ready_def db_inv_def)
  have "length (columns_of t) = tr_col_count t" using inv(1) by (simp add: columns_of_def table_inv_def schema_ok_def)
  then show "length row = 3" using inv assms(2) by (simp add: table_inv_def bench_columns_def)
  show "utils_is_integer (row ! 0)" using inv assms(2) by (simp add: table_inv_def index_ok_def valid_ids_def)
qed

lemma validate_ready:
  assumes "bench_ready fs h t rows" "j < length rows" "row_id 0 (rows ! j) = k"
  shows "benchmark_validate_lookup_row t (int j) k = Some SUCCESS"
  using assms ready_rows [OF assms(1), of "rows ! j"]
  by (simp add: benchmark_validate_lookup_row_def table_get_row_by_slot_def bench_ready_def aget_def row_id_def)

lemma search_ready:
  assumes "bench_ready fs h t rows" "k \<in> row_id 0 ` set rows"
  shows "\<exists>r. bptree_search h (tr_root t) k = Some (Some r) \<and> benchmark_validate_lookup_row t r k = Some SUCCESS"
proof -
  have inv: "bp_owns h (tr_root t) (id_map 0 rows)" "distinct (map (row_id 0) rows)"
    using assms(1) by (auto simp: bench_ready_def db_inv_def table_inv_def index_ok_def)
  obtain v where v: "id_map 0 rows k = Some v" using assms(2) id_map_None [of 0 rows k] by (cases "id_map 0 rows k") auto
  then obtain j where "j < length rows" "v = int j" "row_id 0 (rows ! j) = k" using id_map_Some [OF inv(2)] by blast
  then show ?thesis using bp.find_holds [OF inv(1)] v validate_ready [OF assms(1)] by auto
qed

lemma linear_loop_finds:
  "\<forall>row \<in> set rows. length row = 3 \<and> utils_is_integer (row ! 0) \<Longrightarrow> k \<in> row_id 0 ` set rows \<Longrightarrow>
   \<exists>j. linear_loop i rows k = Some (Some (int (i + j))) \<and> j < length rows \<and> row_id 0 (rows ! j) = k"
proof (induction rows arbitrary: i)
  case (Cons row rows)
  show ?case
  proof (cases "row_id 0 row = k")
    case True
    then show ?thesis using Cons.prems(1) by (intro exI [of _ 0]) (simp add: aget_def row_id_def)
  next
    case False
    then obtain j where "linear_loop (Suc i) rows k = Some (Some (int (Suc i + j)))" "j < length rows" "row_id 0 (rows ! j) = k"
      using Cons.IH [of "Suc i"] Cons.prems by auto
    then show ?thesis using Cons.prems(1) False by (intro exI [of _ "Suc j"]) (simp add: aget_def row_id_def)
  qed
qed simp

lemma linear_ready:
  assumes "bench_ready fs h t rows" "k \<in> row_id 0 ` set rows"
  shows "\<exists>r. benchmark_find_row_index_by_id_linear t k = Some (Some r) \<and> benchmark_validate_lookup_row t r k = Some SUCCESS"
proof -
  have "\<forall>row \<in> set rows. length row = 3 \<and> utils_is_integer (row ! 0)" using ready_rows [OF assms(1)] by blast
  then obtain j where "linear_loop 0 rows k = Some (Some (int (0 + j)))" "j < length rows" "row_id 0 (rows ! j) = k"
    using linear_loop_finds assms(2) by blast
  then show ?thesis using validate_ready [OF assms(1)] assms(1)
    by (simp add: benchmark_find_row_index_by_id_linear_def bench_ready_def)
qed

lemma cases_succeed:
  assumes cfg: "0 < bc_row_count config" "bc_row_count config \<le> INT_MAX" "0 < bc_query_count config"
    and ids: "length ids = nat (bc_row_count config)" "set ids \<subseteq> row_id 0 ` set rows"
    and r: "bench_ready fs h t rows" and len: "length lookup_keys = nat (bc_query_count config)"
  shows "lookup_cases_loop config h t ids lookup_keys cs =
     Some (Some (map (\<lambda>c. \<lparr>lr_label = case_label c, lr_query_count = benchmark_query_count_for_case config c\<rparr>) cs))"
  using len
proof (induction cs arbitrary: lookup_keys)
  case (Cons c cs)
  let ?q = "benchmark_query_count_for_case config c"
  have q: "0 < ?q" "nat ?q \<le> length lookup_keys"
    using cfg(3) Cons.prems by (auto simp: benchmark_query_count_for_case_def)
  obtain ks where ks: "benchmark_build_lookup_keys config ids c ?q lookup_keys = Some (ks, SUCCESS)" "length ks = length lookup_keys"
    "\<forall>j < nat ?q. \<exists>k \<in> set ids. ks ! j = Some k"
    using keys_built [OF cfg(1,2) ids(1), of 0 "nat ?q" lookup_keys c "0x00C0FFEE"] q cfg(1)
    by (auto simp: benchmark_build_lookup_keys_def)
  have found: "lookup_loop f t ks 0 (nat ?q) = Some SUCCESS"
    if "\<And>k. k \<in> row_id 0 ` set rows \<Longrightarrow> \<exists>r. f k = Some (Some r) \<and> benchmark_validate_lookup_row t r k = Some SUCCESS" for f
    using lookups_succeed [of 0 "nat ?q" ks "set ids" f t] ks(2,3) q(2) that subsetD [OF ids(2)] by simp
  obtain k where "k \<in> set ids" using ids(1) cfg(1) by (cases ids) auto
  then have "\<exists>slot. bptree_search h (tr_root t) k = Some (Some slot)" using search_ready [OF r] ids(2) by blast
  then have "tr_root t \<noteq> None" by (cases "tr_root t") (auto simp: bptree_search_def)
  then have "benchmark_measure_id_lookup h t (tr_root t) ks ?q = Some SUCCESS"
    using found [OF search_ready [OF r]] by (simp add: benchmark_measure_id_lookup_def)
  moreover have "benchmark_measure_id_linear_scan t ks ?q = Some SUCCESS"
    using found [OF linear_ready [OF r]] by (simp add: benchmark_measure_id_linear_scan_def)
  ultimately show ?case using ks(1) Cons.IH [of ks] Cons.prems ks(2) by simp
qed simp

section \<open>Arbitrary data directories\<close>

text \<open>
  Whatever the files contain, the run is defined: it succeeds or reports failure, and no array
  access leaves its array.
\<close>

lemma safe_row: "table_safe h t \<Longrightarrow> row \<in> set (tr_rows t) \<Longrightarrow> row \<noteq> []"
  by (auto simp: table_safe_def table_inv_def split: if_splits)

lemma slot_row: "table_safe h t \<Longrightarrow> table_get_row_by_slot t j = Some row \<Longrightarrow> \<exists>v. aget row 0 = Some v"
proof -
  assume safe: "table_safe h t" and "table_get_row_by_slot t j = Some row"
  then have "0 \<le> j" "j < int (length (tr_rows t))" "row = tr_rows t ! nat j"
    by (auto simp: table_get_row_by_slot_def split: if_splits)
  then have "row \<in> set (tr_rows t)" by simp
  then show ?thesis using safe_row [OF safe] by (simp add: aget_def)
qed

lemma free_safe: "table_safe h t \<Longrightarrow> \<exists>h'. table_free h t = Some (h', table_init)"
  using table_free_ok by (fastforce simp: table_safe_def)

lemma insert_loop_total:
  assumes "table_safe h t" "length (ins_columns stmt) = 2"
  shows "\<exists>fs' h' t' r. indexed_insert_loop stmt i n fs h t ids = Some (fs', h', t', r) \<and>
     (r = None \<or> table_safe h' t' \<and> (\<exists>ids'. r = Some ids' \<and> length ids' = length ids + n))"
  using assms(1)
proof (induction n arbitrary: i fs h t ids)
  case (Suc n)
  obtain name age where v: "benchmark_build_values i MAX_VALUE_LEN MAX_VALUE_LEN = (name, age)" by fastforce
  let ?stmt = "stmt\<lparr>ins_values := [snprintf MAX_VALUE_LEN name, snprintf MAX_VALUE_LEN age]\<rparr>"
  obtain fs' h' t' res where ins: "table_insert_row fs h t ?stmt = Some (fs', h', t', res)" "table_safe h' t'"
    using insert_row_safe [OF Suc.prems, of ?stmt fs] assms(2) by auto
  obtain h2 where free: "table_free h' t' = Some (h2, table_init)" using free_safe [OF ins(2)] by blast
  show ?case
  proof (cases res)
    case (Inl e)
    then show ?thesis using v ins(1) free by simp
  next
    case (Inr j)
    show ?thesis
    proof (cases "table_get_row_by_slot t' (int j)")
      case None
      then show ?thesis using v ins(1) free Inr by simp
    next
      case (Some row)
      obtain id_text where "aget row 0 = Some id_text" using slot_row [OF ins(2) Some] by blast
      then show ?thesis using v ins free Inr Some Suc.IH [OF ins(2), of "Suc i" fs'] by fastforce
    qed
  qed
qed simp

lemma lookup_loop_total:
  assumes "\<And>k. \<exists>r. find_row k = Some r" "table_safe h t"
    "i + n \<le> length lookup_keys" "\<forall>j < i + n. lookup_keys ! j \<noteq> None"
  shows "\<exists>st. lookup_loop find_row t lookup_keys i n = Some st"
  using assms(3,4)
proof (induction n arbitrary: i)
  case (Suc n)
  obtain k where k: "lookup_keys ! i = Some k" using Suc.prems(2) [rule_format, of i] by auto
  obtain found where f: "find_row k = Some found" using assms(1) by blast
  have "\<exists>st. benchmark_validate_lookup_row t j k = Some st" for j
    using slot_row [OF assms(2), of j] by (auto simp: benchmark_validate_lookup_row_def split: option.split)
  then obtain val where "\<And>j. benchmark_validate_lookup_row t j k = Some (val j)" by metis
  then show ?case using k f Suc.prems Suc.IH [of "Suc i"] by (cases found) (auto simp: aget_def)
qed simp

lemma linear_loop_total: "\<forall>row \<in> set rows. row \<noteq> [] \<Longrightarrow> \<exists>r. linear_loop i rows k = Some r"
  by (induction rows arbitrary: i) (auto simp: aget_def)

lemma cases_total:
  assumes cfg: "0 < bc_row_count config" "bc_row_count config \<le> INT_MAX" "0 < bc_query_count config"
    and ids: "length ids = nat (bc_row_count config)" and safe: "table_safe h t"
    and len: "length lookup_keys = nat (bc_query_count config)"
  shows "\<exists>r. lookup_cases_loop config h t ids lookup_keys cs = Some r"
  using len
proof (induction cs arbitrary: lookup_keys)
  case (Cons c cs)
  let ?q = "benchmark_query_count_for_case config c"
  have q: "0 < ?q" "nat ?q \<le> length lookup_keys"
    using cfg(3) Cons.prems by (auto simp: benchmark_query_count_for_case_def)
  obtain ks where ks: "benchmark_build_lookup_keys config ids c ?q lookup_keys = Some (ks, SUCCESS)" "length ks = length lookup_keys"
    "\<forall>j < nat ?q. \<exists>k \<in> set ids. ks ! j = Some k"
    using keys_built [OF cfg(1,2) ids(1), of 0 "nat ?q" lookup_keys c "0x00C0FFEE"] q cfg(1)
    by (auto simp: benchmark_build_lookup_keys_def)
  have finished: "\<exists>st. lookup_loop f t ks 0 (nat ?q) = Some st" if "\<And>k. \<exists>r. f k = Some r" for f
    using lookup_loop_total [of f h t 0 "nat ?q" ks, OF that safe] ks(2,3) q(2) by auto
  obtain m where "bp_owns h (tr_root t) m" using safe by (auto simp: table_safe_def)
  then have "\<exists>r. bptree_search h (tr_root t) k = Some r" for k using bp.find_holds by blast
  then obtain st1 where "benchmark_measure_id_lookup h t (tr_root t) ks ?q = Some st1"
    using finished [of "bptree_search h (tr_root t)"] by (cases "tr_root t") (auto simp: benchmark_measure_id_lookup_def)
  moreover have "\<exists>r. benchmark_find_row_index_by_id_linear t k = Some r" for k
    using linear_loop_total [of "tr_rows t" 0 k] safe_row [OF safe] by (auto simp: benchmark_find_row_index_by_id_linear_def)
  then obtain st2 where "benchmark_measure_id_linear_scan t ks ?q = Some st2"
    using finished [of "benchmark_find_row_index_by_id_linear t"] by (auto simp: benchmark_measure_id_linear_scan_def)
  ultimately show ?case using ks(1) Cons.IH [of ks] Cons.prems ks(2) by (auto simp: Let_def)
qed simp

lemma benchmark_total:
  assumes "bc_row_count config \<le> INT_MAX"
  shows "\<exists>fs' h' r. benchmark_run mallocs (Some config) fs (empty_heap (\<lambda>i. True)) = Some (fs', h', r)"
proof (cases "bc_row_count config \<le> 0 \<or> bc_query_count config \<le> 0")
  case True
  then show ?thesis by (auto simp: benchmark_run_def)
next
  case False
  have "table_safe (empty_heap (\<lambda>i. True)) table_init"
    using init_db_inv inv_safe by (auto simp: db_inv_def)
  then obtain fs' h t r where ins: "indexed_insert_loop benchmark_prepare_insert_stmt 0 (nat (bc_row_count config)) fs
      (empty_heap (\<lambda>i. True)) table_init [] = Some (fs', h, t, r)"
    and res: "r = None \<or> table_safe h t \<and> (\<exists>ids. r = Some ids \<and> length ids = nat (bc_row_count config))"
    using insert_loop_total [of "empty_heap (\<lambda>i. True)" table_init benchmark_prepare_insert_stmt 0 "nat (bc_row_count config)" fs "[]"]
    by (auto simp: benchmark_prepare_insert_stmt_def)
  show ?thesis
  proof (cases "fst mallocs \<and> r \<noteq> None")
    case ids: True
    then obtain xs where xs: "r = Some xs" "length xs = nat (bc_row_count config)" "table_safe h t" using res by auto
    obtain h2 where free: "table_free h t = Some (h2, table_init)" using free_safe [OF xs(3)] by blast
    obtain lr where "lookup_cases_loop config h t xs (replicate (nat (bc_query_count config)) None)
        [BENCHMARK_LOOKUP_AVERAGE, BENCHMARK_LOOKUP_WORST, BENCHMARK_LOOKUP_RANDOM] = Some lr"
      using cases_total [OF _ assms _ xs(2,3), of "replicate (nat (bc_query_count config)) None"] False
      by (auto simp del: lookup_cases_loop.simps)
    moreover have "int 0 + int (nat (bc_row_count config)) \<le> 2 ^ 31" using assms by (simp add: INT_MAX_def)
    then obtain store where "plain_insert_loop 0 (nat (bc_row_count config)) \<lparr>bs_rows = [], bs_capacity = 0\<rparr> = Some store"
      using plain_insert_done [of "\<lparr>bs_rows = [], bs_capacity = 0\<rparr>" 0 "nat (bc_row_count config)"] by auto
    ultimately show ?thesis using False ids ins xs(1) free
      by (simp add: benchmark_run_def benchmark_measure_indexed_insert_def benchmark_measure_plain_insert_def
          del: lookup_cases_loop.simps)
  qed (use False ins in \<open>auto simp: benchmark_run_def benchmark_measure_indexed_insert_def\<close>)
qed

section \<open>Properties\<close>

lemma bench_ids:
  assumes "0 \<le> k" "k + int n \<le> INT_MAX + 1"
  shows "set (map (\<lambda>j. k + int j) [0..<n]) \<subseteq> row_id 0 ` set (rows @ bench_rows k i n)"
proof -
  have "row_id 0 (bench_row (k + int j) (i + j)) = k + int j" if "j < n" for j
    using parse_show_int [of "k + int j"] assms that by (simp add: row_id_def bench_row_def INT_MAX_def LLONG_MAX_def)
  then show ?thesis by (force simp: bench_rows_def image_iff)
qed

text \<open>
  C23: on a data directory written by the program the benchmark succeeds for every positive
  configuration the ids leave room for: every looked-up id is found by the B+ tree and by the
  linear scan, at the row that carries it, no array access leaves its array and every index
  node is released.  The inserted rows stay behind in the file of the benchmark's table, after
  those of earlier runs and with consecutive ids, and no other table changes.
\<close>

theorem benchmark_finds_every_row:
  assumes "stored_tables fs" "bench_stored fs rows" "0 < n" "0 < q" "q \<le> INT_MAX"
    "next_id_from 0 1 rows + n \<le> INT_MAX + 1"
  shows "\<exists>fs' h'. benchmark_run (True, True) (Some \<lparr>bc_row_count = n, bc_query_count = q\<rparr>) fs (empty_heap (\<lambda>i. True)) =
       Some (fs', h', Some [\<lparr>lr_label = ''average-case'', lr_query_count = q\<rparr>, \<lparr>lr_label = ''worst-case'', lr_query_count = 1\<rparr>,
         \<lparr>lr_label = ''random-case'', lr_query_count = q\<rparr>]) \<and>
     cells h' = Map.empty \<and> stored_tables fs' \<and>
     abs_db fs' ''benchmark_users'' = Some (bench_columns, rows @ bench_rows (next_id_from 0 1 rows) 0 (nat n)) \<and>
     (\<forall>name. name \<noteq> ''benchmark_users'' \<longrightarrow> abs_db fs' name = abs_db fs name)"
proof -
  let ?k = "next_id_from 0 1 rows" and ?cfg = "\<lparr>bc_row_count = n, bc_query_count = q\<rparr>" and ?h = "empty_heap (\<lambda>i. True)"
  have k: "1 \<le> ?k" by (rule next_id_ge)
  have n: "0 < nat n" "nat n < 2 ^ 31" "int (nat n) = n" using assms(3,6) k by (auto simp: INT_MAX_def nat_less_iff)
  obtain fs' h1 t where ins: "indexed_insert_loop benchmark_prepare_insert_stmt 0 (nat n) fs ?h table_init [] =
      Some (fs', h1, t, Some (map (\<lambda>j. ?k + int j) [0..<nat n]))"
    "bench_ready fs' h1 t (rows @ bench_rows ?k 0 (nat n))" "\<forall>name. name \<noteq> bench_name \<longrightarrow> abs_db fs' name = abs_db fs name"
    using indexed_insert_done [OF assms(1) _ _ assms(2) n(1,2), of ?h] assms(6) n(3)
    by (auto simp: empty_heap_def bp_memory_def)
  have db: "db_inv fs' h1 t" "tr_loaded t" "tr_name t = bench_name" "columns_of t = bench_columns"
    "tr_rows t = rows @ bench_rows ?k 0 (nat n)" using ins(2) by (auto simp: bench_ready_def)
  have "int 0 + int (nat n) \<le> 2 ^ 31" using n by simp
  then obtain store where "plain_insert_loop 0 (nat n) \<lparr>bs_rows = [], bs_capacity = 0\<rparr> = Some store"
    using plain_insert_done [of "\<lparr>bs_rows = [], bs_capacity = 0\<rparr>" 0 "nat n"] by auto
  moreover have "lookup_cases_loop ?cfg h1 t (map (\<lambda>j. ?k + int j) [0..<nat n]) (replicate (nat q) None)
      [BENCHMARK_LOOKUP_AVERAGE, BENCHMARK_LOOKUP_WORST, BENCHMARK_LOOKUP_RANDOM] =
      Some (Some [\<lparr>lr_label = ''average-case'', lr_query_count = q\<rparr>, \<lparr>lr_label = ''worst-case'', lr_query_count = 1\<rparr>,
         \<lparr>lr_label = ''random-case'', lr_query_count = q\<rparr>])"
    using cases_succeed [OF _ _ _ _ bench_ids [of ?k "nat n" rows 0] ins(2), of ?cfg "replicate (nat q) None"
        "[BENCHMARK_LOOKUP_AVERAGE, BENCHMARK_LOOKUP_WORST, BENCHMARK_LOOKUP_RANDOM]"] assms k n
    by (simp add: case_label_def benchmark_query_count_for_case_def del: lookup_cases_loop.simps)
  moreover have own: "bp_owns h1 (tr_root t) (id_map (tr_id_column t) (tr_rows t))" "bp_memory h1"
    using db(1) by (auto simp: db_inv_def table_inv_def index_ok_def)
  obtain h2 where "table_free h1 t = Some (h2, table_init)" "cells h2 = Map.empty" using table_free_ok [OF own] by blast
  ultimately have "benchmark_run (True, True) (Some ?cfg) fs ?h =
       Some (fs', h2, Some [\<lparr>lr_label = ''average-case'', lr_query_count = q\<rparr>, \<lparr>lr_label = ''worst-case'', lr_query_count = 1\<rparr>,
         \<lparr>lr_label = ''random-case'', lr_query_count = q\<rparr>]) \<and> cells h2 = Map.empty"
    using assms(3,4) ins(1) by (simp add: benchmark_run_def benchmark_measure_indexed_insert_def benchmark_measure_plain_insert_def)
  moreover have "stored_tables fs'" "abs_db fs' bench_name = Some (bench_columns, rows @ bench_rows ?k 0 (nat n))"
    using db abs_db_at by (auto simp: db_inv_def coherent_def)
  ultimately show ?thesis using ins(3) by blast
qed

theorem benchmark_finds_every_row_witness:
  "\<exists>fs' h'. benchmark_run (True, True) (Some \<lparr>bc_row_count = 1000000, bc_query_count = 1000\<rparr>) empty_fs (empty_heap (\<lambda>i. True)) =
       Some (fs', h', Some [\<lparr>lr_label = ''average-case'', lr_query_count = 1000\<rparr>, \<lparr>lr_label = ''worst-case'', lr_query_count = 1\<rparr>,
         \<lparr>lr_label = ''random-case'', lr_query_count = 1000\<rparr>]) \<and>
     cells h' = Map.empty \<and> stored_tables fs' \<and>
     abs_db fs' ''benchmark_users'' = Some (bench_columns, [] @ bench_rows (next_id_from 0 1 []) 0 (nat 1000000)) \<and>
     (\<forall>name. name \<noteq> ''benchmark_users'' \<longrightarrow> abs_db fs' name = abs_db empty_fs name)"
proof (rule benchmark_finds_every_row [OF stored_empty])
  show "bench_stored empty_fs []"
    by (simp add: bench_stored_def storage_table_exists_def storage_build_path_def fopen_read_def empty_fs_def Let_def)
qed (simp_all add: INT_MAX_def next_id_from_def)

end
