(* ===== verification/Column_Index.thy ===== *)
theory Column_Index
  imports Storage_Correct "HOL-Library.Multiset"
begin

text \<open>
  The transient index of a table column, \<^verbatim>\<open>src/db/index.c\<close>: a chained hash table for equality
  and an array sorted with \<^verbatim>\<open>qsort\<close> for ranges.  Chains and offset lists are lists in the
  order of their pointers; \<open>None\<close> is an access outside an array.  The C library leaves open
  how \<^verbatim>\<open>qsort\<close> sorts and promises nothing for a comparison that is no order, so it is a
  parameter, with what it promises as the locale \<open>c_qsort\<close>.
\<close>

section \<open>Model\<close>

definition HASH_BUCKET_COUNT :: nat where "HASH_BUCKET_COUNT = 101"

text \<open>The items of an offset list, \<^verbatim>\<open>NULL\<close> at first; their number is the field \<^verbatim>\<open>count\<close>.\<close>

record offset_list =
  ol_items :: "nat list option"
  ol_capacity :: nat

type_synonym hash_node = "string \<times> offset_list"

record range_entry =
  re_key :: string
  re_offset :: nat

record table_index =
  ti_column_index :: nat
  ti_buckets :: "hash_node list list"
  ti_entries :: "range_entry list"

fun hash_loop :: "64 word \<Rightarrow> string \<Rightarrow> 64 word" where
  "hash_loop hash [] = hash"
| "hash_loop hash (c # cs) = hash_loop ((push_bit 5 hash + hash) + of_nat (byte_of c)) cs"

definition index_hash_string :: "string \<Rightarrow> 64 word" where
  "index_hash_string text = hash_loop 5381 text"

definition bucket_of :: "string \<Rightarrow> nat \<Rightarrow> nat" where
  "bucket_of key bucket_count = unat (index_hash_string key mod of_nat bucket_count)"

definition index_offset_list_append :: "offset_list \<Rightarrow> nat \<Rightarrow> offset_list option" where
  "index_offset_list_append ol offset =
     (let offs = (case ol_items ol of None \<Rightarrow> [] | Some offs \<Rightarrow> offs);
          capacity = (case ol_items ol of
            None \<Rightarrow> 4
          | Some offs \<Rightarrow> if ol_capacity ol \<le> length offs then ol_capacity ol * 2 else ol_capacity ol) in
      if length offs < capacity then Some \<lparr>ol_items = Some (offs @ [offset]), ol_capacity = capacity\<rparr> else None)"

text \<open>The walk along a chain: the offset is appended at the node of the key; the inner \<open>None\<close> if there is none.\<close>

fun chain_append :: "hash_node list \<Rightarrow> string \<Rightarrow> nat \<Rightarrow> hash_node list option option" where
  "chain_append [] key offset = Some None"
| "chain_append ((k, offsets) # nodes) key offset =
     (if strcmp k key = 0 then map_option (\<lambda>offsets'. Some ((k, offsets') # nodes)) (index_offset_list_append offsets offset)
      else map_option (map_option (Cons (k, offsets))) (chain_append nodes key offset))"

definition index_add_hash_entry :: "hash_node list list \<Rightarrow> string \<Rightarrow> nat \<Rightarrow> hash_node list list option" where
  "index_add_hash_entry buckets key offset = do {
     let i = bucket_of key (length buckets);
     chain \<leftarrow> aget buckets i;
     found \<leftarrow> chain_append chain key offset;
     chain' \<leftarrow> (case found of
       Some chain' \<Rightarrow> Some chain'
     | None \<Rightarrow> map_option (\<lambda>offsets. (key, offsets) # chain)
         (index_offset_list_append \<lparr>ol_items = None, ol_capacity = 0\<rparr> offset));
     aset buckets i chain'
   }"

definition index_compare_range_entries :: "range_entry \<Rightarrow> range_entry \<Rightarrow> int" where
  "index_compare_range_entries left right =
     (let comparison = utils_compare_values (re_key left) (re_key right) in
      if comparison \<noteq> 0 then comparison
      else if re_offset left < re_offset right then -1
      else if re_offset right < re_offset left then 1
      else 0)"

definition index_compare_entry_to_value :: "range_entry \<Rightarrow> string \<Rightarrow> int" where
  "index_compare_entry_to_value entry value = utils_compare_values (re_key entry) value"

text \<open>The bisection both bound functions do, going right where the test holds.\<close>

function bound_loop :: "(range_entry \<Rightarrow> bool) \<Rightarrow> range_entry list \<Rightarrow> nat \<Rightarrow> nat \<Rightarrow> nat option" where
  "bound_loop go_right entries left right =
     (if left < right
      then do {
        let middle = left + (right - left) div 2;
        e \<leftarrow> aget entries middle;
        if go_right e then bound_loop go_right entries (middle + 1) right
        else bound_loop go_right entries left middle
      }
      else Some left)"
  by pat_completeness auto
termination
  by (relation "measure (\<lambda>(go_right, entries, left, right). right - left)") auto

declare bound_loop.simps [simp del]

definition index_lower_bound :: "range_entry list \<Rightarrow> string \<Rightarrow> nat option" where
  "index_lower_bound entries value =
     bound_loop (\<lambda>e. index_compare_entry_to_value e value < 0) entries 0 (length entries)"

definition index_upper_bound :: "range_entry list \<Rightarrow> string \<Rightarrow> nat option" where
  "index_upper_bound entries value =
     bound_loop (\<lambda>e. index_compare_entry_to_value e value \<le> 0) entries 0 (length entries)"

text \<open>The rows of the table, one after the other; the inner \<open>None\<close> is \<^verbatim>\<open>FAILURE\<close>, a value that is too long.\<close>

fun build_loop :: "nat \<Rightarrow> (string list \<times> nat) list \<Rightarrow> hash_node list list \<Rightarrow> range_entry list \<Rightarrow>
    (hash_node list list \<times> range_entry list) option option" where
  "build_loop column [] buckets entries = Some (Some (buckets, entries))"
| "build_loop column ((row, offset) # rows) buckets entries = do {
     v \<leftarrow> aget row column;
     buckets' \<leftarrow> index_add_hash_entry buckets v offset;
     case utils_safe_strcpy [] MAX_VALUE_LEN v of
       (key, FAILURE) \<Rightarrow> Some None
     | (key, SUCCESS) \<Rightarrow> build_loop column rows buckets' (entries @ [\<lparr>re_key = key, re_offset = offset\<rparr>])
   }"

definition index_build ::
  "((range_entry \<Rightarrow> range_entry \<Rightarrow> int) \<Rightarrow> range_entry list \<Rightarrow> range_entry list) \<Rightarrow> table_data \<Rightarrow> int \<Rightarrow> table_index option option" where
  "index_build qsort table column_index =
     (if column_index < 0 \<or> int (length (td_columns table)) \<le> column_index then Some None
      else do {
        built \<leftarrow> build_loop (nat column_index) (zip (td_rows table) (td_offsets table)) (replicate HASH_BUCKET_COUNT []) [];
        Some (map_option (\<lambda>(buckets, entries).
          \<lparr>ti_column_index = nat column_index, ti_buckets = buckets, ti_entries = qsort index_compare_range_entries entries\<rparr>) built)
      })"

definition index_copy_offsets :: "offset_list \<Rightarrow> nat list" where
  "index_copy_offsets ol = (case ol_items ol of None \<Rightarrow> [] | Some offs \<Rightarrow> offs)"

fun chain_find :: "hash_node list \<Rightarrow> string \<Rightarrow> nat list" where
  "chain_find [] value = []"
| "chain_find ((k, offsets) # nodes) value = (if strcmp k value = 0 then index_copy_offsets offsets else chain_find nodes value)"

text \<open>
  In both queries the outer \<open>None\<close> is an access outside the array, the inner one \<^verbatim>\<open>FAILURE\<close>.
  A released index has no buckets.
\<close>

definition index_query_equals :: "table_index \<Rightarrow> string \<Rightarrow> nat list option option" where
  "index_query_equals index value =
     (if ti_buckets index = [] then Some None
      else do {
        chain \<leftarrow> aget (ti_buckets index) (bucket_of value (length (ti_buckets index)));
        Some (Some (chain_find chain value))
      })"

definition index_query_range :: "table_index \<Rightarrow> string \<Rightarrow> string \<Rightarrow> nat list option option" where
  "index_query_range index op value =
     (let entries = ti_entries index; n = length entries in
      if strcmp op ''!='' = 0
      then Some (Some (map re_offset (filter (\<lambda>e. utils_compare_values (re_key e) value \<noteq> 0) entries)))
      else do {
        bounds \<leftarrow>
          (if strcmp op ''>'' = 0 then map_option (\<lambda>i. Some (i, n)) (index_upper_bound entries value)
           else if strcmp op ''>='' = 0 then map_option (\<lambda>i. Some (i, n)) (index_lower_bound entries value)
           else if strcmp op ''<'' = 0 then map_option (\<lambda>i. Some (0, i)) (index_lower_bound entries value)
           else if strcmp op ''<='' = 0 then map_option (\<lambda>i. Some (0, i)) (index_upper_bound entries value)
           else Some None);
        Some (map_option (\<lambda>(start, stop). map re_offset (take (stop - start) (drop start entries))) bounds)
      })"

definition index_free :: "table_index \<Rightarrow> table_index" where
  "index_free index = index\<lparr>ti_buckets := [], ti_entries := []\<rparr>"

section \<open>Hash chains\<close>

definition offsets_ok :: "offset_list \<Rightarrow> bool" where
  "offsets_ok ol \<longleftrightarrow> (case ol_items ol of None \<Rightarrow> False | Some offs \<Rightarrow> offs \<noteq> [] \<and> length offs \<le> ol_capacity ol)"

definition chain_ok :: "hash_node list \<Rightarrow> bool" where
  "chain_ok = list_all (\<lambda>(k, offsets). offsets_ok offsets)"

lemma offset_list_append:
  assumes "offsets_ok ol \<or> ol_items ol = None"
  shows "\<exists>ol'. index_offset_list_append ol offset = Some ol' \<and> offsets_ok ol' \<and>
     index_copy_offsets ol' = index_copy_offsets ol @ [offset]"
  using assms by (auto simp: offsets_ok_def index_offset_list_append_def index_copy_offsets_def Let_def split: option.splits)
    (metis length_greater_0_conv)

lemma chain_append_ok:
  assumes "chain_ok chain"
  shows "chain_append chain key offset = Some None \<and> chain_find chain key = [] \<or>
    (\<exists>chain'. chain_append chain key offset = Some (Some chain') \<and> chain_ok chain' \<and>
     (\<forall>v. chain_find chain' v = (if v = key then chain_find chain v @ [offset] else chain_find chain v)))"
  using assms
proof (induction chain key offset rule: chain_append.induct)
  case (2 k offsets nodes key offset)
  then have ok: "offsets_ok offsets" "chain_ok nodes" by (simp_all add: chain_ok_def)
  show ?case
  proof (cases "strcmp k key = 0")
    case True
    then show ?thesis using offset_list_append [of offsets offset] ok by (auto simp: strcmp_zero chain_ok_def)
  next
    case False
    then show ?thesis using "2.IH" [OF False ok(2)] ok(1) by (auto simp: strcmp_zero chain_ok_def)
  qed
qed simp

definition bucket_find :: "hash_node list list \<Rightarrow> string \<Rightarrow> nat list" where
  "bucket_find buckets v = chain_find (buckets ! bucket_of v (length buckets)) v"

lemma bucket_bound: "0 < n \<Longrightarrow> n < 2 ^ 64 \<Longrightarrow> bucket_of v n < n"
  by (simp add: bucket_of_def unat_mod unat_of_nat take_bit_nat_eq_self)

definition buckets_ok :: "hash_node list list \<Rightarrow> bool" where
  "buckets_ok buckets \<longleftrightarrow> 0 < length buckets \<and> length buckets < 2 ^ 64 \<and> list_all chain_ok buckets"

lemma add_hash_entry:
  assumes "buckets_ok buckets"
  shows "\<exists>b'. index_add_hash_entry buckets key offset = Some b' \<and> buckets_ok b' \<and> length b' = length buckets \<and>
     (\<forall>v. bucket_find b' v = (if v = key then bucket_find buckets v @ [offset] else bucket_find buckets v))"
proof -
  let ?i = "bucket_of key (length buckets)"
  have i: "?i < length buckets" using assms by (intro bucket_bound) (simp_all add: buckets_ok_def)
  then have ok: "chain_ok (buckets ! ?i)" using assms by (simp add: buckets_ok_def list_all_length)
  obtain new where new: "index_offset_list_append \<lparr>ol_items = None, ol_capacity = 0\<rparr> offset = Some new" "offsets_ok new"
    "index_copy_offsets new = [offset]" using offset_list_append [of "\<lparr>ol_items = None, ol_capacity = 0\<rparr>" offset]
    by (auto simp: index_copy_offsets_def)
  obtain chain' where c: "index_add_hash_entry buckets key offset = Some (buckets[?i := chain'])" "chain_ok chain'"
    "\<And>v. chain_find chain' v = (if v = key then chain_find (buckets ! ?i) v @ [offset] else chain_find (buckets ! ?i) v)"
    using chain_append_ok [OF ok, of key offset] i new ok
    by (auto simp: index_add_hash_entry_def aget_def aset_def Let_def chain_ok_def strcmp_zero)
  have "bucket_find (buckets[?i := chain']) v = (if v = key then bucket_find buckets v @ [offset] else bucket_find buckets v)" for v
    using i c(3) by (auto simp: bucket_find_def nth_list_update)
  moreover have "buckets_ok (buckets[?i := chain'])"
    using assms c(2) by (auto simp: buckets_ok_def list_all_iff dest: set_update_subset_insert [THEN subsetD])
  ultimately show ?thesis using c(1) by simp
qed

text \<open>The loop over the rows fills both structures.\<close>

definition cell_entry :: "nat \<Rightarrow> string list \<times> nat \<Rightarrow> range_entry" where
  "cell_entry column = (\<lambda>(row, offset). \<lparr>re_key = row ! column, re_offset = offset\<rparr>)"

lemma build_loop_ok:
  assumes "\<forall>(row, offset) \<in> set rows. column < length row \<and> length (row ! column) < MAX_VALUE_LEN"
    "buckets_ok buckets"
  shows "\<exists>b'. build_loop column rows buckets entries = Some (Some (b', entries @ map (cell_entry column) rows)) \<and>
     length b' = length buckets \<and>
     (\<forall>v. bucket_find b' v = bucket_find buckets v @ map snd (filter (\<lambda>(row, offset). row ! column = v) rows))"
  using assms
proof (induction rows arbitrary: buckets entries)
  case (Cons r rows)
  obtain row offset where r: "r = (row, offset)" by fastforce
  have c: "column < length row" "length (row ! column) < MAX_VALUE_LEN" using Cons.prems(1) r by auto
  obtain b1 where b1: "index_add_hash_entry buckets (row ! column) offset = Some b1" "length b1 = length buckets"
    "\<And>v. bucket_find b1 v = (if v = row ! column then bucket_find buckets v @ [offset] else bucket_find buckets v)"
    and ok: "buckets_ok b1" using add_hash_entry [OF Cons.prems(2)] by blast
  obtain b' where b': "build_loop column rows b1 (entries @ [\<lparr>re_key = row ! column, re_offset = offset\<rparr>]) =
      Some (Some (b', (entries @ [\<lparr>re_key = row ! column, re_offset = offset\<rparr>]) @ map (cell_entry column) rows))"
    "length b' = length b1"
    "\<And>v. bucket_find b' v = bucket_find b1 v @ map snd (filter (\<lambda>(row, offset). row ! column = v) rows)"
    using Cons.IH [of b1 "entries @ [\<lparr>re_key = row ! column, re_offset = offset\<rparr>]"] Cons.prems ok by auto
  have "utils_safe_strcpy [] MAX_VALUE_LEN (row ! column) = (row ! column, SUCCESS)"
    using c(2) by (simp add: utils_safe_strcpy_def MAX_VALUE_LEN_def)
  then show ?case using b' b1 c r by (auto simp: aget_def cell_entry_def)
qed simp

section \<open>Bisection\<close>

lemma bound_loop_eq:
  "left \<le> right \<Longrightarrow> right \<le> length es \<Longrightarrow> (\<forall>i < left. go_right (es ! i)) \<Longrightarrow>
     (\<forall>j. right \<le> j \<and> j < length es \<longrightarrow> \<not> go_right (es ! j)) \<Longrightarrow>
     (\<forall>i j. i \<le> j \<and> j < length es \<and> go_right (es ! j) \<longrightarrow> go_right (es ! i)) \<Longrightarrow>
     bound_loop go_right es left right = Some (length (takeWhile go_right es))"
proof (induction go_right es left right rule: bound_loop.induct)
  case (1 go_right es left right)
  show ?case
  proof (cases "left < right")
    case True
    let ?m = "left + (right - left) div 2"
    have m: "left \<le> ?m" "?m < right" using True by auto
    have e: "aget es ?m = Some (es ! ?m)" using m "1.prems"(2) by (simp add: aget_def)
    show ?thesis
    proof (cases "go_right (es ! ?m)")
      case up: True
      have "\<forall>i < ?m + 1. go_right (es ! i)" 
        using up "1.prems"(2,5) m(2) by (metis Suc_eq_plus1 less_Suc_eq_le order_less_le_trans)
      then have "bound_loop go_right es (?m + 1) right = Some (length (takeWhile go_right es))"
        using "1.IH"(1) [OF True refl e up] "1.prems" m by auto
      then show ?thesis using True e up by (subst bound_loop.simps) simp
    next
      case down: False
      have "\<forall>j. ?m \<le> j \<and> j < length es \<longrightarrow> \<not> go_right (es ! j)" using down "1.prems"(5) by blast
      then have "bound_loop go_right es left ?m = Some (length (takeWhile go_right es))"
        using "1.IH"(2) [OF True refl e down] "1.prems" m by auto
      then show ?thesis using True e down by (subst bound_loop.simps) simp
    qed
  next
    case False
    then have eq: "left = right" using "1.prems"(1) by simp
    have "takeWhile go_right es = take left es"
      using "1.prems" eq by (intro takeWhile_eq_take_P_nth) auto
    then show ?thesis using False "1.prems"(2) eq by (subst bound_loop.simps) simp
  qed
qed

lemma sorted_filter:
  "sorted_wrt (\<lambda>a b. P b \<longrightarrow> P a) xs \<Longrightarrow> takeWhile P xs = filter P xs \<and> dropWhile P xs = filter (\<lambda>x. \<not> P x) xs"
  by (induction xs) (auto simp: filter_empty_conv filter_id_conv)

section \<open>Comparable values\<close>

text \<open>Integers only, or no integers: then the comparison is an order.\<close>

definition comparable :: "string list \<Rightarrow> bool" where
  "comparable vs \<longleftrightarrow> list_all utils_is_integer vs \<or> list_all (\<lambda>v. \<not> utils_is_integer v) vs"

lemma strcmp_le_iff: "strcmp a b \<le> 0 \<longleftrightarrow> strcmp a b < 0 \<or> a = b"
  using strcmp_zero [of a b] by linarith

lemma compare_trans:
  assumes "comparable [a, b, c]"
  shows "utils_compare_values a b \<le> 0 \<Longrightarrow> utils_compare_values b c \<le> 0 \<Longrightarrow> utils_compare_values a c \<le> 0"
    "utils_compare_values a b \<le> 0 \<Longrightarrow> utils_compare_values b c < 0 \<Longrightarrow> utils_compare_values a c < 0"
proof -
  consider "utils_is_integer a" "utils_is_integer b" "utils_is_integer c"
    | "\<not> utils_is_integer a" "\<not> utils_is_integer b" "\<not> utils_is_integer c"
    using assms by (auto simp: comparable_def)
  then have "(utils_compare_values a b \<le> 0 \<longrightarrow> utils_compare_values b c \<le> 0 \<longrightarrow> utils_compare_values a c \<le> 0) \<and>
      (utils_compare_values a b \<le> 0 \<longrightarrow> utils_compare_values b c < 0 \<longrightarrow> utils_compare_values a c < 0)"
  proof cases
    case 1
    then show ?thesis by (simp add: utils_compare_values_def Let_def)
  next
    case 2
    then show ?thesis using strcmp_trans [of a b c] strcmp_le_iff [of a b] strcmp_le_iff [of b c] strcmp_le_iff [of a c]
      by (auto simp: utils_compare_values_def)
  qed
  then show "utils_compare_values a b \<le> 0 \<Longrightarrow> utils_compare_values b c \<le> 0 \<Longrightarrow> utils_compare_values a c \<le> 0"
    "utils_compare_values a b \<le> 0 \<Longrightarrow> utils_compare_values b c < 0 \<Longrightarrow> utils_compare_values a c < 0" by blast+
qed

lemma compare_flip: "utils_compare_values b a = - utils_compare_values a b"
proof -
  have "strcmp b a = - strcmp a b" by (rule strcmp_flip)
  then show ?thesis by (simp add: utils_compare_values_def Let_def)
qed

section \<open>What qsort promises\<close>

definition consistent :: "('a \<Rightarrow> 'a \<Rightarrow> int) \<Rightarrow> 'a set \<Rightarrow> bool" where
  "consistent cmp A \<longleftrightarrow> (\<forall>x \<in> A. \<forall>y \<in> A. (cmp x y < 0 \<longleftrightarrow> 0 < cmp y x)) \<and>
     (\<forall>x \<in> A. \<forall>y \<in> A. \<forall>z \<in> A. cmp x y \<le> 0 \<longrightarrow> cmp y z \<le> 0 \<longrightarrow> cmp x z \<le> 0)"

lemma consistent_mono: "consistent cmp A \<Longrightarrow> B \<subseteq> A \<Longrightarrow> consistent cmp B"
  unfolding consistent_def by blast

lemma consistent_le:
  "consistent cmp A \<Longrightarrow> x \<in> A \<Longrightarrow> y \<in> A \<Longrightarrow> z \<in> A \<Longrightarrow> cmp x y \<le> 0 \<Longrightarrow> cmp y z \<le> 0 \<Longrightarrow> cmp x z \<le> 0"
  unfolding consistent_def by blast

lemma consistent_total:
  assumes "consistent cmp A" "x \<in> A" "y \<in> A"
  shows "cmp x y \<le> 0 \<or> cmp y x \<le> 0"
proof -
  have "cmp y x < 0 \<longleftrightarrow> 0 < cmp x y" using assms unfolding consistent_def by blast
  then show ?thesis by linarith
qed

locale c_qsort =
  fixes qsort :: "(range_entry \<Rightarrow> range_entry \<Rightarrow> int) \<Rightarrow> range_entry list \<Rightarrow> range_entry list"
  assumes permutes: "consistent cmp (set xs) \<Longrightarrow> mset (qsort cmp xs) = mset xs"
    and sorts: "consistent cmp (set xs) \<Longrightarrow> sorted_wrt (\<lambda>x y. cmp x y \<le> 0) (qsort cmp xs)"
begin

lemma qsort_set: "consistent cmp (set xs) \<Longrightarrow> set (qsort cmp xs) = set xs"
  using permutes by (metis set_mset_mset)

lemma qsort_filter: "consistent cmp (set xs) \<Longrightarrow> mset (map f (filter P (qsort cmp xs))) = mset (map f (filter P xs))"
  using permutes by (metis mset_filter mset_map)

end

lemma comparable_set: "comparable us \<Longrightarrow> set vs = set us \<Longrightarrow> comparable vs"
  unfolding comparable_def list_all_iff by simp

lemma entries_le_iff:
  "index_compare_range_entries x y \<le> 0 \<longleftrightarrow>
     utils_compare_values (re_key x) (re_key y) < 0 \<or>
     utils_compare_values (re_key x) (re_key y) = 0 \<and> re_offset x \<le> re_offset y"
  by (auto simp: index_compare_range_entries_def Let_def)

lemma entries_trans:
  assumes keys: "comparable [re_key x, re_key y, re_key z]"
    and le: "index_compare_range_entries x y \<le> 0" "index_compare_range_entries y z \<le> 0"
  shows "index_compare_range_entries x z \<le> 0"
proof -
  define p q r where "p = utils_compare_values (re_key x) (re_key y)" and "q = utils_compare_values (re_key y) (re_key z)"
    and "r = utils_compare_values (re_key x) (re_key z)"
  have flips: "utils_compare_values (re_key y) (re_key x) = - p" "utils_compare_values (re_key z) (re_key y) = - q"
    "utils_compare_values (re_key z) (re_key x) = - r" unfolding p_def q_def r_def by (rule compare_flip)+
  have perm: "comparable [re_key y, re_key z, re_key x]" "comparable [re_key z, re_key y, re_key x]"
    using keys by (auto simp: comparable_def)
  have t: "p \<le> 0 \<Longrightarrow> q \<le> 0 \<Longrightarrow> r \<le> 0" "p \<le> 0 \<Longrightarrow> q < 0 \<Longrightarrow> r < 0"
    using compare_trans [OF keys] by (simp_all add: p_def q_def r_def)
  have u: "q \<le> 0 \<Longrightarrow> - r \<le> 0 \<Longrightarrow> - p \<le> 0" using compare_trans(1) [OF perm(1)] flips by (simp add: q_def)
  have v: "- q \<le> 0 \<Longrightarrow> - p \<le> 0 \<Longrightarrow> - r \<le> 0" using compare_trans(1) [OF perm(2)] flips by simp
  show ?thesis using le t u v unfolding entries_le_iff p_def [symmetric] q_def [symmetric] r_def [symmetric] by linarith
qed

lemma entries_flip: "index_compare_range_entries x y < 0 \<longleftrightarrow> 0 < index_compare_range_entries y x"
proof -
  have "utils_compare_values (re_key y) (re_key x) = - utils_compare_values (re_key x) (re_key y)" by (rule compare_flip)
  then show ?thesis by (simp add: index_compare_range_entries_def Let_def)
qed

lemma entries_consistent:
  assumes "comparable (map re_key es)"
  shows "consistent index_compare_range_entries (set es)"
proof -
  have "comparable [re_key x, re_key y, re_key z]" if "x \<in> set es" "y \<in> set es" "z \<in> set es" for x y z
    using assms that by (auto simp: comparable_def list_all_iff)
  then show ?thesis unfolding consistent_def using entries_trans entries_flip by blast
qed

text \<open>One function that keeps the promise.\<close>

fun insert_entry :: "('a \<Rightarrow> 'a \<Rightarrow> int) \<Rightarrow> 'a \<Rightarrow> 'a list \<Rightarrow> 'a list" where
  "insert_entry cmp x [] = [x]"
| "insert_entry cmp x (y # ys) = (if cmp x y \<le> 0 then x # y # ys else y # insert_entry cmp x ys)"

fun insertion_sort :: "('a \<Rightarrow> 'a \<Rightarrow> int) \<Rightarrow> 'a list \<Rightarrow> 'a list" where
  "insertion_sort cmp [] = []"
| "insertion_sort cmp (x # xs) = insert_entry cmp x (insertion_sort cmp xs)"

lemma insert_entry_mset [simp]: "mset (insert_entry cmp x ys) = add_mset x (mset ys)"
  by (induction ys) auto

lemma insertion_sort_mset [simp]: "mset (insertion_sort cmp xs) = mset xs"
  by (induction xs) auto

lemma insert_entry_set [simp]: "set (insert_entry cmp x ys) = insert x (set ys)"
  using insert_entry_mset by (metis set_mset_add_mset_insert set_mset_mset)

lemma insert_entry_sorted:
  "consistent cmp (insert x (set ys)) \<Longrightarrow> sorted_wrt (\<lambda>a b. cmp a b \<le> 0) ys \<Longrightarrow>
   sorted_wrt (\<lambda>a b. cmp a b \<le> 0) (insert_entry cmp x ys)"
proof (induction ys)
  case (Cons y ys)
  have c: "consistent cmp (insert x (set ys))" by (rule consistent_mono [OF Cons.prems(1)]) auto
  show ?case
  proof (cases "cmp x y \<le> 0")
    case True
    have "cmp x z \<le> 0" if "z \<in> set ys" for z
      using consistent_le [OF Cons.prems(1), of x y z] Cons.prems(2) True that by simp
    then show ?thesis using True Cons.prems(2) by simp
  next
    case False
    then have "cmp y x \<le> 0" using consistent_total [OF Cons.prems(1), of x y] by simp
    then show ?thesis using False Cons.IH [OF c] Cons.prems(2) by simp
  qed
qed simp

lemma insertion_sort_sorted: "consistent cmp (set xs) \<Longrightarrow> sorted_wrt (\<lambda>a b. cmp a b \<le> 0) (insertion_sort cmp xs)"
proof (induction xs)
  case (Cons x xs)
  have "set (insertion_sort cmp xs) = set xs" by (metis insertion_sort_mset set_mset_mset)
  moreover have "consistent cmp (set xs)" by (rule consistent_mono [OF Cons.prems]) auto
  ultimately show ?case using Cons.IH Cons.prems by (simp add: insert_entry_sorted)
qed simp

interpretation isort: c_qsort insertion_sort
  by unfold_locales (rule insertion_sort_mset, erule insertion_sort_sorted)

section \<open>Range queries\<close>

lemma bound_at:
  assumes "sorted_wrt (\<lambda>a b. P b \<longrightarrow> P a) es"
  shows "bound_loop P es 0 (length es) = Some (length (filter P es))"
proof -
  have "\<forall>i j. i \<le> j \<and> j < length es \<and> P (es ! j) \<longrightarrow> P (es ! i)"
    using assms unfolding sorted_wrt_iff_nth_less by (metis le_neq_implies_less)
  then have "bound_loop P es 0 (length es) = Some (length (takeWhile P es))" by (intro bound_loop_eq) auto
  then show ?thesis using sorted_filter [OF assms] by simp
qed

lemma split_at:
  assumes "sorted_wrt (\<lambda>a b. P b \<longrightarrow> P a) es"
  shows "take (length (filter P es)) es = filter P es" "drop (length (filter P es)) es = filter (\<lambda>e. \<not> P e) es"
  using sorted_filter [OF assms] takeWhile_eq_take [of P es] dropWhile_eq_drop [of P es] by (metis, metis)

lemma rest_filter:
  assumes "sorted_wrt (\<lambda>a b. P b \<longrightarrow> P a) es"
  shows "take (length es - length (filter P es)) (filter (\<lambda>e. \<not> P e) es) = filter (\<lambda>e. \<not> P e) es"
  unfolding split_at(2) [OF assms, symmetric] by simp

definition range_operators :: "string list" where
  "range_operators = [''!='', ''>'', ''>='', ''<'', ''<='']"

lemma range_query:
  assumes sorted: "sorted_wrt (\<lambda>x y. index_compare_range_entries x y \<le> 0) (ti_entries ix)"
    and cmp: "comparable (v # map re_key (ti_entries ix))" and op: "op \<in> set range_operators"
  shows "index_query_range ix op v =
     Some (Some (map re_offset (filter (\<lambda>e. storage_compare_with_operator (re_key e) op v = Some True) (ti_entries ix))))"
proof -
  let ?es = "ti_entries ix" and ?c = "\<lambda>e. utils_compare_values (re_key e) v"
  have keys: "comparable [re_key a, re_key b, v]" if "a \<in> set ?es" "b \<in> set ?es" for a b
    using cmp that by (auto simp: comparable_def list_all_iff)
  have le: "utils_compare_values (re_key a) (re_key b) \<le> 0" if "index_compare_range_entries a b \<le> 0" for a b
    using that by (auto simp: entries_le_iff)
  have less: "sorted_wrt (\<lambda>a b. ?c b < 0 \<longrightarrow> ?c a < 0) ?es"
    by (rule sorted_wrt_mono_rel [OF _ sorted]) (use compare_trans(2) [OF keys] le in blast)
  have leq: "sorted_wrt (\<lambda>a b. ?c b \<le> 0 \<longrightarrow> ?c a \<le> 0) ?es"
    by (rule sorted_wrt_mono_rel [OF _ sorted]) (use compare_trans(1) [OF keys] le in blast)
  have lower: "index_lower_bound ?es v = Some (length (filter (\<lambda>e. ?c e < 0) ?es))"
    using bound_at [OF less] by (simp add: index_lower_bound_def index_compare_entry_to_value_def)
  have upper: "index_upper_bound ?es v = Some (length (filter (\<lambda>e. ?c e \<le> 0) ?es))"
    using bound_at [OF leq] by (simp add: index_upper_bound_def index_compare_entry_to_value_def)
  have "op = ''!='' \<or> op = ''>'' \<or> op = ''>='' \<or> op = ''<'' \<or> op = ''<=''" using op by (simp add: range_operators_def)
  then show ?thesis using lower upper split_at [OF less] split_at [OF leq] rest_filter [OF less] rest_filter [OF leq]
    by (elim disjE) (simp_all add: index_query_range_def storage_compare_with_operator_def Let_def not_le not_less)
qed

section \<open>Properties\<close>

definition column_table :: "table_data \<Rightarrow> nat \<Rightarrow> bool" where
  "column_table t column \<longleftrightarrow> column < length (td_columns t) \<and> length (td_offsets t) = length (td_rows t) \<and>
     (\<forall>row \<in> set (td_rows t). length row = length (td_columns t) \<and> length (row ! column) < MAX_VALUE_LEN)"

lemma index_built:
  assumes "column_table t column"
  shows "\<exists>buckets. index_build qs t (int column) = Some (Some
       \<lparr>ti_column_index = column, ti_buckets = buckets,
        ti_entries = qs index_compare_range_entries (map (cell_entry column) (zip (td_rows t) (td_offsets t)))\<rparr>) \<and>
     length buckets = HASH_BUCKET_COUNT \<and>
     (\<forall>v. bucket_find buckets v = map snd (filter (\<lambda>(row, offset). row ! column = v) (zip (td_rows t) (td_offsets t))))"
proof -
  have rows: "\<forall>(row, offset) \<in> set (zip (td_rows t) (td_offsets t)). column < length row \<and> length (row ! column) < MAX_VALUE_LEN"
    using assms by (auto simp: column_table_def dest!: set_zip_leftD)
  have empty: "bucket_find (replicate HASH_BUCKET_COUNT []) v = []" for v
    using bucket_bound [of HASH_BUCKET_COUNT v] by (simp add: bucket_find_def HASH_BUCKET_COUNT_def)
  show ?thesis
    using build_loop_ok [OF rows, of "replicate HASH_BUCKET_COUNT []" "[]"] assms empty
    by (auto simp: index_build_def column_table_def HASH_BUCKET_COUNT_def buckets_ok_def chain_ok_def list_all_iff)
qed


definition sample_data :: table_data where
  "sample_data = \<lparr>td_columns = [''id'', ''age''], td_rows = [[''1'', ''30''], [''2'', ''9''], [''3'', ''30'']], td_offsets = [7, 12, 16]\<rparr>"


text \<open>
  The hash table compares texts while a scan compares integers as numbers: a stored 01 is equal
  to 1 for a scan, but not for the index.
\<close>

lemma equality_query_misses_equal_integer:
  "storage_compare_with_operator ''01'' ''='' ''1'' = Some True \<and> \<not> strcmp ''01'' ''1'' = 0"
  by code_simp

end
