(* ===== verification/Spec2Isabelle.thy ===== *)
theory Spec2Isabelle
  imports Engine_Concurrent Server_Run Cli_Main Column_Index
begin

text \<open>
  \<^bold>\<open>A verification of mini\_dbms\<close>

  The program is a small SQL database in C.  A statement is split into tokens (with a cache of
  recent texts), parsed, and executed on one active table that is held in memory with a B+ tree
  over its ids and kept in step with a CSV file.  It is used through a command line client or
  through an HTTP server, where a pool of worker threads fed by a bounded queue calls an engine
  facade that takes a reader/writer lock.  All paths below are under \<^verbatim>\<open>src/src/\<close>.

  \<^bold>\<open>Conventions.\<close>  A struct is a record with its fields; an array is a list read and written with
  \<open>aget\<close> and \<open>aset\<close> (theory \<open>Prelude\<close>), which are undefined outside it; a C string is the
  list of its characters before the NUL.  In a result type the outer \<open>option\<close> is \<open>None\<close> where the C
  code would have no defined behaviour, or where a call waits for ever; a theorem that an operation
  returns \<open>Some\<close> is the statement that this does not happen.  \<^verbatim>\<open>SUCCESS\<close> and \<^verbatim>\<open>FAILURE\<close> are values of
  \<open>status\<close>, of a sum with an error type, or an inner option.  Integers are \<open>int\<close> or \<open>nat\<close>
  with the limits the code checks; where the code relies on wrap-around (hashing, the random
  numbers of the benchmark, the expected size of a request) they are words of 32 or 64 bits.
  Files are a map from paths to byte strings.

  \<^bold>\<open>The id index\<close> (\<^verbatim>\<open>db/bptree.c\<close>).  \<open>BPTree\<close> models nodes in a heap with parent and next pointers, where
  any allocation may fail, and the C functions on it.  \<open>BPTree_Shape\<close> has the tree a heap stands
  for, with insertion on it; \<open>BPTree_Refine\<close> and \<open>BPTree_Insert\<close> relate heap and tree, and
  \<open>BPTree_Correct\<close> shows that the functions implement a finite map: insertion updates it, search
  reads it, freeing releases every node, the leaf chain is sorted and the height logarithmic.
  \<open>Index_Interface\<close> states this contract as the locale \<open>id_index\<close>, interpreted on the C functions.
  Pointer loops carry fuel: \<open>Suc (fresh h)\<close> steps down to a leaf, \<open>2 * fresh h\<close> for propagating a split,
  \<open>Suc (2 * fresh h)\<close> for freeing, where \<open>fresh\<close> counts the nodes ever allocated; the lemmas show that
  this is enough.

  \<^bold>\<open>Text\<close> (\<^verbatim>\<open>common/utils.c\<close>, \<^verbatim>\<open>db/tokenizer.c\<close>, \<^verbatim>\<open>db/parser.c\<close>).  \<open>Utils\<close> has the helpers, \<open>Tokenizer\<close>
  the scanner and its cache, \<open>Parser\<close> the recursive descent.  \<open>Tokenizer_Correct\<close>: the cache is transparent,
  also when threads interleave, and tokens fit their buffers.  \<open>Parser_Correct\<close>: the parser
  accepts exactly a reference grammar, statements fit their buffers, and printing, tokenizing and
  parsing give the statement back.

  \<^bold>\<open>Storage\<close> (\<^verbatim>\<open>db/storage.c\<close>).  \<open>Storage\<close> models reading and writing of CSV tables, insertion with automatic
  ids, deletion and reading by offset.  \<open>Storage_Correct\<close> has the round trips, what an insertion may
  change, and that deletion keeps exactly the other rows.

  \<^bold>\<open>The active table\<close> (\<^verbatim>\<open>db/table_runtime.c\<close>).  \<open>Table_Runtime\<close> is the model, \<open>Runtime_Correct\<close> its invariant and
  loading, \<open>Runtime_Insert\<close> insertion.  There are two levels: \<open>table_safe\<close> for arbitrary files, from
  which everything is defined, and \<open>db_inv\<close> for directories the program wrote (\<open>stored_tables\<close>),
  where memory, index and file agree and \<open>abs_db\<close> is the database the directory stands for.

  \<^bold>\<open>Queries\<close> (\<^verbatim>\<open>db/executor.c\<close>, \<^verbatim>\<open>db/executor_result.c\<close>).  \<open>Executor\<close> executes statements into results,
  \<open>Executor_Correct\<close> shows what SELECT and INSERT return and that the lookup through the index equals the
  scan.  \<open>Result_Shape\<close> shows that results are rectangular, \<open>Display\<close> models the printed tables with
  their UTF-8 widths and shows that they are aligned.

  \<^bold>\<open>The engine\<close> (\<^verbatim>\<open>db/db_engine_facade.c\<close>, \<^verbatim>\<open>concurrency/lock_manager.c\<close>).  \<open>Engine\<close> has the facade and
  the locks.  \<open>Engine_Correct\<close>: every text is answered whatever the files contain, and a sequence of
  statements refines an abstract database.  \<open>Engine_Concurrent\<close> runs any number of calls as threads
  of a step relation with one step per lock operation and execution: the runs are linearizable,
  never deadlock and end within a bound.

  \<^bold>\<open>Threads\<close> (\<^verbatim>\<open>concurrency/job_queue.c\<close>, \<^verbatim>\<open>concurrency/thread_pool.c\<close>).  \<open>Job_Queue\<close> models the ring buffer; the
  locale \<open>bounded_fifo\<close> is its contract, interpreted on it.  \<open>Thread_Pool\<close> has workers, submissions
  and shutdown as step relations: the statistics balance and a shutdown loses no job.
  \<open>Transitions\<close> holds the laws all step relations share: the locale \<open>invariant_steps\<close> (a step keeps
  an invariant) and its extension \<open>terminating_steps\<close> (a step uses up a measure), interpreted on the
  steps of the tokenizer's cache, of the engine's calls, of the pool and of the server.

  \<^bold>\<open>The HTTP server\<close> (\<^verbatim>\<open>api/\<close>).  \<open>Responses\<close> models the JSON and HTTP texts, \<open>Http\<close> the request parser and
  the router, \<open>Server\<close> reading from and writing to a connection, the handler and the command line,
  \<open>Server_Run\<close> the accept loop together with the workers.  \<open>Http_Correct\<close> and \<open>Server_Correct\<close>: a
  well-formed query arriving in pieces of any size is answered with its result, every client gets
  a complete response, and \<open>Server_Run\<close>: every connection is answered exactly once and refused only
  when the queue is full.  What \<^verbatim>\<open>recv\<close>, \<^verbatim>\<open>send\<close> and \<^verbatim>\<open>accept\<close> return is an argument of the model.

  \<^bold>\<open>The command line client and the benchmark\<close> (\<^verbatim>\<open>cli/main.c\<close>, \<^verbatim>\<open>db/benchmark.c\<close>).  \<open>Cli\<close> has file mode and interactive
  mode, \<open>Cli_Correct\<close> shows that they agree, \<open>Benchmark\<close> and \<open>Benchmark_Correct\<close> treat the benchmark mode,
  and \<open>Cli_Main\<close> the whole of \<^verbatim>\<open>main\<close>, which always returns.

  \<^bold>\<open>The column index\<close> (\<^verbatim>\<open>db/index.c\<close>, which no other part calls).  \<open>Column_Index\<close> shows that it answers
  like a scan where the values are comparable; the locale \<open>c_qsort\<close> is what the C standard promises
  of \<^verbatim>\<open>qsort\<close>.

  \<^bold>\<open>Not modelled.\<close>  Failing allocations of strings, rows and results (those of index nodes, of the
  job queue, of the pool and of the id arrays of the benchmark are), and with them the functions
  that only release such memory; I/O errors and failing \<^verbatim>\<open>flock\<close> calls on files that exist; overflow of
  the row capacity beyond the range of \<^verbatim>\<open>int\<close>; \<^verbatim>\<open>NULL\<close> arguments the callers never pass; the socket
  calls themselves; texts on the standard error stream below the client; measured times and the report of
  the benchmark.  Memory is sequentially consistent and critical sections are atomic, which is what
  the mutexes of the code provide.
\<close>

end
